(* ===== verification/Prelude.thy ===== *)
theory Prelude
  imports Main "HOL-Library.Word" "HOL-Library.Char_ord" "HOL-Library.List_Lexorder"
    "HOL-Library.Multiset"
begin

text \<open>
  Shared ground of the development: the machine types of the Go code, the byte, decimal and
  hexadecimal conversions of its standard library (\<open>encoding/binary\<close>, \<open>strconv\<close>, the
  \<open>%d\<close> and \<open>%x\<close> verbs of \<open>fmt\<close>), the fact collections the components fill, and
  the two interfaces that several components share: a clock that advances by one and a
  simulation between two fallible step functions.

  Go strings are byte sequences, so they are Isabelle strings (a \<open>char\<close> is a byte); a
  \<open>[]byte\<close> is a list of 8-bit words; \<open>uint64\<close> is a 64-bit word.
\<close>

unbundle bit_operations_syntax

type_synonym byte = "8 word"
type_synonym u64 = "64 word"

text \<open>\<open>int64\<close>, and \<open>int\<close> where its sign matters: the same words, read with \<open>sint\<close>.\<close>

type_synonym i64 = "64 word"

text \<open>\<open>go_defs\<close>: small code definitions that proofs unfold together.
  \<open>len_simps\<close>: lengths of the byte encodings.\<close>

named_theorems go_defs
named_theorems len_simps

section \<open>Lists\<close>

text \<open>The Go assignment \<open>a[i], a[j] = a[j], a[i]\<close>.\<close>

definition list_swap :: "'a list \<Rightarrow> nat \<Rightarrow> nat \<Rightarrow> 'a list" where
  "list_swap xs i j = xs[i := xs ! j, j := xs ! i]"

lemma length_list_swap [simp]: "length (list_swap xs i j) = length xs"
  by (simp add: list_swap_def)

lemma mset_list_swap [simp]:
  "i < length xs \<Longrightarrow> j < length xs \<Longrightarrow> mset (list_swap xs i j) = mset xs"
  by (simp add: list_swap_def mset_update nth_list_update)

lemma take_append_prefix: "k \<le> length xs \<Longrightarrow> take k (xs @ ys) = take k xs"
  by simp

section \<open>Machine words\<close>

lemma unat_byte_less [simp]: "unat (b :: byte) < 256"
  using unsigned_less [of b, where ?'a = nat] by simp

lemma unat_u32_less [simp]: "unat (w :: 32 word) < 4294967296"
  using unsigned_less [of w, where ?'a = nat] by simp

lemma unat_u64_less [simp]: "unat (w :: u64) < 18446744073709551616"
  using unsigned_less [of w, where ?'a = nat] by simp

lemma unat_of_nat_u64: "n < 2 ^ 64 \<Longrightarrow> unat (of_nat n :: u64) = n"
  by (simp only: unat_of_nat) simp

text \<open>The next value of a counter that has not reached the top of its range.\<close>

lemma unat_u64_plus_1: "w \<noteq> - 1 \<Longrightarrow> unat (w + 1 :: u64) = unat w + 1"
  by (metis Suc_eq_plus1 add.commute add.right_inverse unatSuc add_eq_0_iff)

section \<open>Bytes of integers\<close>

text \<open>\<open>binary.BigEndian.PutUint32/64\<close> write the low \<open>k\<close> bytes, most significant first;
  \<open>Uint32/64\<close> read them back.\<close>

primrec be_bytes :: "nat \<Rightarrow> nat \<Rightarrow> byte list" where
  "be_bytes 0 n = []"
| "be_bytes (Suc k) n = be_bytes k (n div 256) @ [of_nat (n mod 256)]"

definition be_val :: "byte list \<Rightarrow> nat" where
  "be_val bs = foldl (\<lambda>a b. a * 256 + unat b) 0 bs"

definition le_bytes :: "nat \<Rightarrow> nat \<Rightarrow> byte list" where
  "le_bytes k n = rev (be_bytes k n)"

definition le_val :: "byte list \<Rightarrow> nat" where
  "le_val bs = be_val (rev bs)"

lemma length_be_bytes [simp, len_simps]: "length (be_bytes k n) = k"
  by (induction k arbitrary: n) auto

lemma length_le_bytes [simp, len_simps]: "length (le_bytes k n) = k"
  by (simp add: le_bytes_def)

lemma be_val_Nil [simp]: "be_val [] = 0"
  by (simp add: be_val_def)

lemma be_val_snoc [simp]: "be_val (bs @ [b]) = be_val bs * 256 + unat b"
  by (simp add: be_val_def)

lemma unat_of_nat_byte: "unat (of_nat (n mod 256) :: byte) = n mod 256"
  by (simp add: unat_of_nat)

lemma be_val_be_bytes: "be_val (be_bytes k n) = n mod 256 ^ k"
proof (induction k arbitrary: n)
  case (Suc k)
  have "n mod (256 * 256 ^ k) = 256 * (n div 256 mod 256 ^ k) + n mod 256"
    by (rule mod_mult2_eq)
  with Suc show ?case by (simp add: unat_of_nat_byte)
qed simp

lemma be_val_bound: "be_val bs < 256 ^ length bs"
proof (induction bs rule: rev_induct)
  case (snoc b bs)
  from snoc have "be_val bs + 1 \<le> 256 ^ length bs" by simp
  moreover have "unat b < 256" by simp
  ultimately have "be_val bs * 256 + unat b < 256 * 256 ^ length bs" by linarith
  then show ?case by simp
qed simp

lemma be_val_Cons: "be_val (b # bs) = unat b * 256 ^ length bs + be_val bs"
proof (induction bs rule: rev_induct)
  case (snoc c bs)
  have "be_val ((b # bs) @ [c]) = be_val (b # bs) * 256 + unat c" by (rule be_val_snoc)
  with snoc show ?case by (simp add: algebra_simps)
qed (simp add: be_val_def)

lemma be_bytes_be_val: "be_bytes (length bs) (be_val bs) = bs"
proof (induction bs rule: rev_induct)
  case (snoc b bs)
  have b: "unat b < 256" by simp
  then have "(be_val bs * 256 + unat b) div 256 = be_val bs"
    and "(be_val bs * 256 + unat b) mod 256 = unat b" by simp_all
  with snoc show ?case by simp
qed simp

lemma be_bytes_inj: "be_bytes k m = be_bytes k n \<Longrightarrow> m < 256 ^ k \<Longrightarrow> n < 256 ^ k \<Longrightarrow> m = n"
  by (metis be_val_be_bytes mod_less)

definition put_u64_be :: "u64 \<Rightarrow> byte list" where
  "put_u64_be w = be_bytes 8 (unat w)"

definition get_u64_be :: "byte list \<Rightarrow> u64" where
  "get_u64_be bs = of_nat (be_val bs)"

definition put_u64_le :: "u64 \<Rightarrow> byte list" where
  "put_u64_le w = le_bytes 8 (unat w)"

definition get_u64_le :: "byte list \<Rightarrow> u64" where
  "get_u64_le bs = of_nat (le_val bs)"

definition put_u32_be :: "32 word \<Rightarrow> byte list" where
  "put_u32_be w = be_bytes 4 (unat w)"

definition get_u32_be :: "byte list \<Rightarrow> 32 word" where
  "get_u32_be bs = of_nat (be_val bs)"

lemma length_put [simp, len_simps]:
  "length (put_u64_be w) = 8" "length (put_u64_le w) = 8" "length (put_u32_be v) = 4"
  by (simp_all add: put_u64_be_def put_u64_le_def put_u32_be_def)

lemma get_put_u64_be [simp]: "get_u64_be (put_u64_be w) = w"
  by (simp add: get_u64_be_def put_u64_be_def be_val_be_bytes)

lemma get_put_u64_le [simp]: "get_u64_le (put_u64_le w) = w"
  by (simp add: get_u64_le_def put_u64_le_def le_val_def le_bytes_def be_val_be_bytes)

lemma get_put_u32_be [simp]: "get_u32_be (put_u32_be w) = w"
  by (simp add: get_u32_be_def put_u32_be_def be_val_be_bytes)

lemma put_get_u64_be: "length bs = 8 \<Longrightarrow> put_u64_be (get_u64_be bs) = bs"
  using be_val_bound [of bs] be_bytes_be_val [of bs]
  by (simp add: get_u64_be_def put_u64_be_def unat_of_nat)

lemma put_get_u32_be: "length bs = 4 \<Longrightarrow> put_u32_be (get_u32_be bs) = bs"
  using be_val_bound [of bs] be_bytes_be_val [of bs]
  by (simp add: get_u32_be_def put_u32_be_def unat_of_nat)

section \<open>Strings and bytes\<close>

text \<open>The Go conversions \<open>[]byte(s)\<close> and \<open>string(b)\<close>.\<close>

definition byte_of_char :: "char \<Rightarrow> byte" where
  "byte_of_char c = of_nat (of_char c)"

definition char_of_byte :: "byte \<Rightarrow> char" where
  "char_of_byte b = char_of (unat b)"

definition bytes_of_string :: "string \<Rightarrow> byte list" where
  "bytes_of_string s = map byte_of_char s"

definition string_of_bytes :: "byte list \<Rightarrow> string" where
  "string_of_bytes bs = map char_of_byte bs"

lemma char_of_byte_of_char [simp]: "char_of_byte (byte_of_char c) = c"
proof -
  have "(of_char c :: nat) < 256" by simp
  then have "unat (of_nat (of_char c) :: byte) = of_char c"
    by (simp add: unat_of_nat)
  then show ?thesis by (simp add: char_of_byte_def byte_of_char_def)
qed

lemma byte_of_char_of_byte [simp]: "byte_of_char (char_of_byte b) = b"
  by (simp add: char_of_byte_def byte_of_char_def of_char_of take_bit_eq_mod)

lemma byte_of_char_inj [simp]: "byte_of_char a = byte_of_char b \<longleftrightarrow> a = b"
  by (metis char_of_byte_of_char)

lemma string_bytes_inverse [simp]:
  "string_of_bytes (bytes_of_string s) = s" "bytes_of_string (string_of_bytes bs) = bs"
  by (simp_all add: string_of_bytes_def bytes_of_string_def comp_def)

lemma length_bytes_of_string [simp, len_simps]: "length (bytes_of_string s) = length s"
  by (simp add: bytes_of_string_def)

lemma length_string_of_bytes [simp]: "length (string_of_bytes bs) = length bs"
  by (simp add: string_of_bytes_def)

lemma bytes_of_string_append [simp]:
  "bytes_of_string (s @ t) = bytes_of_string s @ bytes_of_string t"
  by (simp add: bytes_of_string_def)

lemma bytes_of_string_inj [simp]: "bytes_of_string s = bytes_of_string t \<longleftrightarrow> s = t"
  by (metis string_bytes_inverse(1))

text \<open>Characters Isabelle's string literals do not hold.\<close>

definition em_dash :: string where
  "em_dash = string_of_bytes [0xE2, 0x80, 0x94]"

text \<open>\<open>make\<close> of a slice panics for a negative length and for more bytes than a 64-bit machine can
  address (2 to the 48); \<open>elem\<close> is the size of an element.\<close>

definition makeslice_panic :: string where
  "makeslice_panic = ''runtime error: makeslice: len out of range''"

definition make_panics :: "nat \<Rightarrow> i64 \<Rightarrow> bool" where
  "make_panics elem n \<longleftrightarrow> sint n < 0 \<or> 2 ^ 48 < sint n * int elem"

definition newline :: string where
  "newline = [CHR 0x0A]"

definition backslash :: char where
  "backslash = CHR 0x5C"

definition dquote :: char where
  "dquote = CHR 0x22"

section \<open>Decimal and hexadecimal text\<close>

text \<open>\<open>%d\<close> of a non-negative integer, \<open>%d\<close> of a signed one, and the zero-padded
  \<open>%0wd\<close>.\<close>

definition digit_char :: "nat \<Rightarrow> char" where
  "digit_char d = char_of (48 + d)"

fun dec_of_nat :: "nat \<Rightarrow> string" where
  "dec_of_nat n =
     (if n < 10 then [digit_char n] else dec_of_nat (n div 10) @ [digit_char (n mod 10)])"

declare dec_of_nat.simps [simp del]

definition fmt_u64 :: "u64 \<Rightarrow> string" where
  "fmt_u64 w = dec_of_nat (unat w)"

definition fmt_int :: "int \<Rightarrow> string" where
  "fmt_int i = (if i < 0 then ''-'' @ dec_of_nat (nat (- i)) else dec_of_nat (nat i))"

definition pad_zero :: "nat \<Rightarrow> string \<Rightarrow> string" where
  "pad_zero w s = replicate (w - length s) (CHR ''0'') @ s"

text \<open>Reading decimal digits back.\<close>

definition dec_val :: "string \<Rightarrow> nat" where
  "dec_val s = foldl (\<lambda>a c. a * 10 + (of_char c - 48)) 0 s"

lemma of_char_digit: "d < 10 \<Longrightarrow> (of_char (digit_char d) :: nat) = 48 + d"
  by (simp add: digit_char_def of_char_of)

lemma dec_val_snoc [simp]: "dec_val (s @ [c]) = dec_val s * 10 + (of_char c - 48)"
  by (simp add: dec_val_def)

lemma dec_val_dec_of_nat [simp]: "dec_val (dec_of_nat n) = n"
proof (induction n rule: dec_of_nat.induct)
  case (1 n)
  show ?case
  proof (cases "n < 10")
    case True
    then show ?thesis
      by (subst dec_of_nat.simps) (simp add: dec_val_def of_char_digit)
  next
    case False
    with 1 show ?thesis
      by (subst dec_of_nat.simps) (simp add: of_char_digit)
  qed
qed

lemma dec_of_nat_inj [simp]: "dec_of_nat m = dec_of_nat n \<longleftrightarrow> m = n"
  by (metis dec_val_dec_of_nat)

lemma dec_of_nat_not_Nil [simp]: "dec_of_nat n \<noteq> []"
  by (subst dec_of_nat.simps) simp

definition is_digit :: "char \<Rightarrow> bool" where
  "is_digit c \<longleftrightarrow> 48 \<le> (of_char c :: nat) \<and> (of_char c :: nat) \<le> 57"

lemma is_digit_digit_char: "d < 10 \<Longrightarrow> is_digit (digit_char d)"
  by (simp add: is_digit_def of_char_digit)

lemma dec_of_nat_digits: "\<forall>c \<in> set (dec_of_nat n). is_digit c"
proof (induction n rule: dec_of_nat.induct)
  case (1 n)
  then show ?case
    by (subst dec_of_nat.simps) (auto simp: is_digit_digit_char)
qed

lemma dec_of_nat_no_char: "\<not> is_digit c \<Longrightarrow> c \<notin> set (dec_of_nat n)"
  using dec_of_nat_digits by blast

lemma length_dec_of_nat: "n < 10 ^ Suc k \<Longrightarrow> length (dec_of_nat n) \<le> Suc k"
proof (induction k arbitrary: n)
  case 0
  then show ?case by (subst dec_of_nat.simps) simp
next
  case (Suc k)
  show ?case
  proof (cases "n < 10")
    case True
    then show ?thesis by (subst dec_of_nat.simps) simp
  next
    case False
    from Suc.prems have "n div 10 < 10 ^ Suc k"
      by (simp add: less_mult_imp_div_less mult.commute)
    with Suc.IH False show ?thesis
      by (subst dec_of_nat.simps) simp
  qed
qed

lemma length_fmt_u64: "length (fmt_u64 w) \<le> 20"
  using length_dec_of_nat [of "unat w" 19] unat_u64_less [of w] by (simp add: fmt_u64_def)

lemma fmt_u64_inj [simp]: "fmt_u64 v = fmt_u64 w \<longleftrightarrow> v = w"
  by (auto simp: fmt_u64_def intro: unsigned_word_eqI)

text \<open>\<open>%x\<close> of bytes: two lower-case digits per byte; \<open>%064x\<close> pads to 64 characters.\<close>

definition hex_char :: "nat \<Rightarrow> char" where
  "hex_char d = (if d < 10 then char_of (48 + d) else char_of (87 + d))"

definition hex_of_byte :: "byte \<Rightarrow> string" where
  "hex_of_byte b = [hex_char (unat b div 16), hex_char (unat b mod 16)]"

definition hex_of_bytes :: "byte list \<Rightarrow> string" where
  "hex_of_bytes bs = concat (map hex_of_byte bs)"

definition fmt_064x :: "byte list \<Rightarrow> string" where
  "fmt_064x bs = pad_zero 64 (hex_of_bytes bs)"

lemma length_hex_of_bytes [simp]: "length (hex_of_bytes bs) = 2 * length bs"
  by (induction bs) (auto simp: hex_of_bytes_def hex_of_byte_def)

lemma hex_of_bytes_Nil [simp]: "hex_of_bytes [] = []"
  by (simp add: hex_of_bytes_def)

lemma hex_of_bytes_Cons [simp]: "hex_of_bytes (b # bs) = hex_of_byte b @ hex_of_bytes bs"
  by (simp add: hex_of_bytes_def)

lemma fmt_064x_32 [simp]: "length bs = 32 \<Longrightarrow> fmt_064x bs = hex_of_bytes bs"
  by (simp add: fmt_064x_def pad_zero_def)

lemma of_char_hex_char:
  "d < 16 \<Longrightarrow> (of_char (hex_char d) :: nat) = (if d < 10 then 48 + d else 87 + d)"
  by (simp add: hex_char_def of_char_of)

lemma hex_char_inj: "c < 16 \<Longrightarrow> d < 16 \<Longrightarrow> hex_char c = hex_char d \<longleftrightarrow> c = d"
proof
  assume "c < 16" "d < 16" "hex_char c = hex_char d"
  then have "(of_char (hex_char c) :: nat) = of_char (hex_char d)" by simp
  with \<open>c < 16\<close> \<open>d < 16\<close> show "c = d"
    by (auto simp: of_char_hex_char split: if_splits)
qed simp

lemma hex_of_byte_inj [simp]: "hex_of_byte a = hex_of_byte b \<longleftrightarrow> a = b"
proof
  assume "hex_of_byte a = hex_of_byte b"
  moreover have "unat a div 16 < 16" "unat b div 16 < 16"
    using unat_byte_less [of a] unat_byte_less [of b] by linarith+
  ultimately have "unat a div 16 = unat b div 16" "unat a mod 16 = unat b mod 16"
    by (auto simp: hex_of_byte_def hex_char_inj)
  then have "unat a = unat b" by (metis div_mult_mod_eq)
  then show "a = b" by (rule unsigned_word_eqI)
qed simp

lemma length_hex_of_byte [simp]: "length (hex_of_byte b) = 2"
  by (simp add: hex_of_byte_def)

lemma hex_of_bytes_inj:
  "length xs = length ys \<Longrightarrow> hex_of_bytes xs = hex_of_bytes ys \<longleftrightarrow> xs = ys"
  by (induction xs ys rule: list_induct2) auto

section \<open>Delimited text\<close>

text \<open>A delimiter that does not occur in one side of it splits a string in one way only.\<close>

lemma last_delim_unique:
  assumes "c \<notin> set u" "c \<notin> set v"
  shows "xs @ c # u = ys @ c # v \<longleftrightarrow> xs = ys \<and> u = v"
proof (induction xs arbitrary: ys)
  case Nil
  have "c # u \<noteq> y # ys' @ c # v" for y ys'
  proof
    assume "c # u = y # ys' @ c # v"
    then have "c \<in> set u" by simp
    with assms(1) show False ..
  qed
  then show ?case by (cases ys) simp_all
next
  case (Cons x xs)
  have "x # xs @ c # u \<noteq> c # v"
  proof
    assume "x # xs @ c # u = c # v"
    then have "c \<in> set v" by auto
    with assms(2) show False ..
  qed
  then show ?case using Cons by (cases ys) simp_all
qed

lemma first_delim_unique:
  "c \<notin> set xs \<Longrightarrow> c \<notin> set ys \<Longrightarrow> xs @ c # u = ys @ c # v \<longleftrightarrow> xs = ys \<and> u = v"
proof (induction xs arbitrary: ys)
  case Nil
  then show ?case by (cases ys) simp_all
next
  case (Cons x xs)
  then show ?case by (cases ys) auto
qed

end
