(* ===== verification/Interfaces.thy ===== *)
theory Interfaces
  imports Prelude
begin

text \<open>
  The interfaces between components, as locales: what a client may rely on, stated once,
  with the client's facts proved inside.  Each is interpreted in the theory of the component
  that provides it: \<open>ticking_clock\<close> by the logical clock and the execution barrier,
  \<open>append_log\<close> by the WAL file, the consensus event store and the trace recorder,
  \<open>fallible_sim\<close> by the pairs (event store, abstract log) and (event store, snapshot),
  \<open>framing\<close> by the WAL record format and \<open>majority\<close> by the quorum threshold.
\<close>

section \<open>Running a fallible step over a list\<close>

fun run_steps :: "('s \<Rightarrow> 'e \<Rightarrow> 'err + 's) \<Rightarrow> 's \<Rightarrow> 'e list \<Rightarrow> 'err + 's" where
  "run_steps f s [] = Inr s"
| "run_steps f s (e # es) = (case f s e of Inl err \<Rightarrow> Inl err | Inr s' \<Rightarrow> run_steps f s' es)"

lemma run_steps_append:
  "run_steps f s (xs @ ys) =
     (case run_steps f s xs of Inl err \<Rightarrow> Inl err | Inr s' \<Rightarrow> run_steps f s' ys)"
  by (induction xs arbitrary: s) (auto split: sum.split)

lemma run_steps_ConsE:
  assumes "run_steps f s (e # es) = Inr t"
  obtains s' where "f s e = Inr s'" "run_steps f s' es = Inr t"
  using assms by (auto split: sum.splits)

lemma run_steps_snocE:
  assumes "run_steps f s (es @ [e]) = Inr t"
  obtains s' where "run_steps f s es = Inr s'" "f s' e = Inr t"
  using assms by (auto simp: run_steps_append split: sum.splits)

section \<open>A clock that advances by one\<close>

text \<open>\<open>nth_tick c n\<close> is the clock after \<open>n\<close> advances, \<open>ticks c n\<close> the values they
  returned.\<close>

locale ticking_clock =
  fixes now :: "'c \<Rightarrow> u64"
    and adv :: "'c \<Rightarrow> u64 \<times> 'c"
  assumes adv_returns: "fst (adv c) = now c + 1"
    and adv_now: "now (snd (adv c)) = now c + 1"
begin

primrec nth_clock :: "nat \<Rightarrow> 'c \<Rightarrow> 'c" where
  "nth_clock 0 c = c"
| "nth_clock (Suc n) c = nth_clock n (snd (adv c))"

lemma now_nth_clock: "now (nth_clock n c) = now c + of_nat n"
  by (induction n arbitrary: c) (simp_all add: adv_now)

lemma adv_strict: "now c \<noteq> - 1 \<Longrightarrow> unat (now (snd (adv c))) = unat (now c) + 1"
  by (simp add: adv_now unat_u64_plus_1)

end

section \<open>An append-only log\<close>

locale append_log =
  fixes app :: "'s \<Rightarrow> 'e \<Rightarrow> 'err + 's"
    and view :: "'s \<Rightarrow> 'v list"
    and entry :: "'e \<Rightarrow> 'v"
    and ok :: "'e \<Rightarrow> bool"
    and inv :: "'s \<Rightarrow> bool"
  assumes app_view: "inv s \<Longrightarrow> ok e \<Longrightarrow> app s e = Inr s' \<Longrightarrow> view s' = view s @ [entry e]"
    and app_inv: "inv s \<Longrightarrow> ok e \<Longrightarrow> app s e = Inr s' \<Longrightarrow> inv s'"
begin

lemma run_inv: "inv s \<Longrightarrow> list_all ok es \<Longrightarrow> run_steps app s es = Inr s' \<Longrightarrow> inv s'"
  by (induction es arbitrary: s) (auto split: sum.splits intro: app_inv)

lemma run_view:
  "inv s \<Longrightarrow> list_all ok es \<Longrightarrow> run_steps app s es = Inr s' \<Longrightarrow>
     view s' = view s @ map entry es"
proof (induction es arbitrary: s)
  case (Cons e es)
  then have ok: "ok e" "list_all ok es" by simp_all
  from Cons.prems(3) obtain u where u: "app s e = Inr u" "run_steps app u es = Inr s'"
    by (rule run_steps_ConsE)
  from Cons.IH [OF app_inv [OF Cons.prems(1) ok(1) u(1)] ok(2) u(2)]
    app_view [OF Cons.prems(1) ok(1) u(1)]
  show ?case by simp
qed simp

end

section \<open>Simulation between two fallible step functions\<close>

locale fallible_sim =
  fixes astep :: "'s \<Rightarrow> 'e \<Rightarrow> 'err + 's"
    and bstep :: "'t \<Rightarrow> 'f \<Rightarrow> 'err2 + 't"
    and ev :: "'e \<Rightarrow> 'f"
    and R :: "'s \<Rightarrow> 't \<Rightarrow> bool"
  assumes sim: "R s t \<Longrightarrow> astep s e = Inr s' \<Longrightarrow> \<exists>t'. bstep t (ev e) = Inr t' \<and> R s' t'"
begin

lemma run_sim:
  "R s t \<Longrightarrow> run_steps astep s es = Inr s' \<Longrightarrow>
     \<exists>t'. run_steps bstep t (map ev es) = Inr t' \<and> R s' t'"
proof (induction es arbitrary: s t)
  case (Cons e es)
  from Cons.prems(2) obtain u where u: "astep s e = Inr u" "run_steps astep u es = Inr s'"
    by (rule run_steps_ConsE)
  from sim [OF Cons.prems(1) u(1)] obtain v where v: "bstep t (ev e) = Inr v" "R u v"
    by blast
  from Cons.IH [OF v(2) u(2)] v(1) show ?case by simp
qed simp

end

text \<open>A refinement also keeps the failures: the abstract step fails where the concrete one
  does.\<close>

locale fallible_refinement = fallible_sim +
  assumes sim_err: "R s t \<Longrightarrow> astep s e = Inl x \<Longrightarrow> \<exists>y. bstep t (ev e) = Inl y"
begin

lemma run_err:
  "R s t \<Longrightarrow> run_steps astep s es = Inl x \<Longrightarrow> \<exists>y. run_steps bstep t (map ev es) = Inl y"
proof (induction es arbitrary: s t)
  case (Cons e es)
  show ?case
  proof (cases "astep s e")
    case (Inl y)
    from sim_err [OF Cons.prems(1) Inl] show ?thesis by auto
  next
    case (Inr u)
    from sim [OF Cons.prems(1) Inr] obtain v where "bstep t (ev e) = Inr v" "R u v" by blast
    with Cons Inr show ?thesis by simp
  qed
qed simp

lemma run_succeeds_iff:
  "R s t \<Longrightarrow>
     (\<exists>s'. run_steps astep s es = Inr s') \<longleftrightarrow> (\<exists>t'. run_steps bstep t (map ev es) = Inr t')"
  by (cases "run_steps astep s es") (auto dest: run_sim run_err)

end

section \<open>Self-delimiting records in a byte stream\<close>

text \<open>
  \<open>enc\<close> writes one record, \<open>loop\<close> reads records until the bytes run out.  The provider
  promises that a complete record at the front is read and that an incomplete one is left;
  the client learns that a stream, and every prefix of it, reads back as the records that
  are complete.
\<close>

text \<open>\<open>complete_records enc k xs\<close> counts the records of \<open>xs\<close> that fit into the first
  \<open>k\<close> bytes of the stream.\<close>

fun complete_records :: "('a \<Rightarrow> byte list) \<Rightarrow> nat \<Rightarrow> 'a list \<Rightarrow> nat" where
  "complete_records enc k [] = 0"
| "complete_records enc k (x # xs) =
     (if length (enc x) \<le> k then Suc (complete_records enc (k - length (enc x)) xs) else 0)"

locale framing =
  fixes enc :: "'a \<Rightarrow> byte list"
    and ok :: "'a \<Rightarrow> bool"
    and out :: "'a \<Rightarrow> 'b"
    and loop :: "byte list \<Rightarrow> 'b list \<Rightarrow> 'r"
    and fin :: "'b list \<Rightarrow> 'r"
  assumes loop_record: "ok x \<Longrightarrow> loop (enc x @ rest) acc = loop rest (acc @ [out x])"
    and loop_short: "ok x \<Longrightarrow> k < length (enc x) \<Longrightarrow> loop (take k (enc x)) acc = fin acc"
    and enc_nonempty: "enc x \<noteq> []"
begin

lemma loop_records:
  "list_all ok xs \<Longrightarrow> loop (concat (map enc xs) @ rest) acc = loop rest (acc @ map out xs)"
  by (induction xs arbitrary: acc) (simp_all add: loop_record)

lemma loop_Nil: "ok x \<Longrightarrow> loop [] acc = fin acc"
  using loop_short [of x 0 acc] enc_nonempty [of x] by simp

lemma loop_prefix:
  "list_all ok xs \<Longrightarrow> xs \<noteq> [] \<Longrightarrow>
     loop (take k (concat (map enc xs))) acc =
       fin (acc @ map out (take (complete_records enc k xs) xs))"
proof (induction xs arbitrary: k acc)
  case (Cons x xs)
  then have x: "ok x" and xs: "list_all ok xs" by simp_all
  show ?case
  proof (cases "length (enc x) \<le> k")
    case True
    have "loop (take k (concat (map enc (x # xs)))) acc =
        loop (enc x @ take (k - length (enc x)) (concat (map enc xs))) acc"
      using True by simp
    also have "\<dots> = loop (take (k - length (enc x)) (concat (map enc xs))) (acc @ [out x])"
      by (rule loop_record [OF x])
    also have "\<dots> =
        fin (acc @ out x # map out (take (complete_records enc (k - length (enc x)) xs) xs))"
    proof (cases "xs = []")
      case True
      then show ?thesis by (simp add: loop_Nil [OF x])
    next
      case False
      from Cons.IH [OF xs this] show ?thesis by simp
    qed
    also have "\<dots> = fin (acc @ map out (take (complete_records enc k (x # xs)) (x # xs)))"
      using True by simp
    finally show ?thesis .
  next
    case False
    then show ?thesis using loop_short [OF x] by simp
  qed
qed simp

end

section \<open>Majorities\<close>

locale majority =
  fixes threshold :: "nat \<Rightarrow> nat"
    and limit :: nat
  assumes more_than_half: "n < limit \<Longrightarrow> n < 2 * threshold n"
begin

lemma quorums_meet:
  assumes "finite U" "card U < limit" "A \<subseteq> U" "B \<subseteq> U"
    and "threshold (card U) \<le> card A" "threshold (card U) \<le> card B"
  shows "A \<inter> B \<noteq> {}"
proof
  assume "A \<inter> B = {}"
  with assms(1,3,4) have "card (A \<union> B) = card A + card B"
    by (meson card_Un_disjoint finite_subset)
  moreover have "card (A \<union> B) \<le> card U"
    using assms by (intro card_mono) auto
  ultimately show False
    using assms(5,6) more_than_half [OF assms(2)] by linarith
qed

end

end
