(* ===== verification/Clock.thy ===== *)
theory Clock
  imports Interfaces
begin

text \<open>
  The logical clock (\<open>pkg/clock/clock.go\<close>) and the global execution barrier that owns it
  (\<open>pkg/geb/geb.go\<close>).  Every method takes the struct's mutex for its whole body, so a
  method is one atomic step; \<open>geb_run\<close> is the interleaving of the calls of any number of
  nodes.
\<close>

section \<open>LogicalClock\<close>

record LogicalClock =
  lc_tick :: u64
  lc_epochMs :: u64

definition clock_New :: LogicalClock where
  "clock_New = \<lparr>lc_tick = 0, lc_epochMs = 0\<rparr>"

definition clock_NewWithEpoch :: "u64 \<Rightarrow> LogicalClock" where
  "clock_NewWithEpoch epochMs = \<lparr>lc_tick = 0, lc_epochMs = epochMs\<rparr>"

definition clock_Now :: "LogicalClock \<Rightarrow> u64" where
  "clock_Now lc = lc_tick lc"

definition clock_Advance :: "LogicalClock \<Rightarrow> u64 \<times> LogicalClock" where
  "clock_Advance lc = (let lc' = lc\<lparr>lc_tick := lc_tick lc + 1\<rparr> in (lc_tick lc', lc'))"

definition clock_AdvanceTo :: "LogicalClock \<Rightarrow> u64 \<Rightarrow> LogicalClock" where
  "clock_AdvanceTo lc target =
     (if target \<ge> lc_tick lc then lc\<lparr>lc_tick := target + 1\<rparr>
      else lc\<lparr>lc_tick := lc_tick lc + 1\<rparr>)"

definition clock_EpochMs :: "LogicalClock \<Rightarrow> u64" where
  "clock_EpochMs lc = lc_epochMs lc"

definition clock_SetEpochMs :: "LogicalClock \<Rightarrow> u64 \<Rightarrow> LogicalClock" where
  "clock_SetEpochMs lc epochMs = lc\<lparr>lc_epochMs := epochMs\<rparr>"

lemmas clock_defs = clock_New_def clock_NewWithEpoch_def clock_Now_def clock_Advance_def
  clock_AdvanceTo_def clock_EpochMs_def clock_SetEpochMs_def

interpretation lclock: ticking_clock clock_Now clock_Advance
  by unfold_locales (simp_all add: clock_defs)

section \<open>GEB\<close>

record GEB =
  geb_clock :: LogicalClock

record GEBSnapshot =
  gs_Tick :: u64
  gs_EpochMs :: u64

record GEBNode =
  gn_nodeID :: string

definition geb_New :: "LogicalClock \<Rightarrow> GEB" where
  "geb_New lc = \<lparr>geb_clock = lc\<rparr>"

definition geb_NewStandalone :: GEB where
  "geb_NewStandalone = \<lparr>geb_clock = clock_New\<rparr>"

definition geb_Tick :: "GEB \<Rightarrow> u64 \<times> GEB" where
  "geb_Tick g = (case clock_Advance (geb_clock g) of (t, lc) \<Rightarrow> (t, g\<lparr>geb_clock := lc\<rparr>))"

definition geb_Now :: "GEB \<Rightarrow> u64" where
  "geb_Now g = clock_Now (geb_clock g)"

definition geb_Snapshot :: "GEB \<Rightarrow> GEBSnapshot" where
  "geb_Snapshot g = \<lparr>gs_Tick = geb_Now g, gs_EpochMs = clock_EpochMs (geb_clock g)\<rparr>"

definition geb_NewNode :: "string \<Rightarrow> GEBNode" where
  "geb_NewNode nodeID = \<lparr>gn_nodeID = nodeID\<rparr>"

text \<open>A node's handle points at the shared barrier: \<open>Commit\<close> is a tick of that barrier.\<close>

definition geb_Commit :: "GEBNode \<Rightarrow> GEB \<Rightarrow> GEB" where
  "geb_Commit n g = snd (geb_Tick g)"

lemmas geb_defs = geb_New_def geb_NewStandalone_def geb_Tick_def geb_Now_def geb_Snapshot_def
  geb_NewNode_def geb_Commit_def

interpretation barrier: ticking_clock geb_Now geb_Tick
  by unfold_locales (simp_all add: geb_defs clock_defs)

section \<open>Interleaved ticks\<close>

text \<open>
  Any caller may tick next.  A run carries the list of (caller, returned tick), oldest first.
\<close>

inductive geb_run :: "GEB \<Rightarrow> (string \<times> u64) list \<Rightarrow> GEB \<Rightarrow> bool" where
  geb_idle: "geb_run g [] g"
| geb_call: "geb_run g cs h \<Longrightarrow> geb_Tick h = (t, h') \<Longrightarrow> geb_run g (cs @ [(caller, t)]) h'"

lemma geb_run_now: "geb_run g cs h \<Longrightarrow> geb_Now h = geb_Now g + of_nat (length cs)"
proof (induction rule: geb_run.induct)
  case (geb_call g cs h t h' caller)
  then show ?case
    using barrier.adv_now [of h] by simp
qed simp

lemma geb_run_ticks:
  "geb_run g cs h \<Longrightarrow> map snd cs = map (\<lambda>i. geb_Now g + of_nat (Suc i)) [0..<length cs]"
proof (induction rule: geb_run.induct)
  case (geb_call g cs h t h' caller)
  then show ?case
    using barrier.adv_returns [of h] geb_run_now [OF geb_call.hyps(1)] by simp
qed simp

text \<open>C20: Whatever the interleaving, the barrier hands out consecutive ticks: the i-th call
  gets the starting tick plus i + 1, so no two calls share a tick while fewer than 2 to the 64
  calls were made, and \<open>Now\<close> is the last tick handed out.\<close>

theorem geb_ticks_consecutive_and_unique:
  assumes "geb_run g cs h" and "length cs < 2 ^ 64"
  shows "map snd cs = map (\<lambda>i. geb_Now g + of_nat (Suc i)) [0..<length cs] \<and>
    distinct (map snd cs) \<and> geb_Now h = geb_Now g + of_nat (length cs)"
proof -
  have ticks: "map snd cs = map (\<lambda>i. geb_Now g + of_nat (Suc i)) [0..<length cs]"
    by (rule geb_run_ticks [OF assms(1)])
  have "inj_on (\<lambda>i. geb_Now g + of_nat (Suc i)) {0..<length cs}"
  proof (rule inj_onI)
    fix i j assume i: "i \<in> {0..<length cs}" and j: "j \<in> {0..<length cs}"
      and eq: "geb_Now g + of_nat (Suc i) = geb_Now g + of_nat (Suc j)"
    from i j assms(2) have "i < 18446744073709551616" "j < 18446744073709551616" by simp_all
    then have "unat (of_nat i :: u64) = i" "unat (of_nat j :: u64) = j"
      by (simp_all add: unat_of_nat)
    moreover from eq have "(of_nat i :: u64) = of_nat j" by simp
    ultimately show "i = j" by metis
  qed
  then have "distinct (map snd cs)"
    unfolding ticks by (simp only: distinct_map distinct_upt set_upt simp_thms)
  with ticks geb_run_now [OF assms(1)] show ?thesis by blast
qed

text \<open>Two nodes that commit and tick in turn on a fresh barrier.\<close>

theorem geb_ticks_witness:
  "distinct (map snd [(''a'', 1 :: u64), (''b'', 2)]) \<and>
   geb_Now (snd (geb_Tick (snd (geb_Tick geb_NewStandalone)))) = 2"
proof -
  have one: "geb_run geb_NewStandalone ([] @ [(''a'', 1)]) (snd (geb_Tick geb_NewStandalone))"
    by (rule geb_call [OF geb_idle]) (simp add: geb_defs clock_defs)
  have "geb_run geb_NewStandalone (([] @ [(''a'', 1)]) @ [(''b'', 2)])
      (snd (geb_Tick (snd (geb_Tick geb_NewStandalone))))"
    by (rule geb_call [OF one]) (simp add: geb_defs clock_defs)
  from geb_ticks_consecutive_and_unique [OF this] show ?thesis
    by (simp add: geb_defs clock_defs)
qed

text \<open>
  The clock never runs backwards below the top of the range, whichever operation moves it;
  at the top, \<open>AdvanceTo\<close> wraps to 0.
\<close>

lemma clock_ops_advance:
  assumes "lc_tick lc \<noteq> - 1"
  shows "clock_Now (snd (clock_Advance lc)) > clock_Now lc"
    and "target \<noteq> - 1 \<Longrightarrow> clock_Now (clock_AdvanceTo lc target) > clock_Now lc"
    and "clock_Now (clock_SetEpochMs lc e) = clock_Now lc"
proof -
  have step: "w < w + 1" if "w \<noteq> - 1" for w :: u64
    using unat_u64_plus_1 [OF that] by (simp add: word_less_nat_alt)
  show "clock_Now (snd (clock_Advance lc)) > clock_Now lc"
    using step [OF assms] by (simp add: clock_defs)
  show "clock_Now (clock_AdvanceTo lc target) > clock_Now lc" if "target \<noteq> - 1"
    using step [OF assms] step [OF that] by (auto simp: clock_defs)
qed (simp add: clock_defs)

lemma clock_AdvanceTo_wraps: "clock_Now (clock_AdvanceTo \<lparr>lc_tick = 5, lc_epochMs = 0\<rparr> (- 1)) = 0"
  by (simp add: clock_defs)

end
