(* ===== verification/Canon.thy ===== *)
theory Canon
  imports Prelude
begin

text \<open>
  The canonical event and the deterministic event generator of \<open>pkg/canon/canon.go\<close>.
  Go's \<open>int\<close> is 64 bits wide and its arithmetic wraps, so the index is a 64-bit word and
  the conversion to \<open>uint64\<close> is the identity on it.
\<close>

record canon_Event =
  ev_TraceID :: string
  ev_Seq :: u64
  ev_PrevHash :: string
  ev_EventHash :: string
  ev_Payload :: "byte list"
  ev_Tick :: u64

definition eventHash :: "u64 \<Rightarrow> string" where
  "eventHash i = pad_zero 64 (fmt_u64 (i * 31337 + 0x9e3779b9))"

definition prevHash :: "u64 \<Rightarrow> string" where
  "prevHash i = (if i = 0 then [] else eventHash (i - 1))"

definition MakeEvent :: "u64 \<Rightarrow> canon_Event" where
  "MakeEvent idx =
     \<lparr>ev_TraceID = ''trace-main'', ev_Seq = idx, ev_PrevHash = prevHash idx,
      ev_EventHash = eventHash idx, ev_Payload = bytes_of_string ''payload'', ev_Tick = idx\<rparr>"

lemmas canon_defs = MakeEvent_def eventHash_def prevHash_def

section \<open>Facts about the generated hashes\<close>

lemma dec_val_zeros: "dec_val (replicate k (CHR ''0'') @ s) = dec_val s"
  by (induction k) (simp_all add: dec_val_def)

lemma pad_zero_fmt_inj: "pad_zero w (fmt_u64 a) = pad_zero w (fmt_u64 b) \<longleftrightarrow> a = b"
proof
  assume "pad_zero w (fmt_u64 a) = pad_zero w (fmt_u64 b)"
  then have "dec_val (pad_zero w (fmt_u64 a)) = dec_val (pad_zero w (fmt_u64 b))" by simp
  then have "unat a = unat b" by (simp add: pad_zero_def dec_val_zeros fmt_u64_def)
  then show "a = b" by (rule unsigned_word_eqI)
qed simp

lemma length_eventHash [simp]: "length (eventHash i) = 64"
  using length_fmt_u64 [of "i * 31337 + 0x9e3779b9"] by (simp add: eventHash_def pad_zero_def)

lemma eventHash_digits: "c \<in> set (eventHash i) \<Longrightarrow> is_digit c"
  using dec_of_nat_digits by (auto simp: eventHash_def pad_zero_def fmt_u64_def is_digit_def)

text \<open>31337 is odd, so multiplying by it loses nothing modulo 2 to the 64.\<close>

lemma mult_31337_inj: "(i :: u64) * 31337 = j * 31337 \<Longrightarrow> i = j"
proof -
  assume "i * 31337 = j * 31337"
  then have "i * (31337 * 17500183634914358745) = j * (31337 * 17500183634914358745)"
    by (simp only: mult.assoc [symmetric])
  moreover have "31337 * 17500183634914358745 = (1 :: u64)" by simp
  ultimately show "i = j" by (simp only: mult_1_right)
qed

lemma eventHash_inj [simp]: "eventHash i = eventHash j \<longleftrightarrow> i = j"
  by (auto simp: eventHash_def pad_zero_fmt_inj dest: mult_31337_inj)

lemma MakeEvent_chain: "i + 1 \<noteq> 0 \<Longrightarrow> ev_PrevHash (MakeEvent (i + 1)) = ev_EventHash (MakeEvent i)"
  by (simp add: MakeEvent_def prevHash_def)

end
