(* ===== verification/Sha256.thy ===== *)
theory Sha256
  imports Prelude
begin

text \<open>
  The two hash functions of Go's standard library that the program calls, so that no
  theorem needs a hash function as a parameter: \<open>crypto/sha256\<close> (used by the WAL
  checksums, the contract hashes, the random generator and the stress schedule) and the
  64-bit FNV-1a of \<open>hash/fnv\<close> (used by the random generator).  The components use one
  fact about them, the length of a digest; everything else is computed.
\<close>

section \<open>SHA-256\<close>

type_synonym u32 = "32 word"

definition rotr32 :: "nat \<Rightarrow> u32 \<Rightarrow> u32" where
  "rotr32 n w = (drop_bit n w OR push_bit (32 - n) w)"

text \<open>The round constants and the initial state: fractional parts of the cube roots of the
  first 64 primes and of the square roots of the first eight.\<close>

definition sha_round_constants :: "u32 list" where
  "sha_round_constants =
    [1116352408, 1899447441, 3049323471, 3921009573, 961987163, 1508970993,
     2453635748, 2870763221, 3624381080, 310598401, 607225278, 1426881987,
     1925078388, 2162078206, 2614888103, 3248222580, 3835390401, 4022224774,
     264347078, 604807628, 770255983, 1249150122, 1555081692, 1996064986,
     2554220882, 2821834349, 2952996808, 3210313671, 3336571891, 3584528711,
     113926993, 338241895, 666307205, 773529912, 1294757372, 1396182291,
     1695183700, 1986661051, 2177026350, 2456956037, 2730485921, 2820302411,
     3259730800, 3345764771, 3516065817, 3600352804, 4094571909, 275423344,
     430227734, 506948616, 659060556, 883997877, 958139571, 1322822218,
     1537002063, 1747873779, 1955562222, 2024104815, 2227730452, 2361852424,
     2428436474, 2756734187, 3204031479, 3329325298]"

definition sha_init :: "u32 list" where
  "sha_init =
    [1779033703, 3144134277, 1013904242, 2773480762, 1359893119, 2600822924,
     528734635, 1541459225]"

text \<open>Padding: a one bit, zeros up to 56 modulo 64, and the length in bits.\<close>

definition sha_pad :: "byte list \<Rightarrow> byte list" where
  "sha_pad m =
     m @ [128] @ replicate ((119 - length m mod 64) mod 64) 0 @ be_bytes 8 (8 * length m)"

fun chop :: "nat \<Rightarrow> 'a list \<Rightarrow> 'a list list" where
  "chop k xs = (if k = 0 \<or> xs = [] then [] else take k xs # chop k (drop k xs))"

declare chop.simps [simp del]

definition sha_words :: "byte list \<Rightarrow> u32 list" where
  "sha_words block = map get_u32_be (chop 4 block)"

text \<open>The message schedule is kept newest word first while it grows from 16 to 64 words.\<close>

definition sha_next_word :: "u32 list \<Rightarrow> u32" where
  "sha_next_word ws =
     (let a = ws ! 1; b = ws ! 14;
          s1 = rotr32 17 a XOR rotr32 19 a XOR drop_bit 10 a;
          s0 = rotr32 7 b XOR rotr32 18 b XOR drop_bit 3 b
      in s1 + ws ! 6 + s0 + ws ! 15)"

primrec sha_grow :: "nat \<Rightarrow> u32 list \<Rightarrow> u32 list" where
  "sha_grow 0 ws = ws"
| "sha_grow (Suc n) ws = sha_grow n (sha_next_word ws # ws)"

definition sha_schedule :: "byte list \<Rightarrow> u32 list" where
  "sha_schedule block = rev (sha_grow 48 (rev (sha_words block)))"

type_synonym sha_regs = "u32 \<times> u32 \<times> u32 \<times> u32 \<times> u32 \<times> u32 \<times> u32 \<times> u32"

fun sha_round :: "u32 \<times> u32 \<Rightarrow> sha_regs \<Rightarrow> sha_regs" where
  "sha_round (k, w) (a, b, c, d, e, f, g, h) =
     (let s1 = rotr32 6 e XOR rotr32 11 e XOR rotr32 25 e;
          ch = (e AND f) XOR (NOT e AND g);
          t1 = h + s1 + ch + k + w;
          s0 = rotr32 2 a XOR rotr32 13 a XOR rotr32 22 a;
          maj = (a AND b) XOR (a AND c) XOR (b AND c)
      in (t1 + s0 + maj, a, b, c, d + t1, e, f, g))"

definition sha_block :: "byte list \<Rightarrow> sha_regs \<Rightarrow> sha_regs" where
  "sha_block block = (\<lambda>(a, b, c, d, e, f, g, h).
     case fold sha_round (zip sha_round_constants (sha_schedule block)) (a, b, c, d, e, f, g, h)
     of (a', b', c', d', e', f', g', h') \<Rightarrow>
       (a + a', b + b', c + c', d + d', e + e', f + f', g + g', h + h'))"

definition sha_digest :: "sha_regs \<Rightarrow> byte list" where
  "sha_digest = (\<lambda>(a, b, c, d, e, f, g, h). concat (map put_u32_be [a, b, c, d, e, f, g, h]))"

definition sha_start :: sha_regs where
  "sha_start = (case sha_init of [a, b, c, d, e, f, g, h] \<Rightarrow> (a, b, c, d, e, f, g, h)
                | _ \<Rightarrow> (0, 0, 0, 0, 0, 0, 0, 0))"

definition sha256 :: "byte list \<Rightarrow> byte list" where
  "sha256 m = sha_digest (fold sha_block (chop 64 (sha_pad m)) sha_start)"

lemma length_sha256 [simp, len_simps]: "length (sha256 m) = 32"
  by (simp add: sha256_def sha_digest_def split: prod.split)

section \<open>FNV-1a, 64 bits\<close>

definition fnv64a_step :: "byte \<Rightarrow> u64 \<Rightarrow> u64" where
  "fnv64a_step b h = (h XOR ucast b) * 1099511628211"

definition fnv64a :: "byte list \<Rightarrow> u64" where
  "fnv64a bs = fold fnv64a_step bs 14695981039346656037"

end
