(* ===== verification/Wal.thy ===== *)
theory Wal
  imports Sha256 Canon Interfaces
begin

text \<open>
  The binary record of the write-ahead log: \<open>WALEntry\<close>, its encoder, its two checksums
  and its decoder (\<open>pkg/wal/wal.go\<close>, lines 26 to 265).  The lemmas give the round trip in
  both directions: what the decoder makes of an encoded entry (\<open>wal_normal\<close>), and that the
  only record the decoder accepts for an entry is the one the encoder writes.
\<close>

section \<open>Entries, errors and hexadecimal fields\<close>

record WALEntry =
  we_Seq :: u64
  we_TraceID :: string
  we_EventHash :: string
  we_PrevHash :: string
  we_Payload :: "byte list"
  we_Checksum :: string

text \<open>The errors of the package: its own, and those that wrap what the operating system or the
  decoder returned.\<close>

datatype wal_error =
    ErrWALCorruption
  | ErrInvalidFormat
  | ErrHexLength nat
  | ErrOpen
  | ErrClosed
  | ErrCloseFile
  | ErrWrite
  | ErrSync
  | ErrSeek
  | ErrRead
  | ErrCorruptEntry wal_error

definition hexToByte :: "byte \<Rightarrow> byte \<Rightarrow> byte" where
  "hexToByte a b =
     (let high = (if a \<ge> byte_of_char CHR ''a'' then a - byte_of_char CHR ''a'' + 10
                  else if a \<ge> byte_of_char CHR ''A'' then a - byte_of_char CHR ''A'' + 10
                  else a - byte_of_char CHR ''0'');
          low = (if b \<ge> byte_of_char CHR ''a'' then b - byte_of_char CHR ''a'' + 10
                 else if b \<ge> byte_of_char CHR ''A'' then b - byte_of_char CHR ''A'' + 10
                 else b - byte_of_char CHR ''0'')
      in (push_bit 4 high OR low))"

definition hexToBytes :: "string \<Rightarrow> wal_error + byte list" where
  "hexToBytes hex =
     (if length hex \<noteq> 64 then Inl (ErrHexLength (length hex))
      else Inr (map (\<lambda>i. hexToByte (byte_of_char (hex ! (i * 2))) (byte_of_char (hex ! (i * 2 + 1))))
                 [0..<32]))"

section \<open>Encode, checksum, Hash\<close>

text \<open>\<open>copy\<close> into a zeroed 16-byte buffer; a hash that does not decode to 32 bytes is
  written as zeros.\<close>

definition trace_field :: "string \<Rightarrow> byte list" where
  "trace_field s = take 16 (bytes_of_string s) @ replicate (16 - length s) 0"

definition hash_field :: "string \<Rightarrow> byte list" where
  "hash_field s =
     (case hexToBytes s of
        Inr h \<Rightarrow> if length h = 32 then h else replicate 32 0
      | Inl _ \<Rightarrow> replicate 32 0)"

definition wal_data :: "WALEntry \<Rightarrow> byte list" where
  "wal_data e =
     put_u64_be (we_Seq e) @ trace_field (we_TraceID e) @
     hash_field (we_EventHash e) @ hash_field (we_PrevHash e) @
     put_u32_be (of_nat (length (we_Payload e))) @ we_Payload e"

definition Encode :: "WALEntry \<Rightarrow> byte list" where
  "Encode e = wal_data e @ sha256 (wal_data e)"

text \<open>The struct's own \<open>checksum\<close> writes nothing at all for a hash that does not decode.\<close>

definition hash_field_or_nothing :: "string \<Rightarrow> byte list" where
  "hash_field_or_nothing s =
     (case hexToBytes s of Inr h \<Rightarrow> if length h = 32 then h else [] | Inl _ \<Rightarrow> [])"

definition wal_checksum :: "WALEntry \<Rightarrow> string" where
  "wal_checksum e =
     fmt_064x (sha256
       (put_u64_be (we_Seq e) @ trace_field (we_TraceID e) @
        hash_field_or_nothing (we_EventHash e) @ hash_field_or_nothing (we_PrevHash e) @
        put_u32_be (of_nat (length (we_Payload e))) @ we_Payload e))"

definition ValidateChecksum :: "WALEntry \<Rightarrow> bool" where
  "ValidateChecksum e = (let computed = wal_checksum e in True)"

definition wal_Hash :: "WALEntry \<Rightarrow> string" where
  "wal_Hash e =
     (let data = (case hexToBytes (we_EventHash e) of Inr h \<Rightarrow> h | Inl _ \<Rightarrow> []);
          data' = (if length data = 0
                   then bytes_of_string (fmt_u64 (we_Seq e) @ '':'' @ we_TraceID e @ '':'' @
                          string_of_bytes (we_Payload e))
                   else data)
      in fmt_064x (sha256 data'))"

section \<open>DecodeEntry\<close>

definition trim_right_zeros :: "byte list \<Rightarrow> byte list" where
  "trim_right_zeros bs = rev (dropWhile (\<lambda>b. b = 0) (rev bs))"

definition DecodeEntry :: "byte list \<Rightarrow> wal_error + WALEntry" where
  "DecodeEntry raw =
     (if length raw < 92 + 32 then Inl ErrInvalidFormat
      else
        let seq = get_u64_be (take 8 raw);
            traceID = string_of_bytes (trim_right_zeros (take 16 (drop 8 raw)));
            eventHash = fmt_064x (take 32 (drop 24 raw));
            prevHash = fmt_064x (take 32 (drop 56 raw));
            payloadLen = unat (get_u32_be (take 4 (drop 88 raw)))
        in if 92 + payloadLen + 32 > length raw then Inl ErrInvalidFormat
           else
             let payload = take payloadLen (drop 92 raw);
                 off = 92 + payloadLen;
                 storedChecksum = fmt_064x (take 32 (drop off raw));
                 expectedChecksum = fmt_064x (sha256 (take off raw))
             in if storedChecksum \<noteq> expectedChecksum then Inl ErrWALCorruption
                else Inr \<lparr>we_Seq = seq, we_TraceID = traceID, we_EventHash = eventHash,
                          we_PrevHash = prevHash, we_Payload = payload,
                          we_Checksum = storedChecksum\<rparr>)"

section \<open>Hexadecimal fields round trip\<close>

lemma nth_hex_of_bytes:
  "i < length bs \<Longrightarrow> hex_of_bytes bs ! (i * 2) = hex_char (unat (bs ! i) div 16) \<and>
     hex_of_bytes bs ! (i * 2 + 1) = hex_char (unat (bs ! i) mod 16)"
proof (induction bs arbitrary: i)
  case (Cons b bs)
  then show ?case by (cases i) (simp_all add: hex_of_byte_def)
qed simp

lemma nibble_of_hex_char:
  assumes "d < 16"
  shows "(if byte_of_char (hex_char d) \<ge> byte_of_char CHR ''a''
          then byte_of_char (hex_char d) - byte_of_char CHR ''a'' + 10
          else if byte_of_char (hex_char d) \<ge> byte_of_char CHR ''A''
          then byte_of_char (hex_char d) - byte_of_char CHR ''A'' + 10
          else byte_of_char (hex_char d) - byte_of_char CHR ''0'') = (of_nat d :: byte)"
proof -
  have "d \<in> {0, 1, 2, 3, 4, 5, 6, 7, 8, 9, 10, 11, 12, 13, 14, 15}"
    using assms by (simp add: insert_iff) presburger
  then show ?thesis
    by (auto simp: byte_of_char_def hex_char_def of_char_of)
qed

lemma join_nibbles: "push_bit 4 (of_nat (unat b div 16)) OR of_nat (unat b mod 16) = (b :: byte)"
proof -
  have "unat b div 16 < 256" using unat_byte_less [of b] by linarith
  then have "unat (of_nat (unat b div 16) :: byte) = unat (drop_bit 4 b)"
    by (simp add: unat_of_nat drop_bit_eq_div unat_div)
  then have "(of_nat (unat b div 16) :: byte) = drop_bit 4 b" by (rule unsigned_word_eqI)
  moreover have "unat (of_nat (unat b mod 16) :: byte) = unat (take_bit 4 b)"
    by (simp add: unat_of_nat take_bit_eq_mod unat_mod)
  then have "(of_nat (unat b mod 16) :: byte) = take_bit 4 b" by (rule unsigned_word_eqI)
  moreover have "push_bit 4 (drop_bit 4 b) OR take_bit 4 b = b"
    by (rule bit_word_eqI) (auto simp: bit_simps)
  ultimately show ?thesis by simp
qed

lemma hexToByte_hex:
  "hexToByte (byte_of_char (hex_char (unat b div 16))) (byte_of_char (hex_char (unat b mod 16))) = b"
proof -
  have "unat b div 16 < 16" using unat_byte_less [of b] by linarith
  then show ?thesis
    unfolding hexToByte_def Let_def
    by (simp only: nibble_of_hex_char mod_less_divisor join_nibbles zero_less_numeral)
qed

lemma hexToBytes_hex: "length bs = 32 \<Longrightarrow> hexToBytes (hex_of_bytes bs) = Inr bs"
proof -
  assume len: "length bs = 32"
  have "map (\<lambda>i. hexToByte (byte_of_char (hex_of_bytes bs ! (i * 2)))
      (byte_of_char (hex_of_bytes bs ! (i * 2 + 1)))) [0..<32] = bs"
    using len by (intro nth_equalityI) (simp_all add: nth_hex_of_bytes [simplified] hexToByte_hex)
  with len show ?thesis by (simp add: hexToBytes_def)
qed

lemma hexToBytes_length: "hexToBytes s = Inr h \<Longrightarrow> length h = 32"
  by (auto simp: hexToBytes_def split: if_splits)

lemma length_hash_field [simp, len_simps]: "length (hash_field s) = 32"
  by (auto simp: hash_field_def split: sum.split)

lemma hash_field_hex [simp]: "length bs = 32 \<Longrightarrow> hash_field (hex_of_bytes bs) = bs"
  by (simp add: hash_field_def hexToBytes_hex)

section \<open>The decoder inverts the encoder\<close>

text \<open>What an entry looks like after a trip through the log: the trace id cut to 16 bytes
  and stripped of trailing zero bytes, each hash in lower case (or 64 zeros, when it was not
  a hash), the checksum filled in.\<close>

definition norm_trace :: "string \<Rightarrow> string" where
  "norm_trace s = string_of_bytes (trim_right_zeros (take 16 (bytes_of_string s)))"

definition norm_hash :: "string \<Rightarrow> string" where
  "norm_hash s = hex_of_bytes (hash_field s)"

definition wal_normal :: "WALEntry \<Rightarrow> WALEntry" where
  "wal_normal e =
     \<lparr>we_Seq = we_Seq e, we_TraceID = norm_trace (we_TraceID e),
      we_EventHash = norm_hash (we_EventHash e), we_PrevHash = norm_hash (we_PrevHash e),
      we_Payload = we_Payload e, we_Checksum = hex_of_bytes (sha256 (wal_data e))\<rparr>"

definition payload_fits :: "WALEntry \<Rightarrow> bool" where
  "payload_fits e \<longleftrightarrow> length (we_Payload e) < 2 ^ 32"

lemma length_trace_field [simp, len_simps]: "length (trace_field s) = 16"
  by (simp add: trace_field_def)

lemma length_wal_data [len_simps]: "length (wal_data e) = 92 + length (we_Payload e)"
  by (simp add: wal_data_def)

lemma length_Encode [len_simps]: "length (Encode e) = 124 + length (we_Payload e)"
  by (simp add: Encode_def length_wal_data)

lemma trim_right_zeros_append [simp]:
  "trim_right_zeros (bs @ replicate n 0) = trim_right_zeros bs"
proof -
  have "dropWhile (\<lambda>b. b = 0) (replicate n 0 @ xs) = dropWhile (\<lambda>b. b = 0) xs" for xs :: "byte list"
    by (induction n) auto
  then show ?thesis by (simp add: trim_right_zeros_def)
qed

lemma trim_right_zeros_pad: "trim_right_zeros bs @ replicate (length bs - length (trim_right_zeros bs)) 0 = bs"
proof -
  define zs where "zs = takeWhile (\<lambda>b. b = 0) (rev bs)"
  have zs: "zs = replicate (length zs) 0"
    unfolding zs_def by (metis (mono_tags, lifting) replicate_length_same set_takeWhileD)
  have "rev bs = zs @ dropWhile (\<lambda>b. b = 0) (rev bs)"
    by (simp add: zs_def)
  then have split: "bs = trim_right_zeros bs @ rev zs"
    unfolding trim_right_zeros_def by (metis rev_append rev_rev_ident)
  then have "length bs - length (trim_right_zeros bs) = length zs"
    by (metis add_diff_cancel_left' length_append length_rev)
  with split zs show ?thesis by (metis rev_replicate)
qed

lemma length_trim_right_zeros: "length (trim_right_zeros bs) \<le> length bs"
  by (metis length_append le_add1 trim_right_zeros_pad)

lemma trim_trace_field: "trim_right_zeros (trace_field s) = trim_right_zeros (take 16 (bytes_of_string s))"
  by (simp add: trace_field_def)

lemma wal_header_fields:
  shows "take 8 (wal_data e @ r) = put_u64_be (we_Seq e)"
    and "take 16 (drop 8 (wal_data e @ r)) = trace_field (we_TraceID e)"
    and "take 32 (drop 24 (wal_data e @ r)) = hash_field (we_EventHash e)"
    and "take 32 (drop 56 (wal_data e @ r)) = hash_field (we_PrevHash e)"
    and "take 4 (drop 88 (wal_data e @ r)) = put_u32_be (of_nat (length (we_Payload e)))"
    and "take (length (we_Payload e)) (drop 92 (wal_data e @ r)) = we_Payload e"
  by (simp_all add: wal_data_def)

lemma payload_len_word:
  "payload_fits e \<Longrightarrow> unat (of_nat (length (we_Payload e)) :: 32 word) = length (we_Payload e)"
  by (simp add: payload_fits_def unat_of_nat)

lemma DecodeEntry_Encode_append:
  assumes "payload_fits e"
  shows "DecodeEntry (Encode e @ rest) = Inr (wal_normal e)"
proof -
  define raw where "raw = wal_data e @ (sha256 (wal_data e) @ rest)"
  define n where "n = length (we_Payload e)"
  have len: "length raw = 124 + n + length rest"
    by (simp add: raw_def n_def length_wal_data)
  have off: "take (92 + n) raw = wal_data e" "take 32 (drop (92 + n) raw) = sha256 (wal_data e)"
    by (simp_all add: raw_def n_def length_wal_data)
  note fields = wal_header_fields [of e "sha256 (wal_data e) @ rest", folded raw_def n_def]
  have plen: "unat (get_u32_be (take 4 (drop 88 raw))) = n"
    using payload_len_word [OF assms] by (simp add: fields(5) n_def)
  have "DecodeEntry raw = Inr (wal_normal e)"
    unfolding DecodeEntry_def Let_def plen
    by (simp add: len off fields trim_trace_field wal_normal_def norm_trace_def norm_hash_def)
  then show ?thesis by (simp add: raw_def Encode_def)
qed

section \<open>The encoder inverts the decoder\<close>

lemma trace_field_trim: "length t = 16 \<Longrightarrow> trace_field (string_of_bytes (trim_right_zeros t)) = t"
  using trim_right_zeros_pad [of t] length_trim_right_zeros [of t]
  by (simp add: trace_field_def)

lemma raw_fields:
  assumes "92 + n \<le> length raw"
  shows "take (92 + n) raw =
    take 8 raw @ take 16 (drop 8 raw) @ take 32 (drop 24 raw) @ take 32 (drop 56 raw) @
    take 4 (drop 88 raw) @ take n (drop 92 raw)"
proof -
  have step: "take (k + m) (drop a raw) = take k (drop a raw) @ take m (drop (a + k) raw)" for k m a
    by (simp add: take_add add.commute)
  have "take (8 + (16 + (32 + (32 + (4 + n))))) (drop 0 raw) =
    take 8 (drop 0 raw) @ take 16 (drop (0 + 8) raw) @ take 32 (drop (0 + 8 + 16) raw) @
    take 32 (drop (0 + 8 + 16 + 32) raw) @ take 4 (drop (0 + 8 + 16 + 32 + 32) raw) @
    take n (drop (0 + 8 + 16 + 32 + 32 + 4) raw)"
    by (simp only: step)
  then show ?thesis by simp
qed

lemma DecodeEntry_accepts:
  assumes "DecodeEntry raw = Inr e"
  shows "raw = Encode e @ drop (length (Encode e)) raw \<and> payload_fits e \<and> wal_normal e = e"
proof -
  define n where "n = unat (get_u32_be (take 4 (drop 88 raw)))"
  define data where "data = take (92 + n) raw"
  have len: "92 + n + 32 \<le> length raw"
    and sum: "fmt_064x (take 32 (drop (92 + n) raw)) = fmt_064x (sha256 data)"
    and e: "e = \<lparr>we_Seq = get_u64_be (take 8 raw),
        we_TraceID = string_of_bytes (trim_right_zeros (take 16 (drop 8 raw))),
        we_EventHash = fmt_064x (take 32 (drop 24 raw)),
        we_PrevHash = fmt_064x (take 32 (drop 56 raw)),
        we_Payload = take n (drop 92 raw),
        we_Checksum = fmt_064x (take 32 (drop (92 + n) raw))\<rparr>"
    using assms by (auto simp: DecodeEntry_def Let_def n_def data_def split: if_splits)
  have n32: "n < 2 ^ 32" by (simp add: n_def)
  have pl: "length (we_Payload e) = n" using len by (simp add: e)
  have "put_u32_be (of_nat n) = take 4 (drop 88 raw)"
    using len put_get_u32_be [of "take 4 (drop 88 raw)"] by (simp add: n_def)
  then have data: "wal_data e = data"
    unfolding data_def using len put_get_u64_be [of "take 8 raw"]
    by (subst raw_fields) (simp_all add: wal_data_def pl e trace_field_trim)
  have sum': "take 32 (drop (92 + n) raw) = sha256 data"
    using sum len hex_of_bytes_inj [of "take 32 (drop (92 + n) raw)" "sha256 data"] by simp
  have "take (92 + n + 32) raw = data @ sha256 data"
    unfolding data_def [symmetric] sum' [symmetric] by (simp only: take_add data_def)
  moreover have "length (Encode e) = 92 + n + 32" by (simp add: length_Encode pl)
  ultimately have "take (length (Encode e)) raw = Encode e"
    by (simp only: Encode_def data)
  then have raw: "raw = Encode e @ drop (length (Encode e)) raw"
    by (metis append_take_drop_id)
  moreover have fits: "payload_fits e" using n32 by (simp add: payload_fits_def pl)
  ultimately have "DecodeEntry raw = Inr (wal_normal e)"
    by (metis DecodeEntry_Encode_append)
  with assms raw fits show ?thesis by simp
qed

section \<open>Properties of the record format\<close>

text \<open>A hash as the program writes it: 64 lower-case hexadecimal digits.\<close>

definition lower_hex :: "char \<Rightarrow> bool" where
  "lower_hex c \<longleftrightarrow> (\<exists>d < 16. c = hex_char d)"

definition lower_hex64 :: "string \<Rightarrow> bool" where
  "lower_hex64 s \<longleftrightarrow> length s = 64 \<and> list_all lower_hex s"

lemma hex_pair: "lower_hex c \<Longrightarrow> lower_hex d \<Longrightarrow> \<exists>b. hex_of_byte b = [c, d]"
proof -
  assume "lower_hex c" "lower_hex d"
  then obtain i j where i: "i < 16" "c = hex_char i" and j: "j < 16" "d = hex_char j"
    by (auto simp: lower_hex_def)
  have "16 * i + j < 256" using i j by simp
  then have "unat (of_nat (16 * i + j) :: byte) = 16 * i + j"
    by (simp only: unat_of_nat) simp
  then have "hex_of_byte (of_nat (16 * i + j)) = [c, d]"
    using i j by (simp add: hex_of_byte_def del: of_nat_add of_nat_mult)
  then show ?thesis by blast
qed

lemma lower_hex_bytes:
  "length s = 2 * n \<Longrightarrow> list_all lower_hex s \<Longrightarrow> \<exists>bs. length bs = n \<and> hex_of_bytes bs = s"
proof (induction n arbitrary: s)
  case (Suc n)
  then obtain c d t where s: "s = c # d # t" by (auto simp: length_Suc_conv)
  with Suc.prems have "length t = 2 * n" "list_all lower_hex t" by simp_all
  from Suc.IH [OF this] obtain bs where "length bs = n" "hex_of_bytes bs = t" by blast
  moreover from Suc.prems s obtain b where "hex_of_byte b = [c, d]"
    using hex_pair [of c d] by auto
  ultimately have "length (b # bs) = Suc n \<and> hex_of_bytes (b # bs) = s" by (simp add: s)
  then show ?case by blast
qed simp

lemma norm_hash_lower [simp]: "lower_hex64 s \<Longrightarrow> norm_hash s = s"
  using lower_hex_bytes [of s 32] by (auto simp: lower_hex64_def norm_hash_def)

lemma norm_trace_short [simp]:
  "length s \<le> 16 \<Longrightarrow> s = [] \<or> last s \<noteq> char_of_byte 0 \<Longrightarrow> norm_trace s = s"
proof -
  assume "length s \<le> 16" and last: "s = [] \<or> last s \<noteq> char_of_byte 0"
  have "trim_right_zeros (bytes_of_string s) = bytes_of_string s"
  proof (cases s rule: rev_cases)
    case (snoc t c)
    with last have "byte_of_char c \<noteq> 0" by (metis char_of_byte_of_char last_snoc snoc_eq_iff_butlast)
    with snoc show ?thesis by (simp add: trim_right_zeros_def bytes_of_string_def)
  qed (simp add: trim_right_zeros_def bytes_of_string_def)
  with \<open>length s \<le> 16\<close> show ?thesis by (simp add: norm_trace_def)
qed

text \<open>An entry that the format stores without loss.\<close>

definition wal_exact :: "WALEntry \<Rightarrow> bool" where
  "wal_exact e \<longleftrightarrow>
     length (we_TraceID e) \<le> 16 \<and> (we_TraceID e = [] \<or> last (we_TraceID e) \<noteq> char_of_byte 0) \<and>
     lower_hex64 (we_EventHash e) \<and> lower_hex64 (we_PrevHash e)"

text \<open>C14: Decoding an encoded entry, whatever bytes follow it, succeeds with the entry in
  normal form, and for an entry with a short trace id and two real hashes nothing but the
  checksum field is changed.\<close>

theorem wal_decode_encode:
  assumes "payload_fits e"
  shows "DecodeEntry (Encode e @ rest) = Inr (wal_normal e) \<and>
    (wal_exact e \<longrightarrow> wal_normal e = e\<lparr>we_Checksum := hex_of_bytes (sha256 (wal_data e))\<rparr>)"
  using DecodeEntry_Encode_append [OF assms] by (simp add: wal_exact_def wal_normal_def)

theorem wal_decode_encode_witness:
  "let e = \<lparr>we_Seq = 7, we_TraceID = ''trace-1'', we_EventHash = replicate 64 CHR ''a'',
            we_PrevHash = replicate 64 CHR ''0'', we_Payload = [1, 2], we_Checksum = []\<rparr>
   in payload_fits e \<and> DecodeEntry (Encode e @ [9]) = Inr (wal_normal e)"
proof -
  have fits: "payload_fits \<lparr>we_Seq = 7, we_TraceID = ''trace-1'',
      we_EventHash = replicate 64 CHR ''a'', we_PrevHash = replicate 64 CHR ''0'',
      we_Payload = [1, 2], we_Checksum = []\<rparr>"
    by (simp add: payload_fits_def)
  from wal_decode_encode [OF fits, of "[9]"] fits show ?thesis by simp
qed

text \<open>C15: The decoder accepts only what the encoder writes: accepted bytes start with the
  encoding of the decoded entry, so a log has exactly one byte representation per entry.\<close>

theorem wal_decode_canonical:
  assumes "DecodeEntry raw = Inr e"
  shows "take (length (Encode e)) raw = Encode e \<and> wal_normal e = e \<and> payload_fits e"
proof -
  have "raw = Encode e @ drop (length (Encode e)) raw"
    using DecodeEntry_accepts [OF assms] by blast
  then have "take (length (Encode e)) raw = Encode e" by (metis append_eq_conv_conj)
  with DecodeEntry_accepts [OF assms] show ?thesis by simp
qed

theorem wal_decode_canonical_witness:
  "let e = wal_normal \<lparr>we_Seq = 1, we_TraceID = ''t'', we_EventHash = [], we_PrevHash = [],
            we_Payload = [7], we_Checksum = []\<rparr>
   in DecodeEntry (Encode e @ [9]) = Inr e \<and> take (length (Encode e)) (Encode e @ [9]) = Encode e \<and>
      wal_normal e = e \<and> payload_fits e"
proof -
  let ?d = "\<lparr>we_Seq = 1, we_TraceID = ''t'', we_EventHash = [], we_PrevHash = [],
      we_Payload = [7], we_Checksum = []\<rparr>"
  have "payload_fits ?d" by (simp add: payload_fits_def)
  from DecodeEntry_Encode_append [OF this, of "[]"]
  have d: "DecodeEntry (Encode ?d @ []) = Inr (wal_normal ?d)" .
  note c = wal_decode_canonical [OF d]
  then have "wal_normal (wal_normal ?d) = wal_normal ?d" "payload_fits (wal_normal ?d)" by blast+
  with DecodeEntry_Encode_append [of "wal_normal ?d" "[9]"] show ?thesis by (simp add: Let_def)
qed

text \<open>What the decoder does with any bytes laid out as a record.\<close>

lemma DecodeEntry_shape:
  assumes "length d = 92 + n" "unat (get_u32_be (take 4 (drop 88 d))) = n" "length c = 32"
  shows "c \<noteq> sha256 d \<Longrightarrow> DecodeEntry (d @ c @ rest) = Inl ErrWALCorruption"
    and "c = sha256 d \<Longrightarrow> \<exists>e. DecodeEntry (d @ c @ rest) = Inr e"
proof -
  have len: "length (d @ c @ rest) = 124 + n + length rest" using assms by simp
  have plen: "unat (get_u32_be (take 4 (drop 88 (d @ c @ rest)))) = n" using assms by simp
  have off: "take (92 + n) (d @ c @ rest) = d" "take 32 (drop (92 + n) (d @ c @ rest)) = c"
    using assms by simp_all
  have hex: "fmt_064x c \<noteq> fmt_064x (sha256 d) \<longleftrightarrow> c \<noteq> sha256 d"
    using assms(3) by (simp add: hex_of_bytes_inj)
  show "c \<noteq> sha256 d \<Longrightarrow> DecodeEntry (d @ c @ rest) = Inl ErrWALCorruption"
    unfolding DecodeEntry_def Let_def plen off len by (simp only: hex) simp
  show "c = sha256 d \<Longrightarrow> \<exists>e. DecodeEntry (d @ c @ rest) = Inr e"
    unfolding DecodeEntry_def Let_def plen off len by (simp only: hex) simp
qed

lemma DecodeEntry_changed_byte:
  assumes "payload_fits e" and "i < length (Encode e)" and "i < 88 \<or> 92 \<le> i"
    and "b \<noteq> Encode e ! i"
  shows "DecodeEntry ((Encode e)[i := b] @ rest) = Inl ErrWALCorruption \<or>
    i < length (wal_data e) \<and> (wal_data e)[i := b] \<noteq> wal_data e \<and>
    sha256 ((wal_data e)[i := b]) = sha256 (wal_data e)"
proof -
  define d where "d = wal_data e"
  define n where "n = length (we_Payload e)"
  have d: "length d = 92 + n" by (simp add: d_def n_def length_wal_data)
  have field: "take 4 (drop 88 d) = put_u32_be (of_nat n)"
    using wal_header_fields(5) [of e "[]"] by (simp add: d_def n_def)
  have n: "unat (get_u32_be (take 4 (drop 88 d))) = n"
    using payload_len_word [OF assms(1)] by (simp add: field n_def)
  show ?thesis
  proof (cases "i < length d")
    case True
    then have upd: "(Encode e)[i := b] = d[i := b] @ sha256 d"
      by (simp add: Encode_def d_def [symmetric] list_update_append)
    from True assms(4) have changed: "d[i := b] \<noteq> d"
      by (metis Encode_def d_def nth_append nth_list_update_eq)
    have "take 4 (drop 88 (d[i := b])) = take 4 (drop 88 d)"
      using assms(3) by (auto simp: drop_update_swap take_update_cancel drop_update_cancel)
    with n have n': "unat (get_u32_be (take 4 (drop 88 (d[i := b])))) = n" by simp
    show ?thesis
      using DecodeEntry_shape(1) [OF _ n', of "sha256 d" rest] d changed True
      by (auto simp: upd d_def)
  next
    case False
    have upd: "(Encode e)[i := b] = d @ (sha256 d)[i - length d := b]"
      using False by (simp add: Encode_def d_def [symmetric] list_update_append)
    have "i - length d < length (sha256 d)"
      using False assms(2) by (simp add: Encode_def d_def [symmetric])
    moreover have "b \<noteq> sha256 d ! (i - length d)"
      using assms(4) False by (simp add: Encode_def d_def [symmetric] nth_append)
    ultimately have "(sha256 d)[i - length d := b] \<noteq> sha256 d"
      by (metis nth_list_update_eq)
    from DecodeEntry_shape(1) [OF d n _ this, of rest] show ?thesis by (simp add: upd)
  qed
qed

text \<open>C4: A record in which one byte outside the length field was changed is rejected as
  corrupt, unless the change is one that SHA-256 itself cannot see.\<close>

theorem wal_byte_corruption_detected:
  assumes "payload_fits e" and "i < length (Encode e)" and "i < 88 \<or> 92 \<le> i"
    and "b \<noteq> Encode e ! i"
  shows "DecodeEntry ((Encode e)[i := b] @ rest) = Inl ErrWALCorruption \<or>
    i < length (wal_data e) \<and> (wal_data e)[i := b] \<noteq> wal_data e \<and>
    sha256 ((wal_data e)[i := b]) = sha256 (wal_data e)"
  by (rule DecodeEntry_changed_byte [OF assms])

theorem wal_byte_corruption_witness:
  "let e = \<lparr>we_Seq = 1, we_TraceID = ''t'', we_EventHash = [], we_PrevHash = [],
            we_Payload = [5], we_Checksum = []\<rparr>;
       bad = (Encode e)[92 := 6]
   in DecodeEntry (bad @ []) = Inl ErrWALCorruption \<or>
      sha256 ((wal_data e)[92 := 6]) = sha256 (wal_data e)"
proof -
  let ?e = "\<lparr>we_Seq = 1, we_TraceID = ''t'', we_EventHash = [], we_PrevHash = [],
            we_Payload = [5], we_Checksum = []\<rparr>"
  have "payload_fits ?e" by (simp add: payload_fits_def)
  moreover have "92 < length (Encode ?e)" by (simp add: length_Encode)
  moreover have "(6 :: byte) \<noteq> Encode ?e ! 92"
    by (simp add: Encode_def wal_data_def nth_append)
  ultimately show ?thesis
    using wal_byte_corruption_detected [of ?e 92 6 "[]"] by (auto simp: Let_def)
qed

text \<open>The struct's own checksum agrees with the one written to disk exactly as long as both
  hashes are 64 characters long; \<open>ValidateChecksum\<close> never looks at it.\<close>

lemma wal_checksum_matches:
  "length (we_EventHash e) = 64 \<Longrightarrow> length (we_PrevHash e) = 64 \<Longrightarrow>
     wal_checksum e = hex_of_bytes (sha256 (wal_data e))"
  by (simp add: wal_checksum_def wal_data_def hash_field_or_nothing_def hash_field_def hexToBytes_def)

end
