(* ===== verification/WalLog.thy ===== *)
theory WalLog
  imports Wal
begin

text \<open>
  The log file (\<open>pkg/wal/wal.go\<close>, lines 267 to 415): opening, appending, recovering,
  closing, statistics.  The open file is its bytes and the offset of the handle; \<open>Write\<close>
  overwrites from the offset, as a file opened without \<open>O_APPEND\<close> does.  \<open>Recover\<close> is
  given the results of its \<open>Read\<close> calls; for a file of the operating system they are the
  4096-byte pieces of the rest of the file, but its result is shown not to depend on how the
  bytes are cut.  The struct's mutex is held for the whole of each method, so a method is one
  step.
\<close>

section \<open>The file\<close>

record WAL =
  wal_content :: "byte list"
  wal_pos :: nat
  wal_path :: string
  wal_closed :: bool

text \<open>\<open>os.OpenFile\<close> with \<open>O_RDWR|O_CREATE\<close>: an existing file keeps its bytes, the offset
  is 0.\<close>

definition opened_WAL :: "string \<Rightarrow> byte list option \<Rightarrow> WAL" where
  "opened_WAL path existing =
     \<lparr>wal_content = (case existing of None \<Rightarrow> [] | Some bs \<Rightarrow> bs), wal_pos = 0,
      wal_path = path, wal_closed = False\<rparr>"

text \<open>\<open>can_open\<close> is whether the operating system opens the file.\<close>

definition NewWAL :: "bool \<Rightarrow> string \<Rightarrow> byte list option \<Rightarrow> wal_error + WAL" where
  "NewWAL can_open path existing = (if can_open then Inr (opened_WAL path existing) else Inl ErrOpen)"

definition write_at :: "nat \<Rightarrow> byte list \<Rightarrow> byte list \<Rightarrow> byte list" where
  "write_at pos data bs =
     take pos bs @ replicate (pos - length bs) 0 @ data @ drop (pos + length data) bs"

definition file_write :: "byte list \<Rightarrow> WAL \<Rightarrow> WAL" where
  "file_write data w =
     w\<lparr>wal_content := write_at (wal_pos w) data (wal_content w),
       wal_pos := wal_pos w + length data\<rparr>"

section \<open>Append\<close>

definition entry_of_event :: "canon_Event \<Rightarrow> WALEntry" where
  "entry_of_event e =
     \<lparr>we_Seq = ev_Seq e, we_TraceID = ev_TraceID e, we_EventHash = ev_EventHash e,
      we_PrevHash = ev_PrevHash e, we_Payload = ev_Payload e, we_Checksum = []\<rparr>"

text \<open>What the operating system answers: success, a write that fails after some bytes
  reached the file, or a failing \<open>Sync\<close> after a complete write.\<close>

datatype io_outcome = IoOk | IoWriteFail nat | IoSyncFail

definition wal_Append :: "io_outcome \<Rightarrow> WAL \<Rightarrow> canon_Event \<Rightarrow> wal_error option \<times> WAL" where
  "wal_Append io w e =
     (if wal_closed w then (Some ErrClosed, w)
      else
        let entry = entry_of_event e;
            data = Encode entry
        in case io of
             IoWriteFail k \<Rightarrow> (Some ErrWrite, file_write (take k data) w)
           | IoSyncFail \<Rightarrow> (Some ErrSync, file_write data w)
           | IoOk \<Rightarrow> (None, file_write data w))"

section \<open>Recover\<close>

definition event_of_entry :: "WALEntry \<Rightarrow> canon_Event" where
  "event_of_entry entry =
     \<lparr>ev_TraceID = we_TraceID entry, ev_Seq = we_Seq entry, ev_PrevHash = we_PrevHash entry,
      ev_EventHash = we_EventHash entry, ev_Payload = we_Payload entry, ev_Tick = 0\<rparr>"

text \<open>The inner loop: decode complete entries off the front of \<open>remain\<close>.  The result is the
  error that stopped it, if any, the bytes left and the events so far.\<close>

definition entry_total :: "byte list \<Rightarrow> nat" where
  "entry_total remain = 92 + unat (get_u32_be (take 4 (drop 88 remain))) + 32"

function drain :: "byte list \<Rightarrow> canon_Event list \<Rightarrow>
    wal_error option \<times> byte list \<times> canon_Event list" where
  "drain remain events =
     (if length remain < 92 then (None, remain, events)
      else if length remain < entry_total remain then (None, remain, events)
      else case DecodeEntry (take (entry_total remain) remain) of
             Inl err \<Rightarrow> (Some (ErrCorruptEntry err), drop (entry_total remain) remain, events)
           | Inr entry \<Rightarrow>
               drain (drop (entry_total remain) remain) (events @ [event_of_entry entry]))"
  by pat_completeness auto
termination
  by (relation "measure (\<lambda>(remain, events). length remain)") (auto simp: entry_total_def)

declare drain.simps [simp del]

text \<open>The outer loop over the \<open>Read\<close> results until end of file.  A failing read still
  hands over the bytes it read; they are kept in \<open>remain\<close> but not processed.\<close>

datatype read_result = ReadOk "byte list" | ReadFail "byte list"

fun recover_loop :: "byte list \<Rightarrow> canon_Event list \<Rightarrow> read_result list \<Rightarrow>
    wal_error option \<times> canon_Event list" where
  "recover_loop remain events [] = (None, events)"
| "recover_loop remain events (ReadFail bs # rs) = (Some ErrRead, events)"
| "recover_loop remain events (ReadOk bs # rs) =
     (case drain (remain @ bs) events of
        (Some err, _, events') \<Rightarrow> (Some err, events')
      | (None, remain', events') \<Rightarrow> recover_loop remain' events' rs)"

text \<open>How many reads happened before the loop stopped, for the offset of the handle.\<close>

fun bytes_read :: "byte list \<Rightarrow> canon_Event list \<Rightarrow> read_result list \<Rightarrow> nat" where
  "bytes_read remain events [] = 0"
| "bytes_read remain events (ReadFail bs # rs) = length bs"
| "bytes_read remain events (ReadOk bs # rs) =
     length bs +
     (case drain (remain @ bs) events of
        (Some err, _, events') \<Rightarrow> 0
      | (None, remain', events') \<Rightarrow> bytes_read remain' events' rs)"

definition file_reads :: "byte list \<Rightarrow> read_result list" where
  "file_reads bs = map ReadOk (chop 4096 bs)"

text \<open>\<open>Seek\<close> fails on a closed file, or when the operating system says so; otherwise the offset
  ends after the bytes read.  \<open>rs\<close> are the results of the reads.\<close>

definition wal_Recover_io :: "bool \<Rightarrow> read_result list \<Rightarrow> WAL \<Rightarrow>
    (wal_error option \<times> canon_Event list) \<times> WAL" where
  "wal_Recover_io seek_ok rs w =
     (if wal_closed w \<or> \<not> seek_ok then ((Some ErrSeek, []), w)
      else (recover_loop [] [] rs, w\<lparr>wal_pos := bytes_read [] [] rs\<rparr>))"

text \<open>\<open>Recover\<close> on a file that can be read.\<close>

definition wal_Recover :: "WAL \<Rightarrow> (wal_error option \<times> canon_Event list) \<times> WAL" where
  "wal_Recover w = wal_Recover_io True (file_reads (wal_content w)) w"

text \<open>\<open>close_ok\<close> is whether the operating system closes the file; a file is closed once.\<close>

definition wal_Close :: "bool \<Rightarrow> WAL \<Rightarrow> wal_error option \<times> WAL" where
  "wal_Close close_ok w =
     (let w' = w\<lparr>wal_closed := True\<rparr>
      in (if wal_closed w then Some ErrClosed else if close_ok then None else Some ErrCloseFile, w'))"

record WalStats =
  st_Path :: string
  st_Bytes :: nat
  st_Events :: nat

definition wal_Stats :: "WAL \<Rightarrow> (wal_error + WalStats) \<times> WAL" where
  "wal_Stats w =
     (if wal_closed w then (Inl ErrClosed, w)
      else case wal_Recover w of
             ((Some err, _), w') \<Rightarrow> (Inl err, w')
           | ((None, events), w') \<Rightarrow>
               (Inr \<lparr>st_Path = wal_path w, st_Bytes = length (wal_content w),
                     st_Events = length events\<rparr>, w'))"

lemmas wal_defs = opened_WAL_def file_write_def wal_Append_def wal_Recover_def wal_Recover_io_def wal_Close_def
  file_reads_def

section \<open>The inner loop on a split stream\<close>

text \<open>\<open>waiting bs\<close>: the loop stops at \<open>bs\<close> and waits for more bytes.\<close>

definition waiting :: "byte list \<Rightarrow> bool" where
  "waiting bs \<longleftrightarrow> length bs < 92 \<or> length bs < entry_total bs"

lemma drain_waiting [simp]: "waiting bs \<Longrightarrow> drain bs events = (None, bs, events)"
  by (subst drain.simps) (auto simp: waiting_def)

lemma waiting_Nil [simp]: "waiting []"
  by (simp add: waiting_def)

lemma drain_decode:
  "\<not> waiting bs \<Longrightarrow> drain bs events =
     (case DecodeEntry (take (entry_total bs) bs) of
        Inl err \<Rightarrow> (Some (ErrCorruptEntry err), drop (entry_total bs) bs, events)
      | Inr entry \<Rightarrow> drain (drop (entry_total bs) bs) (events @ [event_of_entry entry]))"
  by (subst drain.simps) (auto simp: waiting_def)

lemma entry_total_append: "92 \<le> length xs \<Longrightarrow> entry_total (xs @ ys) = entry_total xs"
  by (simp add: entry_total_def)

lemma waiting_append: "waiting (xs @ ys) \<Longrightarrow> waiting xs"
  by (cases "length xs < 92") (auto simp: waiting_def entry_total_append)

lemma drain_rest_waiting: "drain xs events = (None, r, events') \<Longrightarrow> waiting r"
proof (induction xs events rule: drain.induct)
  case (1 xs events)
  show ?case
  proof (cases "waiting xs")
    case True
    with 1(2) show ?thesis by simp
  next
    case False
    with 1 show ?thesis
      by (auto simp: drain_decode waiting_def split: sum.splits)
  qed
qed

lemma drain_append:
  "drain (xs @ ys) events =
     (case drain xs events of
        (Some err, r, events') \<Rightarrow> (Some err, r @ ys, events')
      | (None, r, events') \<Rightarrow> drain (r @ ys) events')"
proof (induction xs events rule: drain.induct)
  case (1 xs events)
  show ?case
  proof (cases "waiting xs")
    case True
    then show ?thesis by simp
  next
    case False
    then have len: "92 \<le> length xs" "entry_total xs \<le> length xs" by (simp_all add: waiting_def)
    from False have "\<not> waiting (xs @ ys)" using waiting_append by blast
    then show ?thesis
      using 1 False len
      by (auto simp: drain_decode entry_total_append waiting_def split: sum.split)
  qed
qed

text \<open>The outer loop computes the same as one pass over all the bytes.\<close>

definition recover_bytes :: "byte list \<Rightarrow> canon_Event list \<Rightarrow> wal_error option \<times> canon_Event list" where
  "recover_bytes bs events = (case drain bs events of (err, _, events') \<Rightarrow> (err, events'))"

lemma recover_loop_bytes:
  "waiting remain \<Longrightarrow>
     recover_loop remain events (map ReadOk cs) = recover_bytes (remain @ concat cs) events"
proof (induction cs arbitrary: remain events)
  case Nil
  then show ?case by (simp add: recover_bytes_def)
next
  case (Cons c cs)
  obtain err r evs where d: "drain (remain @ c) events = (err, r, evs)" by (cases "drain (remain @ c) events") auto
  show ?case
  proof (cases err)
    case None
    with d have "waiting r" using drain_rest_waiting by simp
    from Cons.IH [OF this] d None show ?thesis
      using drain_append [of "remain @ c" "concat cs" events] by (simp add: recover_bytes_def)
  next
    case (Some e)
    then show ?thesis
      using d drain_append [of "remain @ c" "concat cs" events] by (simp add: recover_bytes_def)
  qed
qed

lemma concat_chop: "0 < k \<Longrightarrow> concat (chop k xs) = xs"
  by (induction k xs rule: chop.induct) (subst chop.simps, simp)

lemma fst_wal_Recover: "\<not> wal_closed w \<Longrightarrow> fst (wal_Recover w) = recover_bytes (wal_content w) []"
  by (simp add: wal_Recover_def wal_Recover_io_def file_reads_def recover_loop_bytes concat_chop)

text \<open>When a read fails, the events of the records completed before it are returned with the
  error, unless a corrupt record has stopped the loop earlier.\<close>

lemma recover_read_failure:
  "waiting remain \<Longrightarrow> recover_loop remain events (map ReadOk cs @ ReadFail bs # rs) =
     (case recover_bytes (remain @ concat cs) events of
        (None, events') \<Rightarrow> (Some ErrRead, events') | (Some err, events') \<Rightarrow> (Some err, events'))"
proof (induction cs arbitrary: remain events)
  case Nil
  then show ?case by (simp add: recover_bytes_def)
next
  case (Cons c cs)
  obtain err r evs where d: "drain (remain @ c) events = (err, r, evs)" by (cases "drain (remain @ c) events") auto
  show ?case
  proof (cases err)
    case None
    with d have "waiting r" using drain_rest_waiting by simp
    from Cons.IH [OF this] d None show ?thesis
      using drain_append [of "remain @ c" "concat cs" events] by (simp add: recover_bytes_def)
  next
    case (Some e)
    then show ?thesis
      using d drain_append [of "remain @ c" "concat cs" events] by (simp add: recover_bytes_def)
  qed
qed

lemma bytes_read_all:
  "waiting remain \<Longrightarrow> fst (recover_bytes (remain @ concat cs) events) = None \<Longrightarrow>
     bytes_read remain events (map ReadOk cs) = length (concat cs)"
proof (induction cs arbitrary: remain events)
  case (Cons c cs)
  obtain err r evs where d: "drain (remain @ c) events = (err, r, evs)" by (cases "drain (remain @ c) events") auto
  with Cons.prems(2) have none: "err = None" "fst (recover_bytes (r @ concat cs) evs) = None"
    using drain_append [of "remain @ c" "concat cs" events]
    by (auto simp: recover_bytes_def split: option.splits)
  with d have "waiting r" using drain_rest_waiting by simp
  from Cons.IH [OF this none(2)] d none(1) show ?case by simp
qed simp

lemma wal_Recover_pos:
  "\<not> wal_closed w \<Longrightarrow> fst (recover_bytes (wal_content w) []) = None \<Longrightarrow>
     snd (wal_Recover w) = w\<lparr>wal_pos := length (wal_content w)\<rparr>"
  using bytes_read_all [of "[]" "chop 4096 (wal_content w)" "[]"]
  by (simp add: wal_Recover_def wal_Recover_io_def file_reads_def concat_chop)

section \<open>The record format as a framing\<close>

definition event_bytes :: "canon_Event \<Rightarrow> byte list" where
  "event_bytes e = Encode (entry_of_event e)"

definition event_fits :: "canon_Event \<Rightarrow> bool" where
  "event_fits e \<longleftrightarrow> length (ev_Payload e) < 2 ^ 32"

text \<open>What comes back of an event: hashes and trace id in normal form, the tick lost.\<close>

definition recovered_event :: "canon_Event \<Rightarrow> canon_Event" where
  "recovered_event e =
     e\<lparr>ev_TraceID := norm_trace (ev_TraceID e), ev_EventHash := norm_hash (ev_EventHash e),
       ev_PrevHash := norm_hash (ev_PrevHash e), ev_Tick := 0\<rparr>"

lemma recovered_event_alt:
  "recovered_event e = event_of_entry (wal_normal (entry_of_event e))"
  by (simp add: recovered_event_def event_of_entry_def wal_normal_def entry_of_event_def)

lemma length_event_bytes [len_simps]: "length (event_bytes e) = 124 + length (ev_Payload e)"
  by (simp add: event_bytes_def length_Encode entry_of_event_def)

lemma event_fits_entry: "event_fits e \<longleftrightarrow> payload_fits (entry_of_event e)"
  by (simp add: event_fits_def payload_fits_def entry_of_event_def)

lemma entry_total_take:
  assumes "event_fits e" "92 \<le> k" "k \<le> length (event_bytes e)"
  shows "entry_total (take k (event_bytes e) @ rest) = length (event_bytes e)"
proof -
  let ?w = "entry_of_event e"
  have "take 4 (drop 88 (take k (event_bytes e) @ rest)) = take 4 (drop 88 (event_bytes e))"
    using assms(2,3) by (simp add: drop_take)
  also have "\<dots> = put_u32_be (of_nat (length (we_Payload ?w)))"
    using wal_header_fields(5) [of ?w "sha256 (wal_data ?w)"]
    by (simp add: event_bytes_def Encode_def)
  finally show ?thesis
    using payload_len_word [of ?w] assms(1)
    by (simp add: entry_total_def event_fits_entry length_event_bytes)
      (simp add: entry_of_event_def)
qed

lemma waiting_take_event:
  assumes "event_fits e" "k < length (event_bytes e)"
  shows "waiting (take k (event_bytes e))"
proof (cases "k < 92")
  case False
  with assms entry_total_take [of e k "[]"] show ?thesis by (simp add: waiting_def)
qed (use assms in \<open>simp add: waiting_def\<close>)

lemma drain_event:
  assumes "event_fits e"
  shows "drain (event_bytes e @ rest) events = drain rest (events @ [recovered_event e])"
proof -
  have tot: "entry_total (event_bytes e @ rest) = length (event_bytes e)"
    using entry_total_take [OF assms, of "length (event_bytes e)" rest]
    by (simp add: length_event_bytes)
  then have "\<not> waiting (event_bytes e @ rest)" by (simp add: waiting_def length_event_bytes)
  moreover have "DecodeEntry (event_bytes e) = Inr (wal_normal (entry_of_event e))"
    using DecodeEntry_Encode_append [of "entry_of_event e" "[]"] assms
    by (simp add: event_bytes_def event_fits_entry)
  ultimately show ?thesis by (simp add: drain_decode tot recovered_event_alt)
qed

interpretation wal_frames: framing event_bytes event_fits recovered_event recover_bytes "Pair None"
proof
  fix x rest acc k
  show "event_fits x \<Longrightarrow>
      recover_bytes (event_bytes x @ rest) acc = recover_bytes rest (acc @ [recovered_event x])"
    by (simp add: recover_bytes_def drain_event)
  show "event_fits x \<Longrightarrow> k < length (event_bytes x) \<Longrightarrow>
      recover_bytes (take k (event_bytes x)) acc = (None, acc)"
    by (simp add: recover_bytes_def waiting_take_event)
  show "event_bytes x \<noteq> []"
    using length_event_bytes [of x] by (metis add_eq_0_iff_both_eq_0 list.size(3) zero_neq_numeral)
qed

text \<open>The bytes of a list of events, and what a tail that is not a whole record adds.\<close>

definition log_bytes :: "canon_Event list \<Rightarrow> byte list" where
  "log_bytes es = concat (map event_bytes es)"

lemma recover_log_tail:
  "list_all event_fits es \<Longrightarrow> waiting tail \<Longrightarrow>
     recover_bytes (log_bytes es @ tail) [] = (None, map recovered_event es)"
  using wal_frames.loop_records [of es tail "[]"]
  by (simp add: log_bytes_def) (simp add: recover_bytes_def)

lemma recover_log:
  "list_all event_fits es \<Longrightarrow> recover_bytes (log_bytes es) [] = (None, map recovered_event es)"
  using recover_log_tail [of es "[]"] by simp

lemma log_bytes_append [simp]: "log_bytes (es @ fs) = log_bytes es @ log_bytes fs"
  by (simp add: log_bytes_def)

lemma log_bytes_simps [simp]: "log_bytes [] = []" "log_bytes (e # es) = event_bytes e @ log_bytes es"
  by (simp_all add: log_bytes_def)

lemma recover_prefix:
  assumes "list_all event_fits es"
  shows "recover_bytes (take k (log_bytes es)) [] =
    (None, map recovered_event (take (complete_records event_bytes k es) es))"
proof (cases "es = []")
  case True
  then show ?thesis by (simp add: recover_bytes_def)
next
  case False
  from wal_frames.loop_prefix [OF assms this, of k "[]"] show ?thesis by (simp add: log_bytes_def)
qed

section \<open>The log as an append-only log\<close>

definition wal_append_step :: "WAL \<Rightarrow> canon_Event \<Rightarrow> wal_error + WAL" where
  "wal_append_step w e =
     (case wal_Append IoOk w e of (None, w') \<Rightarrow> Inr w' | (Some err, _) \<Rightarrow> Inl err)"

definition wal_view :: "WAL \<Rightarrow> canon_Event list" where
  "wal_view w = snd (fst (wal_Recover w))"

text \<open>Open, with the offset at the end of a file that holds whole records only.\<close>

definition wal_inv :: "WAL \<Rightarrow> bool" where
  "wal_inv w \<longleftrightarrow> \<not> wal_closed w \<and> wal_pos w = length (wal_content w) \<and>
     (\<exists>es. list_all event_fits es \<and> wal_content w = log_bytes es)"

lemma write_at_end [simp]: "write_at (length bs) data bs = bs @ data"
  by (simp add: write_at_def)

lemma wal_Append_end:
  "\<not> wal_closed w \<Longrightarrow> wal_pos w = length (wal_content w) \<Longrightarrow>
     wal_Append IoOk w e = (None, w\<lparr>wal_content := wal_content w @ event_bytes e,
       wal_pos := length (wal_content w) + length (event_bytes e)\<rparr>)"
  by (simp add: wal_Append_def file_write_def event_bytes_def Let_def)

lemma wal_append_step_open:
  "\<not> wal_closed w \<Longrightarrow> wal_pos w = length (wal_content w) \<Longrightarrow>
     wal_append_step w e = Inr (w\<lparr>wal_content := wal_content w @ event_bytes e,
       wal_pos := length (wal_content w) + length (event_bytes e)\<rparr>)"
  by (simp add: wal_append_step_def wal_Append_end)

lemma wal_view_log: "\<not> wal_closed w \<Longrightarrow> list_all event_fits es \<Longrightarrow> wal_content w = log_bytes es \<Longrightarrow>
    wal_view w = map recovered_event es"
  by (simp add: wal_view_def fst_wal_Recover recover_log)

interpretation wal_log: append_log wal_append_step wal_view recovered_event event_fits wal_inv
proof
  fix w e w'
  assume inv: "wal_inv w" and e: "event_fits e" and step: "wal_append_step w e = Inr w'"
  from inv obtain es where es: "list_all event_fits es" "wal_content w = log_bytes es"
    and open': "\<not> wal_closed w" "wal_pos w = length (wal_content w)"
    by (auto simp: wal_inv_def)
  from step have w': "w' = w\<lparr>wal_content := log_bytes (es @ [e]),
      wal_pos := length (log_bytes (es @ [e]))\<rparr>"
    using es by (simp add: wal_append_step_open [OF open'])
  have fits: "list_all event_fits (es @ [e])" using es(1) e by simp
  have "wal_view w' = map recovered_event (es @ [e])"
    by (rule wal_view_log) (use w' open' fits in simp_all)
  then show "wal_view w' = wal_view w @ [recovered_event e]"
    using wal_view_log [OF open'(1) es] by simp
  have "list_all event_fits (es @ [e]) \<and> wal_content w' = log_bytes (es @ [e])"
    using w' fits by simp
  moreover have "\<not> wal_closed w'" "wal_pos w' = length (wal_content w')"
    using w' open'(1) by simp_all
  ultimately show "wal_inv w'" unfolding wal_inv_def by blast
qed

section \<open>Properties of the log\<close>

text \<open>Events that come back as they went in.\<close>

definition event_exact :: "canon_Event \<Rightarrow> bool" where
  "event_exact e \<longleftrightarrow> event_fits e \<and> wal_exact (entry_of_event e) \<and> ev_Tick e = 0"

lemma recovered_exact [simp]: "event_exact e \<Longrightarrow> recovered_event e = e"
  by (simp add: event_exact_def recovered_event_def wal_exact_def entry_of_event_def)

lemma map_recovered_exact: "list_all event_exact es \<Longrightarrow> map recovered_event es = es"
  by (induction es) auto

lemma recover_exact: "list_all event_exact es \<Longrightarrow> recover_bytes (log_bytes es) [] = (None, es)"
  by (simp add: recover_log map_recovered_exact list_all_iff event_exact_def)

lemma exact_fits: "list_all event_exact es \<Longrightarrow> list_all event_fits es"
  by (auto simp: list_all_iff event_exact_def)

lemma recover_appended:
  assumes "list_all event_fits es"
  shows "\<exists>w. run_steps wal_append_step (opened_WAL path None) es = Inr w \<and>
    fst (wal_Recover w) = (None, map recovered_event es)"
proof -
  have inv: "wal_inv (opened_WAL path None)"
    unfolding wal_inv_def by (auto simp: opened_WAL_def intro: exI [of _ "[]"])
  have "\<exists>w'. run_steps wal_append_step w es = Inr w'" if "wal_inv w" for w
    using that assms
  proof (induction es arbitrary: w)
    case (Cons e es)
    then obtain w' where w': "wal_append_step w e = Inr w'"
      using wal_append_step_open by (auto simp: wal_inv_def)
    with Cons wal_log.app_inv show ?case by auto
  qed simp
  with inv obtain w where w: "run_steps wal_append_step (opened_WAL path None) es = Inr w" by blast
  have "wal_view w = map recovered_event es"
    using wal_log.run_view [OF inv assms w] by (simp add: wal_view_def wal_Recover_def wal_Recover_io_def opened_WAL_def file_reads_def chop.simps)
  moreover have "wal_inv w" by (rule wal_log.run_inv [OF inv assms w])
  then have "fst (fst (wal_Recover w)) = None"
    by (auto simp: wal_inv_def fst_wal_Recover recover_log)
  ultimately have "fst (wal_Recover w) = (None, map recovered_event es)"
    by (simp add: wal_view_def prod_eq_iff)
  with w show ?thesis by blast
qed

text \<open>C3: Everything appended to a fresh log comes back, in order and without an error, each
  event with its hashes and trace id in normal form and its tick dropped.\<close>

theorem wal_recover_appended:
  assumes "list_all event_fits es"
  shows "\<exists>w. run_steps wal_append_step (opened_WAL path None) es = Inr w \<and>
    fst (wal_Recover w) = (None, map recovered_event es)"
  by (rule recover_appended [OF assms])

theorem wal_recover_appended_witness:
  "\<exists>w. run_steps wal_append_step (opened_WAL ''wal.log'' None) [MakeEvent 0, MakeEvent 1] = Inr w \<and>
     fst (wal_Recover w) = (None, [recovered_event (MakeEvent 0), recovered_event (MakeEvent 1)])"
  using wal_recover_appended [of "[MakeEvent 0, MakeEvent 1]" "''wal.log''"]
  by (simp add: event_fits_def MakeEvent_def)

text \<open>C2: Crash recovery.  Whatever prefix of a well-formed log survives a crash, recovery
  reports no error and returns exactly the events whose records are complete in it, a prefix
  of what was appended.\<close>

theorem wal_crash_recovers_prefix:
  assumes "list_all event_exact es"
  shows "fst (wal_Recover (opened_WAL path (Some (take k (log_bytes es))))) =
    (None, take (complete_records event_bytes k es) es)"
proof -
  have "fst (wal_Recover (opened_WAL path (Some (take k (log_bytes es))))) =
      recover_bytes (take k (log_bytes es)) []"
    by (simp add: fst_wal_Recover opened_WAL_def)
  also have "\<dots> = (None, map recovered_event (take (complete_records event_bytes k es) es))"
    by (rule recover_prefix [OF exact_fits [OF assms]])
  also have "\<dots> = (None, take (complete_records event_bytes k es) es)"
    using map_recovered_exact [OF assms] by (metis take_map)
  finally show ?thesis .
qed

definition sample_event :: "nat \<Rightarrow> canon_Event" where
  "sample_event n =
     \<lparr>ev_TraceID = ''t'', ev_Seq = of_nat n, ev_PrevHash = replicate 64 CHR ''0'',
      ev_EventHash = replicate 64 CHR ''a'', ev_Payload = [of_nat n], ev_Tick = 0\<rparr>"

lemma sample_event_Payload [simp]: "ev_Payload (sample_event n) = [of_nat n]"
  by (simp add: sample_event_def)

lemma sample_event_exact [simp]: "event_exact (sample_event n)"
proof -
  have "hex_char 10 = CHR ''a''" "hex_char 0 = CHR ''0''" and zero: "char_of (0 :: nat) \<noteq> CHR ''t''"
    by code_simp+
  then have "(10 :: nat) < 16 \<and> CHR ''a'' = hex_char 10" "(0 :: nat) < 16 \<and> CHR ''0'' = hex_char 0"
    by simp_all
  then have "lower_hex CHR ''a''" "lower_hex CHR ''0''"
    unfolding lower_hex_def by blast+
  then show ?thesis
    by (simp add: event_exact_def event_fits_def wal_exact_def lower_hex64_def sample_event_def
        entry_of_event_def list_all_iff char_of_byte_def zero [symmetric])
qed

theorem wal_crash_witness:
  "fst (wal_Recover (opened_WAL ''p'' (Some (take 200 (log_bytes [sample_event 1, sample_event 2]))))) =
     (None, [sample_event 1])"
  using wal_crash_recovers_prefix [of "[sample_event 1, sample_event 2]" "''p''" 200]
  by (simp add: length_event_bytes)

text \<open>C16: \<open>Recover\<close> does not depend on how the operating system cuts the file into
  reads.\<close>

theorem wal_recover_read_sizes:
  "recover_loop [] [] (map ReadOk cs) = recover_loop [] [] (file_reads (concat cs))"
  by (simp add: recover_loop_bytes file_reads_def concat_chop)

text \<open>C27: A torn record at the end of the log swallows what is appended after it.  When a
  crash leaves at least the header of a record behind, reopening, recovering and appending a
  shorter event all report success, and the next recovery neither returns the new event nor
  reports an error.\<close>

theorem wal_append_after_torn_tail_lost:
  assumes "list_all event_exact es" and "event_fits torn" and "92 \<le> k"
    and "k + length (event_bytes e) < length (event_bytes torn)"
  shows "let w1 = snd (wal_Recover (opened_WAL path (Some (log_bytes es @ take k (event_bytes torn)))));
             (err, w2) = wal_Append IoOk w1 e
         in err = None \<and> fst (wal_Recover w2) = (None, es)"
proof -
  define w where "w = opened_WAL path (Some (log_bytes es @ take k (event_bytes torn)))"
  let ?tail = "take k (event_bytes torn)"
  have w: "\<not> wal_closed w" "wal_content w = log_bytes es @ ?tail" by (simp_all add: w_def opened_WAL_def)
  have "waiting ?tail" using waiting_take_event [OF assms(2)] assms(4) by simp
  from recover_log_tail [OF exact_fits [OF assms(1)] this]
  have "fst (recover_bytes (wal_content w) []) = None" by (simp add: w)
  from wal_Recover_pos [OF w(1) this]
  have w1: "snd (wal_Recover w) = w\<lparr>wal_pos := length (wal_content w)\<rparr>" .
  define w2 where "w2 = snd (wal_Append IoOk (snd (wal_Recover w)) e)"
  have app: "wal_Append IoOk (snd (wal_Recover w)) e = (None, w2)"
    and w2: "\<not> wal_closed w2" "wal_content w2 = log_bytes es @ (?tail @ event_bytes e)"
    using wal_Append_end [of "w\<lparr>wal_pos := length (wal_content w)\<rparr>" e] w
    by (simp_all add: w2_def w1)
  have "entry_total (?tail @ event_bytes e) = length (event_bytes torn)"
    using entry_total_take [OF assms(2,3)] assms(4) by simp
  then have "waiting (?tail @ event_bytes e)" using assms(4) by (simp add: waiting_def)
  from recover_log_tail [OF exact_fits [OF assms(1)] this]
  have "fst (wal_Recover w2) = (None, es)"
    using w2 by (simp add: fst_wal_Recover map_recovered_exact [OF assms(1)])
  with app show ?thesis by (simp add: w_def)
qed

theorem wal_append_after_torn_tail_witness:
  "let torn = (sample_event 2)\<lparr>ev_Payload := replicate 300 7\<rparr>;
       w1 = snd (wal_Recover (opened_WAL ''p'' (Some (log_bytes [sample_event 1] @ take 100 (event_bytes torn)))));
       (err, w2) = wal_Append IoOk w1 (sample_event 3)
   in err = None \<and> fst (wal_Recover w2) = (None, [sample_event 1])"
proof -
  let ?torn = "(sample_event 2)\<lparr>ev_Payload := replicate 300 7\<rparr>"
  have "event_fits ?torn" by (simp add: event_fits_def)
  moreover have "100 + length (event_bytes (sample_event 3)) < length (event_bytes ?torn)"
    by (simp add: length_event_bytes)
  ultimately show ?thesis
    using wal_append_after_torn_tail_lost [of "[sample_event 1]" ?torn 100 "sample_event 3" "''p''"]
    by (simp add: Let_def)
qed

text \<open>C28: Reopening a log and appending overwrites its beginning: the handle starts at offset
  0 and the file is not opened for appending, so with records of equal size the first event is
  gone, although every call reports success.\<close>

theorem wal_reopen_append_overwrites:
  assumes "list_all event_exact (e # es)" and "event_exact new"
    and "length (ev_Payload new) = length (ev_Payload e)"
  shows "let (err, w) = wal_Append IoOk (opened_WAL path (Some (log_bytes (e # es)))) new
         in err = None \<and> fst (wal_Recover w) = (None, new # es)"
proof -
  define w where "w = snd (wal_Append IoOk (opened_WAL path (Some (log_bytes (e # es)))) new)"
  have len: "length (event_bytes new) = length (event_bytes e)"
    using assms(3) by (simp add: length_event_bytes)
  have app: "wal_Append IoOk (opened_WAL path (Some (log_bytes (e # es)))) new = (None, w)"
    by (simp add: w_def wal_Append_def opened_WAL_def Let_def)
  have w: "\<not> wal_closed w" "wal_content w = log_bytes (new # es)"
    by (simp_all add: w_def wal_Append_def opened_WAL_def file_write_def Let_def write_at_def
        event_bytes_def [symmetric] len)
  have "list_all event_exact (new # es)" using assms by simp
  then have "fst (wal_Recover w) = (None, new # es)"
    using recover_exact [of "new # es"] by (simp only: fst_wal_Recover [OF w(1)] w(2))
  with app show ?thesis by simp
qed

theorem wal_reopen_append_witness:
  "let (err, w) = wal_Append IoOk (opened_WAL ''p'' (Some (log_bytes [sample_event 1, sample_event 2])))
         (sample_event 3)
   in err = None \<and> fst (wal_Recover w) = (None, [sample_event 3, sample_event 2])"
  using wal_reopen_append_overwrites [of "sample_event 1" "[sample_event 2]" "sample_event 3" "''p''"]
  by simp

text \<open>C29: Corruption of the length field is not detected: when the top byte of the first
  record's payload length is set in a log of at most 16 MiB, recovery takes the whole log for
  one incomplete record and returns no event and no error.\<close>

theorem wal_length_corruption_silent:
  assumes "list_all event_fits (e # es)" and "b \<noteq> 0" and "length (log_bytes (e # es)) \<le> 2 ^ 24"
  shows "fst (wal_Recover (opened_WAL path (Some ((log_bytes (e # es))[88 := b])))) = (None, [])"
proof -
  define bs where "bs = (log_bytes (e # es))[88 := b]"
  have len: "92 \<le> length bs" "length bs \<le> 2 ^ 24"
    using assms(3) by (simp_all add: bs_def length_event_bytes)
  define f where "f = take 4 (drop 88 bs)"
  have len4: "length f = 4" using len by (simp add: f_def)
  have "f ! 0 = b" using len by (simp add: f_def) (simp add: bs_def)
  with len4 have f: "f = b # tl f" by (cases f) auto
  have "2 ^ 24 \<le> unat b * 2 ^ 24"
    using assms(2) by (simp add: unat_gt_0 Suc_le_eq)
  also have "\<dots> \<le> be_val f"
    using len4 by (subst f) (simp add: be_val_Cons)
  finally have "2 ^ 24 \<le> be_val f" .
  then have "2 ^ 24 \<le> unat (get_u32_be f)"
    using be_val_bound [of f] len4 by (simp add: get_u32_be_def unat_of_nat)
  then have "waiting bs" using len by (simp add: waiting_def entry_total_def f_def)
  then show ?thesis
    by (simp add: bs_def fst_wal_Recover opened_WAL_def recover_bytes_def)
qed

theorem wal_length_corruption_witness:
  "fst (wal_Recover (opened_WAL ''p'' (Some ((log_bytes [sample_event 1, sample_event 2])[88 := 1])))) =
     (None, [])"
proof -
  have "list_all event_fits [sample_event 1, sample_event 2]"
    by (simp add: event_fits_def)
  moreover have "length (log_bytes [sample_event 1, sample_event 2]) \<le> 2 ^ 24"
    by (simp add: length_event_bytes)
  ultimately show ?thesis
    using wal_length_corruption_silent [of "sample_event 1" "[sample_event 2]" 1 "''p''"] by simp
qed

end
