(* ===== verification/Decimal.thy ===== *)
theory Decimal
  imports Prelude
begin

text \<open>
  The decimal conversion that two packages write by hand (\<open>u64\<close> in
  \<open>pkg/consensus/engine.go\<close> and \<open>formatUint64\<close> in \<open>pkg/snapshot/store.go\<close>): the same
  loop writes digits from the end of a 20-byte array.  A write outside the array is a panic,
  here \<open>None\<close>.
\<close>

function dec_loop :: "u64 \<Rightarrow> nat \<Rightarrow> string \<Rightarrow> (nat \<times> string) option" where
  "dec_loop v n buf =
     (if v = 0 then Some (n, buf)
      else if 19 < n then None
      else dec_loop (v div 10) (n + 1) (buf[19 - n := char_of (48 + unat (v mod 10))]))"
  by pat_completeness auto
termination
proof (relation "measure (\<lambda>(v, n, buf). unat v)")
  fix v :: u64 and n :: nat and buf :: string
  assume "v \<noteq> 0"
  then have "0 < unat v" by (simp add: unat_gt_0)
  then have "unat v div 10 < unat v" by simp
  then show "((v div 10, n + 1, buf[19 - n := char_of (48 + unat (v mod 10))]), (v, n, buf))
      \<in> measure (\<lambda>(v, n, buf). unat v)"
    by (simp add: unat_div)
qed simp

declare dec_loop.simps [simp del]

lemma dec_loop_0 [simp]: "dec_loop 0 n buf = Some (n, buf)"
  by (subst dec_loop.simps) simp

lemma dec_loop_digits:
  "unat v < 10 ^ (20 - n) \<Longrightarrow> n \<le> 20 \<Longrightarrow> length buf = 20 \<Longrightarrow> v \<noteq> 0 \<Longrightarrow>
     \<exists>m buf'. dec_loop v n buf = Some (m, buf') \<and>
       drop (20 - m) buf' = dec_of_nat (unat v) @ drop (20 - n) buf"
proof (induction v n buf rule: dec_loop.induct)
  case (1 v n buf)
  let ?buf = "buf[19 - n := char_of (48 + unat (v mod 10))]"
  have n: "n < 20" using 1(2,3,5) by (cases "n = 20") (auto simp: unat_eq_0)
  then have pow: "10 ^ (20 - n) = 10 * (10 :: nat) ^ (20 - Suc n)"
    by (metis Suc_diff_Suc power_Suc)
  have step: "dec_loop v n buf = dec_loop (v div 10) (n + 1) ?buf"
    using 1(5) n by (subst dec_loop.simps) simp
  have mod: "unat (v mod 10) = unat v mod 10" by (simp add: unat_mod)
  have div: "unat (v div 10) = unat v div 10" by (simp add: unat_div)
  have last: "drop (20 - (n + 1)) ?buf = digit_char (unat v mod 10) # drop (20 - n) buf"
  proof -
    have eq: "20 - (n + 1) = 19 - n" "20 - n = Suc (19 - n)" using n by simp_all
    show ?thesis
      using 1(4) n unfolding eq
      by (simp add: Cons_nth_drop_Suc [symmetric] digit_char_def mod)
  qed
  show ?case
  proof (cases "v div 10 = 0")
    case True
    then have "unat v < 10" using div by simp
    then have "dec_of_nat (unat v) = [digit_char (unat v mod 10)]"
      by (subst dec_of_nat.simps) simp
    with last step True show ?thesis by auto
  next
    case False
    then have big: "\<not> unat v < 10" using div by (metis div_less unat_eq_0)
    have "unat (v div 10) < 10 ^ (20 - (n + 1))"
      using 1(2) div pow by (simp add: less_mult_imp_div_less mult.commute)
    with 1(1) [OF 1(5) _ this] n 1(4) False obtain m buf' where
      m: "dec_loop (v div 10) (n + 1) ?buf = Some (m, buf')"
        "drop (20 - m) buf' = dec_of_nat (unat (v div 10)) @ drop (20 - (n + 1)) ?buf"
      by auto
    have "dec_of_nat (unat v) = dec_of_nat (unat (v div 10)) @ [digit_char (unat v mod 10)]"
      using big div by (subst dec_of_nat.simps) simp
    with m last step show ?thesis by auto
  qed
qed

lemma dec_loop_all:
  assumes "v \<noteq> 0"
  shows "\<exists>m buf. dec_loop v 0 (replicate 20 (char_of (0 :: nat))) = Some (m, buf) \<and>
    drop (20 - m) buf = dec_of_nat (unat v)"
proof -
  have "unat v < 18446744073709551616" by simp
  also have "\<dots> < 10 ^ (20 - 0)" by simp
  finally have "unat v < 10 ^ (20 - 0)" .
  from dec_loop_digits [OF this _ _ assms, of "replicate 20 (char_of (0 :: nat))"]
  show ?thesis by auto
qed

end
