(* ===== verification/Consensus.thy ===== *)
theory Consensus
  imports Interfaces Decimal
begin

text \<open>
  The event store of the consensus engine (\<open>pkg/consensus/engine.go\<close>, lines 43 to 127): an
  append-only log with, per trace, the last sequence number and the last hash.  Below the
  code's definitions stands the abstract specification the repository gives for it
  (\<open>pkg/formal/spec.go\<close>, \<open>BuildEventStoreSpec\<close>): a log, and per trace a counter and a hash
  that start at 0 and the empty string.  The store refines that specification as long as no
  trace holds 2 to the 64 events.
\<close>

section \<open>EventStore\<close>

record cons_Event =
  ce_TraceID :: string
  ce_Seq :: u64
  ce_PrevHash :: string
  ce_EventHash :: string

record EventStore =
  es_log :: "cons_Event list"
  es_lastSeq :: "string \<rightharpoonup> u64"
  es_lastHash :: "string \<rightharpoonup> string"

datatype append_kind =
  seq_violation | first_seq_not_1 | hash_violation_str | first_prevhash_not_empty

record AppendError =
  ae_TraceID :: string
  ae_Kind :: append_kind
  ae_Have :: u64
  ae_Want :: u64

definition NewEventStore :: EventStore where
  "NewEventStore = \<lparr>es_log = [], es_lastSeq = Map.empty, es_lastHash = Map.empty\<rparr>"

definition seq_check :: "EventStore \<Rightarrow> cons_Event \<Rightarrow> AppendError option" where
  "seq_check es e =
     (case es_lastSeq es (ce_TraceID e) of
        Some lastSeq \<Rightarrow>
          if ce_Seq e \<noteq> lastSeq + 1
          then Some \<lparr>ae_TraceID = ce_TraceID e, ae_Kind = seq_violation, ae_Have = ce_Seq e,
                     ae_Want = lastSeq + 1\<rparr>
          else None
      | None \<Rightarrow>
          if ce_Seq e \<noteq> 1
          then Some \<lparr>ae_TraceID = ce_TraceID e, ae_Kind = first_seq_not_1, ae_Have = ce_Seq e,
                     ae_Want = 1\<rparr>
          else None)"

definition hash_check :: "EventStore \<Rightarrow> cons_Event \<Rightarrow> AppendError option" where
  "hash_check es e =
     (case es_lastHash es (ce_TraceID e) of
        Some lastHash \<Rightarrow>
          if ce_PrevHash e \<noteq> lastHash
          then Some \<lparr>ae_TraceID = ce_TraceID e, ae_Kind = hash_violation_str, ae_Have = 0,
                     ae_Want = 0\<rparr>
          else None
      | None \<Rightarrow>
          if ce_PrevHash e \<noteq> []
          then Some \<lparr>ae_TraceID = ce_TraceID e, ae_Kind = first_prevhash_not_empty, ae_Have = 0,
                     ae_Want = 0\<rparr>
          else None)"

definition store_Append :: "EventStore \<Rightarrow> cons_Event \<Rightarrow> AppendError + EventStore" where
  "store_Append es e =
     (case seq_check es e of
        Some err \<Rightarrow> Inl err
      | None \<Rightarrow>
          (case hash_check es e of
             Some err \<Rightarrow> Inl err
           | None \<Rightarrow>
               Inr \<lparr>es_log = es_log es @ [e],
                    es_lastSeq = (es_lastSeq es)(ce_TraceID e \<mapsto> ce_Seq e),
                    es_lastHash = (es_lastHash es)(ce_TraceID e \<mapsto> ce_EventHash e)\<rparr>))"

lemmas store_defs = seq_check_def hash_check_def store_Append_def

text \<open>The text of an error, with the package's own decimal conversion; \<open>None\<close> would be an
  index out of range.\<close>

definition cons_u64 :: "u64 \<Rightarrow> string option" where
  "cons_u64 v =
     (if v = 0 then Some ''0''
      else map_option (\<lambda>(n, buf). drop (20 - n) buf)
             (dec_loop v 0 (replicate 20 (char_of (0 :: nat)))))"

definition kind_text :: "append_kind \<Rightarrow> string" where
  "kind_text k =
     (case k of seq_violation \<Rightarrow> ''seq_violation'' | first_seq_not_1 \<Rightarrow> ''first_seq_not_1''
      | hash_violation_str \<Rightarrow> ''hash_violation_str''
      | first_prevhash_not_empty \<Rightarrow> ''first_prevhash_not_empty'')"

definition AppendError_Error :: "AppendError \<Rightarrow> string option" where
  "AppendError_Error e =
     (case (cons_u64 (ae_Have e), cons_u64 (ae_Want e)) of
        (Some have, Some want) \<Rightarrow>
          Some (''consensus: append error traceID='' @ ae_TraceID e @ '' kind='' @
                kind_text (ae_Kind e) @ '' have='' @ have @ '' want='' @ want)
      | _ \<Rightarrow> None)"

text \<open>The hand-written decimal conversion never leaves its 20-byte buffer and prints
  every 64-bit value as \<open>%d\<close> would, so its text reads back as the value.\<close>

lemma cons_u64_correct: "\<exists>s. cons_u64 v = Some s \<and> s = fmt_u64 v \<and> dec_val s = unat v"
proof (cases "v = 0")
  case True
  have "''0'' = dec_of_nat 0" by code_simp
  with True show ?thesis by (simp add: cons_u64_def fmt_u64_def)
next
  case False
  from dec_loop_all [OF False] show ?thesis
    by (auto simp: cons_u64_def False fmt_u64_def)
qed

section \<open>What the store keeps true\<close>

definition trace_events :: "string \<Rightarrow> cons_Event list \<Rightarrow> cons_Event list" where
  "trace_events t es = filter (\<lambda>e. ce_TraceID e = t) es"

text \<open>A trace is numbered from 1 and each event names the hash of its predecessor.\<close>

fun chained :: "u64 \<Rightarrow> string \<Rightarrow> cons_Event list \<Rightarrow> bool" where
  "chained n h [] = True"
| "chained n h (e # es) =
     (ce_Seq e = n + 1 \<and> ce_PrevHash e = h \<and> chained (ce_Seq e) (ce_EventHash e) es)"

definition valid_log :: "cons_Event list \<Rightarrow> bool" where
  "valid_log es \<longleftrightarrow> (\<forall>t. chained 0 [] (trace_events t es))"

definition last_or :: "'b \<Rightarrow> ('a \<Rightarrow> 'b) \<Rightarrow> 'a list \<Rightarrow> 'b" where
  "last_or d f xs = (if xs = [] then d else f (last xs))"

lemma last_or_simps [simp]:
  "last_or d f [] = d" "last_or d f (x # xs) = last_or (f x) f xs" "last_or d f (xs @ [x]) = f x"
  by (auto simp: last_or_def)

definition store_inv :: "EventStore \<Rightarrow> bool" where
  "store_inv s \<longleftrightarrow> valid_log (es_log s) \<and>
     (\<forall>t. es_lastSeq s t = last_or None (\<lambda>e. Some (ce_Seq e)) (trace_events t (es_log s)) \<and>
          es_lastHash s t = last_or None (\<lambda>e. Some (ce_EventHash e)) (trace_events t (es_log s)))"

lemma trace_events_snoc [simp]:
  "trace_events t (es @ [e]) = (if ce_TraceID e = t then trace_events t es @ [e] else trace_events t es)"
  by (simp add: trace_events_def)

lemma chained_snoc:
  "chained n h (es @ [e]) \<longleftrightarrow>
     chained n h es \<and> ce_Seq e = last_or n ce_Seq es + 1 \<and> ce_PrevHash e = last_or h ce_EventHash es"
  by (induction es arbitrary: n h) auto

lemma chained_last_seq: "chained n h es \<Longrightarrow> last_or n ce_Seq es = n + of_nat (length es)"
proof (induction es arbitrary: n h)
  case (Cons e es)
  then have "last_or (ce_Seq e) ce_Seq es = ce_Seq e + of_nat (length es)" "ce_Seq e = n + 1"
    by auto
  then show ?case by (simp add: add.assoc)
qed simp

lemma chained_nth: "chained n h es \<Longrightarrow> i < length es \<Longrightarrow> ce_Seq (es ! i) = n + of_nat (Suc i)"
proof (induction es arbitrary: n h i)
  case (Cons e es)
  then show ?case by (cases i) (auto simp: algebra_simps)
qed simp

lemma valid_log_snoc:
  "valid_log (es @ [e]) \<longleftrightarrow> valid_log es \<and>
     ce_Seq e = last_or 0 ce_Seq (trace_events (ce_TraceID e) es) + 1 \<and>
     ce_PrevHash e = last_or [] ce_EventHash (trace_events (ce_TraceID e) es)"
  by (auto simp: valid_log_def chained_snoc)

lemma store_inv_New [simp]: "store_inv NewEventStore"
  by (simp add: store_inv_def NewEventStore_def valid_log_def trace_events_def last_or_def)

text \<open>Under the invariant an append succeeds exactly when the longer log is still valid.\<close>

lemma store_Append_cases:
  assumes "store_inv s"
  shows "(\<exists>s'. store_Append s e = Inr s') \<longleftrightarrow> valid_log (es_log s @ [e])"
  using assms unfolding store_inv_def valid_log_snoc
  by (auto simp: store_defs last_or_def split: option.splits if_splits)

lemma store_Append_log: "store_Append s e = Inr s' \<Longrightarrow> es_log s' = es_log s @ [e]"
  by (auto simp: store_Append_def split: option.splits)

lemma store_inv_Append:
  assumes "store_inv s" "store_Append s e = Inr s'"
  shows "store_inv s'"
proof -
  have "valid_log (es_log s')"
    using store_Append_cases [OF assms(1), of e] assms(2) store_Append_log [OF assms(2)] by auto
  moreover have "s' = \<lparr>es_log = es_log s @ [e],
      es_lastSeq = (es_lastSeq s)(ce_TraceID e \<mapsto> ce_Seq e),
      es_lastHash = (es_lastHash s)(ce_TraceID e \<mapsto> ce_EventHash e)\<rparr>"
    using assms(2) by (auto simp: store_Append_def split: option.splits)
  ultimately show ?thesis
    using assms(1) by (simp add: store_inv_def)
qed

interpretation store_log: append_log store_Append es_log "\<lambda>e. e" "\<lambda>_. True" store_inv
  by unfold_locales (auto simp: store_Append_log intro: store_inv_Append)

text \<open>C12: Appending a list of events to an empty store succeeds exactly when every trace in
  it is numbered 1, 2, 3, \<dots> and hash-chained from the empty string, however the traces are
  interleaved, and then the store's log is that list.\<close>

theorem store_accepts_valid_logs:
  "(\<exists>s. run_steps store_Append NewEventStore es = Inr s \<and> es_log s = es) \<longleftrightarrow> valid_log es"
proof (induction es rule: rev_induct)
  case Nil
  then show ?case by (simp add: NewEventStore_def valid_log_def trace_events_def)
next
  case (snoc e es)
  have log: "run_steps store_Append NewEventStore fs = Inr s \<Longrightarrow> es_log s = fs \<and> store_inv s" for fs s
    using store_log.run_view [of NewEventStore fs s] store_log.run_inv [of NewEventStore fs s]
      store_inv_New
    by (simp add: list_all_iff) (simp add: NewEventStore_def)
  show ?case
  proof
    assume "\<exists>s. run_steps store_Append NewEventStore (es @ [e]) = Inr s \<and> es_log s = es @ [e]"
    then obtain s s' where "run_steps store_Append NewEventStore es = Inr s'" "store_Append s' e = Inr s"
      by (auto elim: run_steps_snocE)
    with log show "valid_log (es @ [e])" using store_Append_cases by blast
  next
    assume valid: "valid_log (es @ [e])"
    then have "valid_log es" by (simp add: valid_log_snoc)
    with snoc obtain s where s: "run_steps store_Append NewEventStore es = Inr s" by blast
    with log valid obtain s' where "store_Append s e = Inr s'" using store_Append_cases by metis
    with s have "run_steps store_Append NewEventStore (es @ [e]) = Inr s'"
      by (simp add: run_steps_append)
    with log show "\<exists>s. run_steps store_Append NewEventStore (es @ [e]) = Inr s \<and> es_log s = es @ [e]"
      by blast
  qed
qed

section \<open>The abstract event store\<close>

text \<open>
  The specification the repository writes in TLA+, over the integers: \<open>seq\<close> holds the last number
  of each trace and \<open>hash\<close> its last hash; an event is enabled when \<open>seq[e.trace] + 1 = e.seq\<close> and
  \<open>e.prevHash = hash[e.trace]\<close>.  The event is an argument (the text takes the head of an undeclared
  \<open>filter\<close>).  The action does not mention \<open>clock\<close>, which keeps its value here.
\<close>

record SpecStore =
  sp_log :: "cons_Event list"
  sp_seq :: "string \<Rightarrow> int"
  sp_hash :: "string \<Rightarrow> string"
  sp_clock :: int

definition spec_Init :: SpecStore where
  "spec_Init = \<lparr>sp_log = [], sp_seq = (\<lambda>_. 0), sp_hash = (\<lambda>_. []), sp_clock = 0\<rparr>"

definition spec_Append :: "SpecStore \<Rightarrow> cons_Event \<Rightarrow> unit + SpecStore" where
  "spec_Append a e =
     (if sp_seq a (ce_TraceID e) + 1 = uint (ce_Seq e) \<and> ce_PrevHash e = sp_hash a (ce_TraceID e)
      then Inr \<lparr>sp_log = sp_log a @ [e],
                sp_seq = (sp_seq a)(ce_TraceID e := uint (ce_Seq e)),
                sp_hash = (sp_hash a)(ce_TraceID e := ce_EventHash e),
                sp_clock = sp_clock a\<rparr>
      else Inl ())"

text \<open>
  The same with numbers of 64 bits: \<open>seq\<close> counts the events of each trace, and the guard is read
  modulo 2 to the 64.  The two agree as long as no trace has 2 to the 64 events.
\<close>

record AbsStore =
  as_log :: "cons_Event list"
  as_seq :: "string \<Rightarrow> nat"
  as_hash :: "string \<Rightarrow> string"

definition abs_Init :: AbsStore where
  "abs_Init = \<lparr>as_log = [], as_seq = (\<lambda>_. 0), as_hash = (\<lambda>_. [])\<rparr>"

definition abs_Append :: "AbsStore \<Rightarrow> cons_Event \<Rightarrow> unit + AbsStore" where
  "abs_Append a e =
     (if of_nat (as_seq a (ce_TraceID e)) + 1 = ce_Seq e \<and> ce_PrevHash e = as_hash a (ce_TraceID e)
      then Inr \<lparr>as_log = as_log a @ [e],
                as_seq = (as_seq a)(ce_TraceID e := as_seq a (ce_TraceID e) + 1),
                as_hash = (as_hash a)(ce_TraceID e := ce_EventHash e)\<rparr>
      else Inl ())"

definition abs_of :: "EventStore \<Rightarrow> AbsStore" where
  "abs_of s =
     \<lparr>as_log = es_log s, as_seq = (\<lambda>t. length (trace_events t (es_log s))),
      as_hash = (\<lambda>t. case es_lastHash s t of None \<Rightarrow> [] | Some h \<Rightarrow> h)\<rparr>"

lemma store_inv_seq:
  "store_inv s \<Longrightarrow> of_nat (length (trace_events t (es_log s))) = last_or 0 ce_Seq (trace_events t (es_log s))"
  using chained_last_seq [of 0 "[]" "trace_events t (es_log s)"]
  by (simp add: store_inv_def valid_log_def)

lemma store_inv_hash:
  "store_inv s \<Longrightarrow> (case es_lastHash s t of None \<Rightarrow> [] | Some h \<Rightarrow> h) =
     last_or [] ce_EventHash (trace_events t (es_log s))"
  by (simp add: store_inv_def last_or_def)

lemma abs_Append_enabled:
  assumes "store_inv s"
  shows "(\<exists>a. abs_Append (abs_of s) e = Inr a) \<longleftrightarrow> valid_log (es_log s @ [e])"
proof -
  have valid: "valid_log (es_log s)" using assms by (simp add: store_inv_def)
  show ?thesis
    by (auto simp: abs_Append_def abs_of_def valid_log_snoc valid store_inv_seq [OF assms]
        store_inv_hash [OF assms])
qed

lemma abs_of_Append:
  assumes "store_inv s" "store_Append s e = Inr s'"
  shows "abs_Append (abs_of s) e = Inr (abs_of s')"
proof -
  have "valid_log (es_log s @ [e])" using store_Append_cases [OF assms(1)] assms(2) by blast
  then obtain a where a: "abs_Append (abs_of s) e = Inr a" using abs_Append_enabled [OF assms(1)] by blast
  have "s' = \<lparr>es_log = es_log s @ [e],
      es_lastSeq = (es_lastSeq s)(ce_TraceID e \<mapsto> ce_Seq e),
      es_lastHash = (es_lastHash s)(ce_TraceID e \<mapsto> ce_EventHash e)\<rparr>"
    using assms(2) by (auto simp: store_Append_def split: option.splits)
  with a show ?thesis
    by (auto simp: abs_Append_def abs_of_def fun_eq_iff split: if_splits)
qed

interpretation store_spec: fallible_refinement store_Append abs_Append "\<lambda>e. e"
    "\<lambda>s a. store_inv s \<and> a = abs_of s"
proof
  fix s a e s' err
  show "store_inv s \<and> a = abs_of s \<Longrightarrow> store_Append s e = Inr s' \<Longrightarrow>
      \<exists>a'. abs_Append a e = Inr a' \<and> store_inv s' \<and> a' = abs_of s'"
    using abs_of_Append store_inv_Append by blast
  assume inv: "store_inv s \<and> a = abs_of s" and "store_Append s e = Inl err"
  then have "\<not> valid_log (es_log s @ [e])" using store_Append_cases [of s e] by auto
  with inv show "\<exists>y. abs_Append a e = Inl y"
    using abs_Append_enabled [of s e] by (cases "abs_Append a e") auto
qed

definition spec_of_abs :: "AbsStore \<Rightarrow> SpecStore" where
  "spec_of_abs a =
     \<lparr>sp_log = as_log a, sp_seq = (\<lambda>t. int (as_seq a t)), sp_hash = as_hash a, sp_clock = 0\<rparr>"

lemma uint_number: "n + 1 < 2 ^ 64 \<Longrightarrow> int n + 1 = uint (w :: u64) \<longleftrightarrow> of_nat n + 1 = w"
proof -
  assume n: "n + 1 < 2 ^ 64"
  have "uint w = int (unat w)" by simp
  then have "int n + 1 = uint w \<longleftrightarrow> n + 1 = unat w" by linarith
  also have "\<dots> \<longleftrightarrow> of_nat (n + 1) = w"
    unfolding word_unat_eq_iff [of "of_nat (n + 1)"] unat_of_nat_u64 [OF n] ..
  finally show ?thesis by (simp add: add.commute)
qed

lemma spec_Append_abs:
  assumes "as_seq a (ce_TraceID e) + 1 < 2 ^ 64"
  shows "spec_Append (spec_of_abs a) e = map_sum id spec_of_abs (abs_Append a e)"
proof -
  have "int (as_seq a (ce_TraceID e)) + 1 = uint (ce_Seq e) \<longleftrightarrow> of_nat (as_seq a (ce_TraceID e)) + 1 = ce_Seq e"
    by (rule uint_number [OF assms])
  then show ?thesis
    by (auto simp: spec_Append_def abs_Append_def spec_of_abs_def fun_eq_iff)
qed

lemma spec_run_abs:
  "(\<And>t. as_seq a t + length (trace_events t es) < 2 ^ 64) \<Longrightarrow>
   run_steps spec_Append (spec_of_abs a) es = map_sum id spec_of_abs (run_steps abs_Append a es)"
proof (induction es arbitrary: a)
  case (Cons e es)
  have "as_seq a (ce_TraceID e) + 1 < 2 ^ 64" using Cons.prems [of "ce_TraceID e"] by (simp add: trace_events_def)
  note step = spec_Append_abs [OF this]
  show ?case
  proof (cases "abs_Append a e")
    case (Inr a')
    have "as_seq a' t + length (trace_events t es) < 2 ^ 64" for t
      using Inr Cons.prems [of t] by (auto simp: abs_Append_def trace_events_def split: if_splits)
    from Cons.IH [OF this] Inr step show ?thesis by simp
  qed (simp add: step)
qed simp

text \<open>C5: The store refines the repository's abstract specification: from the empty store a
  list of appends succeeds exactly when the specification, its guard read modulo 2 to the 64, can
  take it, and the final store abstracts to the specification's final state, with \<open>seq\<close> the number
  of events of each trace (INV2) and \<open>hash\<close> its last hash (INV3).  As long as no trace has 2 to
  the 64 events, the same holds of the specification as it is written, over the integers.\<close>

theorem store_refines_spec:
  "((\<exists>s. run_steps store_Append NewEventStore es = Inr s) \<longleftrightarrow>
     (\<exists>a. run_steps abs_Append abs_Init es = Inr a)) \<and>
   (\<forall>s. run_steps store_Append NewEventStore es = Inr s \<longrightarrow>
     run_steps abs_Append abs_Init es = Inr (abs_of s)) \<and>
   ((\<forall>t. length (trace_events t es) < 2 ^ 64) \<longrightarrow>
     (case run_steps store_Append NewEventStore es of
        Inl _ \<Rightarrow> run_steps spec_Append spec_Init es = Inl ()
      | Inr s \<Rightarrow> run_steps spec_Append spec_Init es = Inr (spec_of_abs (abs_of s))))"
proof -
  have init: "store_inv NewEventStore \<and> abs_Init = abs_of NewEventStore"
    by (simp add: abs_Init_def abs_of_def) (simp add: NewEventStore_def trace_events_def)
  note machine = store_spec.run_succeeds_iff [OF init, of es] store_spec.run_sim [OF init, of es]
  have "case run_steps store_Append NewEventStore es of
        Inl _ \<Rightarrow> run_steps spec_Append spec_Init es = Inl ()
      | Inr s \<Rightarrow> run_steps spec_Append spec_Init es = Inr (spec_of_abs (abs_of s))"
    if "\<forall>t. length (trace_events t es) < 2 ^ 64"
  proof -
    have "spec_Init = spec_of_abs abs_Init" by (simp add: spec_Init_def spec_of_abs_def abs_Init_def)
    then have "run_steps spec_Append spec_Init es = map_sum id spec_of_abs (run_steps abs_Append abs_Init es)"
      using spec_run_abs [of abs_Init es] that by (simp add: abs_Init_def)
    then show ?thesis
      using machine by (cases "run_steps abs_Append abs_Init es"; cases "run_steps store_Append NewEventStore es") auto
  qed
  with machine show ?thesis by auto
qed

theorem store_refines_spec_witness:
  "run_steps abs_Append abs_Init
     [\<lparr>ce_TraceID = ''a'', ce_Seq = 1, ce_PrevHash = [], ce_EventHash = ''h''\<rparr>] =
   Inr (abs_of \<lparr>es_log = [\<lparr>ce_TraceID = ''a'', ce_Seq = 1, ce_PrevHash = [], ce_EventHash = ''h''\<rparr>],
                es_lastSeq = [''a'' \<mapsto> 1], es_lastHash = [''a'' \<mapsto> ''h'']\<rparr>)"
  using store_refines_spec [of "[\<lparr>ce_TraceID = ''a'', ce_Seq = 1, ce_PrevHash = [], ce_EventHash = ''h''\<rparr>]"]
  by (simp add: store_defs NewEventStore_def)

lemma distinct_by_key: "(\<And>t. distinct (filter (\<lambda>e. f e = t) xs)) \<Longrightarrow> distinct xs"
proof (induction xs)
  case (Cons x xs)
  from Cons.prems [of "f x"] have "x \<notin> set xs" by simp
  moreover have "distinct (filter (\<lambda>e. f e = t) xs)" for t
    using Cons.prems [of t] by (auto split: if_splits)
  ultimately show ?case using Cons.IH by simp
qed simp

text \<open>No event is logged twice (INV5 of the specification), as long as no trace holds
  2 to the 64 events: the pair of trace and sequence number identifies an event of the log.\<close>

lemma store_log_distinct:
  assumes "run_steps store_Append NewEventStore es = Inr s"
    and "\<And>t. length (trace_events t es) < 2 ^ 64"
  shows "distinct (map (\<lambda>e. (ce_TraceID e, ce_Seq e)) (es_log s))"
proof -
  have log: "es_log s = es" and inv: "store_inv s"
    using store_log.run_view [of NewEventStore es s] store_log.run_inv [of NewEventStore es s]
      store_inv_New assms(1)
    by (simp_all add: list_all_iff) (simp add: NewEventStore_def)
  have "distinct (map ce_Seq (trace_events t es))" for t
  proof -
    have ch: "chained 0 [] (trace_events t es)" using inv log by (simp add: store_inv_def valid_log_def)
    have "i = j" if "i < length (trace_events t es)" "j < length (trace_events t es)"
      "ce_Seq (trace_events t es ! i) = ce_Seq (trace_events t es ! j)" for i j
    proof -
      from that have "(of_nat (Suc i) :: u64) = of_nat (Suc j)"
        using chained_nth [OF ch] by simp
      moreover have "i < 18446744073709551616" "j < 18446744073709551616"
        using that assms(2) [of t] by simp_all
      then have "unat (of_nat i :: u64) = i" "unat (of_nat j :: u64) = j"
        by (simp_all add: unat_of_nat)
      ultimately show "i = j" by (metis add_left_cancel of_nat_Suc)
    qed
    then show ?thesis by (simp add: distinct_conv_nth) blast
  qed
  then have "distinct (filter (\<lambda>k. fst k = t) (map (\<lambda>e. (ce_TraceID e, ce_Seq e)) es))" for t
    by (auto simp: filter_map trace_events_def comp_def distinct_map inj_on_def)
  then show ?thesis unfolding log by (rule distinct_by_key [where f = fst])
qed

text \<open>The specification's INV1 and INV4 chain the whole log, not each trace; a store with two
  traces breaks both.\<close>

definition tla_INV1 :: "cons_Event list \<Rightarrow> bool" where
  "tla_INV1 log \<longleftrightarrow> list_all (\<lambda>i. unat (ce_Seq (log ! i)) = i + 1 \<and>
     ce_PrevHash (log ! i) = (if i > 0 then ce_EventHash (log ! (i - 1)) else [])) [0..<length log]"

text \<open>The specification's INV1 (the i-th event of the log has sequence number i and chains
  to the one before it) is not an invariant of the store: two traces are enough to break it.\<close>

lemma store_breaks_tla_INV1:
  "\<exists>es s. run_steps store_Append NewEventStore es = Inr s \<and> \<not> tla_INV1 (es_log s)"
proof -
  let ?es = "[\<lparr>ce_TraceID = ''a'', ce_Seq = 1, ce_PrevHash = [], ce_EventHash = ''h''\<rparr>,
             \<lparr>ce_TraceID = ''b'', ce_Seq = 1, ce_PrevHash = [], ce_EventHash = ''h''\<rparr>]"
  obtain s where "run_steps store_Append NewEventStore ?es = Inr s" "es_log s = ?es"
    by (simp add: store_defs NewEventStore_def)
  moreover have "\<not> tla_INV1 ?es" by (simp add: tla_INV1_def upt_rec)
  ultimately show ?thesis by metis
qed

end
