(* ===== verification/ConsensusNode.thy ===== *)
theory ConsensusNode
  imports Consensus "HOL-Library.Product_Lexorder"
begin

text \<open>
  The consensus node (\<open>pkg/consensus/engine.go\<close>, lines 11 to 41 and 129 to 297): roles,
  messages, leader election, quorum, commit, the two checks over a set of nodes and the
  message handler; then a cluster in which any message may reach any node and any node may
  advance its term, in any order.
\<close>

section \<open>Nodes and messages\<close>

text \<open>\<open>NodeState\<close> is an \<open>int\<close> with three named values.\<close>

datatype NodeState = NodeState (state_num: i64)

definition StateFollower :: NodeState where
  "StateFollower = NodeState 0"

definition StateCandidate :: NodeState where
  "StateCandidate = NodeState 1"

definition StateLeader :: NodeState where
  "StateLeader = NodeState 2"

lemma NodeState_distinct [simp]:
  "StateFollower \<noteq> StateCandidate" "StateFollower \<noteq> StateLeader" "StateCandidate \<noteq> StateLeader"
  "StateCandidate \<noteq> StateFollower" "StateLeader \<noteq> StateFollower" "StateLeader \<noteq> StateCandidate"
  by (simp_all add: StateFollower_def StateCandidate_def StateLeader_def)

instantiation NodeState :: linorder
begin

definition less_eq_NodeState :: "NodeState \<Rightarrow> NodeState \<Rightarrow> bool" where
  "less_eq_NodeState a b \<longleftrightarrow> sint (state_num a) \<le> sint (state_num b)"

definition less_NodeState :: "NodeState \<Rightarrow> NodeState \<Rightarrow> bool" where
  "less_NodeState a b \<longleftrightarrow> sint (state_num a) < sint (state_num b)"

instance
proof
  fix a b :: NodeState
  assume "a \<le> b" "b \<le> a"
  then have "sint (state_num a) = sint (state_num b)" by (simp add: less_eq_NodeState_def)
  then have "state_num a = state_num b" by (rule word_eq_iff_signed [THEN iffD2])
  then show "a = b" by (rule NodeState.expand)
qed (auto simp: less_eq_NodeState_def less_NodeState_def)

end

definition NodeState_String :: "NodeState \<Rightarrow> string" where
  "NodeState_String s =
     (if s = StateFollower then ''follower''
      else if s = StateCandidate then ''candidate''
      else if s = StateLeader then ''leader''
      else ''unknown'')"

record Message =
  m_Type :: string
  m_Term :: u64
  m_FromID :: string
  m_TraceID :: string
  m_Seq :: u64
  m_EventHash :: string

record Action =
  a_Type :: string
  a_NodeID :: string
  a_Target :: string
  a_Term :: u64

record ConsensusNode =
  cn_ID :: string
  cn_Store :: EventStore
  cn_State :: NodeState
  cn_Term :: u64
  cn_VotedFor :: string

definition NewConsensusNode :: "string \<Rightarrow> ConsensusNode" where
  "NewConsensusNode nodeID =
     \<lparr>cn_ID = nodeID, cn_Store = NewEventStore, cn_State = StateFollower, cn_Term = 0,
      cn_VotedFor = []\<rparr>"

section \<open>Election, quorum, commit\<close>

fun elect_loop :: "u64 \<times> nat \<times> string \<Rightarrow> ConsensusNode list \<Rightarrow> string" where
  "elect_loop (maxTerm, maxSeqLen, leaderID) [] = leaderID"
| "elect_loop (maxTerm, maxSeqLen, leaderID) (n # ns) =
     (let logLen = length (es_log (cn_Store n))
      in if cn_Term n > maxTerm \<or> (cn_Term n = maxTerm \<and> logLen > maxSeqLen)
         then elect_loop (cn_Term n, logLen, cn_ID n) ns
         else elect_loop (maxTerm, maxSeqLen, leaderID) ns)"

definition ElectLeader :: "ConsensusNode list \<Rightarrow> string" where
  "ElectLeader nodes = elect_loop (0, 0, []) nodes"

definition QuorumReached :: "ConsensusNode list \<Rightarrow> u64 \<Rightarrow> u64 \<Rightarrow> bool" where
  "QuorumReached nodes tick threshold \<longleftrightarrow>
     (let count = foldl (\<lambda>count n. if cn_Term n > 0 then count + 1 else count) (0 :: u64) nodes
      in count \<ge> threshold)"

text \<open>The argument is a slice length, so it is not negative and Go's division agrees with
  \<open>div\<close>.\<close>

definition GEB_THRESHOLD :: "nat \<Rightarrow> u64" where
  "GEB_THRESHOLD n = of_nat (n div 2) + 1"

definition CommitEntry :: "ConsensusNode \<Rightarrow> cons_Event \<Rightarrow> ConsensusNode list \<Rightarrow> u64 \<Rightarrow>
    bool \<times> ConsensusNode" where
  "CommitEntry node e nodes tick =
     (if \<not> QuorumReached nodes tick (GEB_THRESHOLD (length nodes)) then (False, node)
      else case store_Append (cn_Store node) e of
             Inl _ \<Rightarrow> (False, node)
           | Inr s \<Rightarrow> (True, node\<lparr>cn_Store := s\<rparr>))"

section \<open>The two checks\<close>

definition CheckSingleSourceOfTruth :: "ConsensusNode list \<Rightarrow> bool" where
  "CheckSingleSourceOfTruth nodes \<longleftrightarrow>
     (if length nodes < 2 then True
      else
        let refLog = es_log (cn_Store (nodes ! 0)); refLen = length refLog
        in list_all (\<lambda>i.
             let l = es_log (cn_Store (nodes ! i))
             in if length l \<noteq> refLen then False
                else list_all (\<lambda>j. l ! j = refLog ! j) [0..<refLen])
           [1..<length nodes])"

fun leaders_loop :: "nat \<Rightarrow> ConsensusNode list \<Rightarrow> bool" where
  "leaders_loop leaders [] = True"
| "leaders_loop leaders (n # ns) =
     (if cn_State n = StateLeader
      then if leaders + 1 > 1 then False else leaders_loop (leaders + 1) ns
      else leaders_loop leaders ns)"

definition cons_CheckNoSplitBrain :: "ConsensusNode list \<Rightarrow> bool" where
  "cons_CheckNoSplitBrain nodes = leaders_loop 0 nodes"

section \<open>Term advance and the message handler\<close>

definition GEBAdvanceTerm :: "ConsensusNode \<Rightarrow> u64 \<times> ConsensusNode" where
  "GEBAdvanceTerm node =
     (let node' = node\<lparr>cn_Term := cn_Term node + 1, cn_State := StateCandidate\<rparr>
      in (cn_Term node', node'))"

definition reply_msg :: "string \<Rightarrow> ConsensusNode \<Rightarrow> Message" where
  "reply_msg ty node =
     \<lparr>m_Type = ty, m_Term = cn_Term node, m_FromID = cn_ID node, m_TraceID = [], m_Seq = 0,
      m_EventHash = []\<rparr>"

definition HandleMessage :: "ConsensusNode \<Rightarrow> Message \<Rightarrow>
    (Message option \<times> Action list) \<times> ConsensusNode" where
  "HandleMessage node msg =
     (if m_Type msg = ''APPEND'' then
        if m_Term msg \<ge> cn_Term node then
          let node1 = node\<lparr>cn_Term := m_Term msg, cn_State := StateFollower\<rparr>;
              prevHash = (if m_Seq msg > 1 then m_EventHash msg else []);
              e = \<lparr>ce_TraceID = m_TraceID msg, ce_Seq = m_Seq msg, ce_PrevHash = prevHash,
                   ce_EventHash = m_EventHash msg\<rparr>
          in case store_Append (cn_Store node1) e of
               Inr s \<Rightarrow>
                 let node2 = node1\<lparr>cn_Store := s\<rparr> in ((Some (reply_msg ''ACK'' node2), []), node2)
             | Inl _ \<Rightarrow> ((None, []), node1)
        else ((None, []), node)
      else if m_Type msg = ''VOTE_REQUEST'' then
        if m_Term msg > cn_Term node \<or> (m_Term msg = cn_Term node \<and> cn_VotedFor node = []) then
          let node1 = node\<lparr>cn_Term := m_Term msg, cn_VotedFor := m_FromID msg,
                           cn_State := StateFollower\<rparr>
          in ((Some (reply_msg ''VOTE'' node1), []), node1)
        else ((None, []), node)
      else if m_Type msg = ''HEARTBEAT'' then
        if m_Term msg \<ge> cn_Term node then
          let node1 = node\<lparr>cn_Term := m_Term msg, cn_State := StateFollower\<rparr>
          in ((Some (reply_msg ''ACK'' node1), []), node1)
        else ((None, []), node)
      else ((None, []), node))"

lemmas node_defs = HandleMessage_def reply_msg_def GEBAdvanceTerm_def NewConsensusNode_def

section \<open>Election and quorum\<close>

definition node_key :: "ConsensusNode \<Rightarrow> nat \<times> nat" where
  "node_key n = (unat (cn_Term n), length (es_log (cn_Store n)))"

lemma elect_loop_spec:
  "(\<forall>m \<in> set ns. node_key m \<le> (unat t, l)) \<and> elect_loop (t, l, w) ns = w \<or>
   (\<exists>xs n ys. ns = xs @ n # ys \<and> elect_loop (t, l, w) ns = cn_ID n \<and> (unat t, l) < node_key n \<and>
      (\<forall>m \<in> set xs. node_key m < node_key n) \<and> (\<forall>m \<in> set ys. node_key m \<le> node_key n))"
proof (induction ns arbitrary: t l w)
  case (Cons n ns)
  let ?k = "node_key n"
  show ?case
  proof (cases "(unat t, l) < ?k")
    case True
    then have step: "elect_loop (t, l, w) (n # ns) =
        elect_loop (cn_Term n, length (es_log (cn_Store n)), cn_ID n) ns"
      by (auto simp: node_key_def word_less_nat_alt less_prod_def dest: unsigned_word_eqI)
    from Cons [of "cn_Term n" "length (es_log (cn_Store n))" "cn_ID n", folded node_key_def]
    show ?thesis
    proof (elim disjE exE conjE)
      assume "\<forall>m \<in> set ns. node_key m \<le> ?k"
        and "elect_loop (cn_Term n, length (es_log (cn_Store n)), cn_ID n) ns = cn_ID n"
      with True step show ?thesis
        by (intro disjI2 exI [of _ "[]"] exI [of _ n] exI [of _ ns]) simp
    next
      fix xs m ys assume "ns = xs @ m # ys"
        "elect_loop (cn_Term n, length (es_log (cn_Store n)), cn_ID n) ns = cn_ID m" "?k < node_key m"
        "\<forall>a \<in> set xs. node_key a < node_key m" "\<forall>a \<in> set ys. node_key a \<le> node_key m"
      with True step show ?thesis
        by (intro disjI2 exI [of _ "n # xs"] exI [of _ m] exI [of _ ys]) auto
    qed
  next
    case False
    then have step: "elect_loop (t, l, w) (n # ns) = elect_loop (t, l, w) ns"
      by (auto simp: node_key_def word_less_nat_alt less_prod_def Let_def)
    from Cons [of t l w] False step show ?thesis
    proof (elim disjE exE conjE)
      fix xs m ys assume "ns = xs @ m # ys" "elect_loop (t, l, w) ns = cn_ID m"
        "(unat t, l) < node_key m"
        "\<forall>a \<in> set xs. node_key a < node_key m" "\<forall>a \<in> set ys. node_key a \<le> node_key m"
      with False step show ?thesis
        by (intro disjI2 exI [of _ "n # xs"] exI [of _ m] exI [of _ ys]) auto
    qed (auto simp: not_less)
  qed
qed simp

text \<open>C23: \<open>ElectLeader\<close> returns the first node with the greatest term and, among those,
  the longest log; it returns no leader exactly when every node has term 0 and an empty log
  (so a fresh cluster has none), or names a node whose id is empty.\<close>

theorem elect_leader_is_maximal:
  "(\<forall>m \<in> set nodes. node_key m = (0, 0)) \<and> ElectLeader nodes = [] \<or>
   (\<exists>xs n ys. nodes = xs @ n # ys \<and> ElectLeader nodes = cn_ID n \<and> (0, 0) < node_key n \<and>
      (\<forall>m \<in> set xs. node_key m < node_key n) \<and> (\<forall>m \<in> set ys. node_key m \<le> node_key n))"
proof -
  have zero: "k \<le> (unat (0 :: u64), 0) \<longleftrightarrow> k = (0, 0)" for k :: "nat \<times> nat"
    by (cases k) (auto simp: less_eq_prod_def)
  show ?thesis
    using elect_loop_spec [of nodes 0 0 "[]"] unfolding ElectLeader_def zero by simp
qed

theorem elect_leader_witness:
  "let nodes = [(NewConsensusNode ''a'')\<lparr>cn_Term := 1\<rparr>, (NewConsensusNode ''b'')\<lparr>cn_Term := 3\<rparr>]
   in ElectLeader nodes = ''b'' \<and>
      (\<exists>n \<in> set nodes. cn_ID n = ''b'' \<and> (\<forall>m \<in> set nodes. node_key m \<le> node_key n))"
proof -
  let ?nodes = "[(NewConsensusNode ''a'')\<lparr>cn_Term := 1\<rparr>, (NewConsensusNode ''b'')\<lparr>cn_Term := 3\<rparr>]"
  have b: "ElectLeader ?nodes = ''b''"
    by (simp add: ElectLeader_def NewConsensusNode_def)
  with elect_leader_is_maximal [of ?nodes] obtain xs n ys where
    n: "?nodes = xs @ n # ys" "cn_ID n = ''b''"
      "\<forall>m \<in> set xs. node_key m < node_key n" "\<forall>m \<in> set ys. node_key m \<le> node_key n" by auto
  have "set ?nodes = set xs \<union> {n} \<union> set ys" unfolding n(1) by auto
  with n(2-4) have "n \<in> set ?nodes \<and> (\<forall>m \<in> set ?nodes. node_key m \<le> node_key n)"
    by (auto intro: less_imp_le)
  with b n(2) show ?thesis unfolding Let_def by blast
qed

definition active :: "ConsensusNode list \<Rightarrow> nat" where
  "active nodes = length (filter (\<lambda>n. cn_Term n > 0) nodes)"

lemma quorum_count:
  "foldl (\<lambda>count n. if cn_Term n > 0 then count + 1 else count) c nodes = c + of_nat (active nodes)"
  by (induction nodes arbitrary: c) (simp_all add: active_def add.assoc)

lemma GEB_THRESHOLD_unat: "n < 2 ^ 63 \<Longrightarrow> unat (GEB_THRESHOLD n) = n div 2 + 1"
proof -
  assume "n < 2 ^ 63"
  then have "n div 2 + 1 < 18446744073709551616" by simp
  then have "unat (of_nat (n div 2 + 1) :: u64) = n div 2 + 1" by (simp only: unat_of_nat) simp
  then show ?thesis by (simp add: GEB_THRESHOLD_def add.commute)
qed

interpretation geb_quorum: majority "\<lambda>n. unat (GEB_THRESHOLD n)" "2 ^ 63"
  by unfold_locales (simp add: GEB_THRESHOLD_unat)

lemma QuorumReached_majority:
  assumes "length nodes < 2 ^ 63"
  shows "QuorumReached nodes tick (GEB_THRESHOLD (length nodes)) \<longleftrightarrow> length nodes < 2 * active nodes"
proof -
  have "active nodes \<le> length nodes" by (simp add: active_def)
  then have "active nodes < 18446744073709551616" using assms by simp
  then have "unat (of_nat (active nodes) :: u64) = active nodes"
    by (simp only: unat_of_nat) simp
  then show ?thesis
    using GEB_THRESHOLD_unat [OF assms]
    by (simp add: QuorumReached_def quorum_count word_le_nat_alt) linarith
qed

text \<open>C22: \<open>CommitEntry\<close> commits exactly when more than half of the nodes have a positive term
  and the event extends the node's log validly; it then appends the event and changes nothing
  else, otherwise it changes nothing.  The tick plays no part.\<close>

theorem commit_entry_correct:
  assumes "length nodes < 2 ^ 63" and "store_inv (cn_Store node)"
  shows "case CommitEntry node e nodes tick of (committed, node') \<Rightarrow>
    (committed \<longleftrightarrow> length nodes < 2 * active nodes \<and> valid_log (es_log (cn_Store node) @ [e])) \<and>
    (committed \<longrightarrow> es_log (cn_Store node') = es_log (cn_Store node) @ [e] \<and>
       store_inv (cn_Store node') \<and> node' = node\<lparr>cn_Store := cn_Store node'\<rparr>) \<and>
    (\<not> committed \<longrightarrow> node' = node)"
  using store_Append_cases [OF assms(2), of e] QuorumReached_majority [OF assms(1)]
  by (auto simp: CommitEntry_def store_Append_log intro: store_inv_Append [OF assms(2)]
      split: sum.split)

theorem commit_entry_witness:
  "case CommitEntry (NewConsensusNode ''c'')
      \<lparr>ce_TraceID = ''t'', ce_Seq = 1, ce_PrevHash = [], ce_EventHash = ''h''\<rparr>
      [(NewConsensusNode ''a'')\<lparr>cn_Term := 1\<rparr>, (NewConsensusNode ''b'')\<lparr>cn_Term := 1\<rparr>] 7
   of (committed, node') \<Rightarrow> committed \<and> length (es_log (cn_Store node')) = 1"
proof -
  let ?e = "\<lparr>ce_TraceID = ''t'', ce_Seq = 1, ce_PrevHash = [], ce_EventHash = ''h''\<rparr>"
  let ?nodes = "[(NewConsensusNode ''a'')\<lparr>cn_Term := 1\<rparr>, (NewConsensusNode ''b'')\<lparr>cn_Term := 1\<rparr>]"
  have log: "es_log (cn_Store (NewConsensusNode ''c'')) = []"
    and inv: "store_inv (cn_Store (NewConsensusNode ''c''))"
    by (simp_all add: NewConsensusNode_def) (simp add: NewEventStore_def)
  have "valid_log ([] @ [?e])"
    by (simp only: valid_log_snoc) (simp add: valid_log_def trace_events_def)
  moreover have "active ?nodes = 2" by (simp add: active_def NewConsensusNode_def)
  moreover have "length ?nodes < 2 ^ 63" by simp
  ultimately show ?thesis
    using commit_entry_correct [of ?nodes "NewConsensusNode ''c''" ?e 7] inv log by auto
qed

end
