(* ===== verification/Cluster.thy ===== *)
theory Cluster
  imports ConsensusNode
begin

text \<open>
  What the handler of \<open>pkg/consensus/engine.go\<close> guarantees: one message at a time, and in a
  cluster whose nodes take messages and term advances in any order.  Nothing is assumed about
  the messages: they may be forged, duplicated, reordered or lost.
\<close>

section \<open>The two checks\<close>

lemma logs_equal_loop:
  "(if length l \<noteq> length r then False else list_all (\<lambda>j. l ! j = r ! j) [0..<length r]) \<longleftrightarrow> l = r"
proof
  assume "if length l \<noteq> length r then False else list_all (\<lambda>j. l ! j = r ! j) [0..<length r]"
  then have "length l = length r" "\<forall>j < length r. l ! j = r ! j"
    by (auto simp: list_all_iff split: if_splits)
  then show "l = r" by (intro nth_equalityI) auto
qed (simp add: list_all_iff)

lemma single_source_first:
  "CheckSingleSourceOfTruth (n # ns) \<longleftrightarrow> (\<forall>m \<in> set ns. es_log (cn_Store m) = es_log (cn_Store n))"
proof (cases ns)
  case Nil
  then show ?thesis by (simp add: CheckSingleSourceOfTruth_def)
next
  case (Cons a as)
  have "CheckSingleSourceOfTruth (n # ns) \<longleftrightarrow>
      list_all (\<lambda>i. es_log (cn_Store ((n # ns) ! i)) = es_log (cn_Store n)) [1..<length (n # ns)]"
    unfolding CheckSingleSourceOfTruth_def Let_def logs_equal_loop nth_Cons_0
    by (rule if_not_P) (simp add: Cons)
  also have "\<dots> \<longleftrightarrow> (\<forall>i < length ns. es_log (cn_Store (ns ! i)) = es_log (cn_Store n))"
  proof -
    have eq: "[1..<length (n # ns)] = map Suc [0..<length ns]" by (simp add: map_Suc_upt)
    show ?thesis unfolding eq list.pred_map by (auto simp: list_all_iff)
  qed
  finally show ?thesis by (simp add: all_set_conv_all_nth)
qed

lemma leaders_loop_count:
  "leaders_loop k ns \<longleftrightarrow> k + length (filter (\<lambda>n. cn_State n = StateLeader) ns) \<le> max k 1"
proof (induction ns arbitrary: k)
  case (Cons n ns)
  then show ?case by (cases k) auto
qed simp

text \<open>\<open>CheckSingleSourceOfTruth\<close> holds exactly when every two nodes have the same log, and
  \<open>CheckNoSplitBrain\<close> exactly when at most one node is in the leader state.\<close>

lemma consensus_checks_correct:
  "(CheckSingleSourceOfTruth nodes \<longleftrightarrow>
      (\<forall>a \<in> set nodes. \<forall>b \<in> set nodes. es_log (cn_Store a) = es_log (cn_Store b))) \<and>
   (cons_CheckNoSplitBrain nodes \<longleftrightarrow> length (filter (\<lambda>n. cn_State n = StateLeader) nodes) \<le> 1)"
proof -
  have "CheckSingleSourceOfTruth nodes \<longleftrightarrow>
      (\<forall>a \<in> set nodes. \<forall>b \<in> set nodes. es_log (cn_Store a) = es_log (cn_Store b))"
  proof (cases nodes)
    case Nil
    then show ?thesis by (simp add: CheckSingleSourceOfTruth_def)
  next
    case (Cons n ns)
    then show ?thesis using single_source_first [of n ns] by auto
  qed
  then show ?thesis by (simp add: cons_CheckNoSplitBrain_def leaders_loop_count)
qed

section \<open>One message\<close>

text \<open>What one message can do to a node.\<close>

lemma handle_message_step:
  assumes "store_inv (cn_Store node)" and "HandleMessage node msg = ((reply, actions), node')"
  shows "cn_Term node \<le> cn_Term node' \<and> cn_ID node' = cn_ID node \<and> actions = [] \<and>
    (es_log (cn_Store node') = es_log (cn_Store node) \<or>
       (\<exists>e. es_log (cn_Store node') = es_log (cn_Store node) @ [e])) \<and>
    valid_log (es_log (cn_Store node')) \<and> store_inv (cn_Store node') \<and>
    (cn_State node' = StateLeader \<longrightarrow> node' = node) \<and>
    (\<forall>r. reply = Some r \<longrightarrow> m_Term r = cn_Term node' \<and> m_FromID r = cn_ID node' \<and>
       m_Type r \<in> {''ACK'', ''VOTE''})"
proof -
  have inv: "store_inv (cn_Store node')"
    using assms
    by (auto simp: HandleMessage_def Let_def intro: store_inv_Append split: if_splits sum.splits)
  then have valid: "valid_log (es_log (cn_Store node'))" by (simp add: store_inv_def)
  have "cn_Term node \<le> cn_Term node' \<and> cn_ID node' = cn_ID node \<and> actions = [] \<and>
    (es_log (cn_Store node') = es_log (cn_Store node) \<or>
       (\<exists>e. es_log (cn_Store node') = es_log (cn_Store node) @ [e])) \<and>
    (cn_State node' = StateLeader \<longrightarrow> node' = node) \<and>
    (\<forall>r. reply = Some r \<longrightarrow> m_Term r = cn_Term node' \<and> m_FromID r = cn_ID node' \<and>
       m_Type r \<in> {''ACK'', ''VOTE''})"
    using assms(2)
    by (auto simp: HandleMessage_def reply_msg_def Let_def dest: store_Append_log
        split: if_splits sum.splits)
  with inv valid show ?thesis by blast
qed

text \<open>C11: A message never lowers the node's term and never shortens or rewrites its log: the log
  stays or grows by one event that extends it validly; the node keeps its id, never becomes a
  leader, and every reply carries the node's new term and id.\<close>

theorem handle_message_safe:
  assumes "store_inv (cn_Store node)" and "HandleMessage node msg = ((reply, actions), node')"
  shows "cn_Term node \<le> cn_Term node' \<and> cn_ID node' = cn_ID node \<and> actions = [] \<and>
    (es_log (cn_Store node') = es_log (cn_Store node) \<or>
       (\<exists>e. es_log (cn_Store node') = es_log (cn_Store node) @ [e])) \<and>
    valid_log (es_log (cn_Store node')) \<and> store_inv (cn_Store node') \<and>
    (cn_State node' = StateLeader \<longrightarrow> node' = node) \<and>
    (\<forall>r. reply = Some r \<longrightarrow> m_Term r = cn_Term node' \<and> m_FromID r = cn_ID node' \<and>
       m_Type r \<in> {''ACK'', ''VOTE''})"
  by (rule handle_message_step [OF assms])

theorem handle_message_witness:
  "let (r, node') = HandleMessage (NewConsensusNode ''n'')
         \<lparr>m_Type = ''HEARTBEAT'', m_Term = 4, m_FromID = ''l'', m_TraceID = [], m_Seq = 0,
          m_EventHash = []\<rparr>
   in cn_Term node' = 4 \<and> cn_Term (NewConsensusNode ''n'') \<le> cn_Term node'"
proof -
  let ?m = "\<lparr>m_Type = ''HEARTBEAT'', m_Term = 4, m_FromID = ''l'', m_TraceID = [], m_Seq = 0,
      m_EventHash = []\<rparr>"
  obtain r acts n where h: "HandleMessage (NewConsensusNode ''n'') ?m = ((r, acts), n)"
    by (metis surj_pair)
  have "store_inv (cn_Store (NewConsensusNode ''n''))" by (simp add: NewConsensusNode_def)
  from handle_message_safe [OF this h] h show ?thesis
    by (auto simp: HandleMessage_def NewConsensusNode_def Let_def)
qed

text \<open>An \<open>APPEND\<close> for any event but a trace's first is accepted only when the event's hash
  equals the hash already at the end of the trace, because the handler passes the event's own
  hash as the previous hash.\<close>

lemma append_needs_repeated_hash:
  assumes "m_Type msg = ''APPEND''" and "m_Seq msg > 1" and "store_inv (cn_Store node)"
    and "HandleMessage node msg = ((Some r, actions), node')"
  shows "es_lastHash (cn_Store node) (m_TraceID msg) = Some (m_EventHash msg)"
proof -
  have "es_lastSeq (cn_Store node) (m_TraceID msg) = None \<longleftrightarrow>
      es_lastHash (cn_Store node) (m_TraceID msg) = None"
    using assms(3) by (simp add: store_inv_def last_or_def)
  with assms(1,2,4) show ?thesis
    by (auto simp: HandleMessage_def Let_def store_defs split: if_splits option.splits sum.splits)
qed

section \<open>A cluster under any schedule\<close>

datatype cluster_event = Deliver nat Message "Message option" | AdvanceTerm nat u64

inductive cluster_run :: "ConsensusNode list \<Rightarrow> cluster_event list \<Rightarrow> ConsensusNode list \<Rightarrow> bool"
  for ns where
  start: "cluster_run ns [] ns"
| deliver: "cluster_run ns ls ms \<Longrightarrow> i < length ms \<Longrightarrow>
    HandleMessage (ms ! i) msg = ((reply, actions), n') \<Longrightarrow>
    cluster_run ns (ls @ [Deliver i msg reply]) (ms[i := n'])"
| advance: "cluster_run ns ls ms \<Longrightarrow> i < length ms \<Longrightarrow> GEBAdvanceTerm (ms ! i) = (t, n') \<Longrightarrow>
    cluster_run ns (ls @ [AdvanceTerm i t]) (ms[i := n'])"

text \<open>A property of single nodes that both kinds of step keep holds of every node of every
  cluster that can be reached.\<close>

lemma cluster_node_invariant:
  assumes "cluster_run ns ls ms" and "\<forall>n \<in> set ns. P n"
    and "\<And>n msg reply acts n'. P n \<Longrightarrow> HandleMessage n msg = ((reply, acts), n') \<Longrightarrow> P n'"
    and "\<And>n t n'. P n \<Longrightarrow> GEBAdvanceTerm n = (t, n') \<Longrightarrow> P n'"
  shows "\<forall>n \<in> set ms. P n"
  using assms(1)
proof (induction rule: cluster_run.induct)
  case start
  then show ?case using assms(2) .
next
  case (deliver ls ms i msg reply actions n')
  then show ?case
    using assms(3) by (metis in_set_conv_nth length_list_update nth_list_update nth_mem)
next
  case (advance ls ms i t n')
  then show ?case
    using assms(4) by (metis in_set_conv_nth length_list_update nth_list_update nth_mem)
qed

definition fresh_cluster :: "string list \<Rightarrow> ConsensusNode list" where
  "fresh_cluster ids = map NewConsensusNode ids"

text \<open>C18: In a cluster that starts from fresh nodes no node ever enters the leader state, so
  \<open>CheckNoSplitBrain\<close> holds in every reachable cluster; and every node's log stays valid.\<close>

theorem cluster_never_has_a_leader:
  assumes "cluster_run (fresh_cluster ids) ls ms"
  shows "cons_CheckNoSplitBrain ms \<and>
    (\<forall>n \<in> set ms. cn_State n \<noteq> StateLeader \<and> valid_log (es_log (cn_Store n)))"
proof -
  let ?P = "\<lambda>n. cn_State n \<noteq> StateLeader \<and> store_inv (cn_Store n)"
  have "\<forall>n \<in> set ms. ?P n"
  proof (rule cluster_node_invariant [OF assms])
    show "\<forall>n \<in> set (fresh_cluster ids). ?P n"
      by (simp add: fresh_cluster_def NewConsensusNode_def)
    show "?P n'" if "?P n" "HandleMessage n msg = ((reply, acts), n')" for n msg reply acts n'
      using handle_message_step [of n msg reply acts n'] that by auto
    show "?P n'" if "?P n" "GEBAdvanceTerm n = (t, n')" for n t n'
      using that by (auto simp: GEBAdvanceTerm_def)
  qed
  moreover from this have "filter (\<lambda>n. cn_State n = StateLeader) ms = []"
    by (simp add: filter_empty_conv)
  ultimately show ?thesis
    by (simp add: cons_CheckNoSplitBrain_def leaders_loop_count store_inv_def)
qed

theorem cluster_never_has_a_leader_witness:
  "let n = snd (GEBAdvanceTerm (NewConsensusNode ''a''))
   in cluster_run (fresh_cluster [''a'']) [AdvanceTerm 0 1] [n] \<and> cn_State n \<noteq> StateLeader"
proof -
  have "GEBAdvanceTerm (fresh_cluster [''a''] ! 0) = (1, snd (GEBAdvanceTerm (NewConsensusNode ''a'')))"
    by (simp add: fresh_cluster_def GEBAdvanceTerm_def NewConsensusNode_def Let_def)
  from cluster_run.advance [OF cluster_run.start _ this]
  have "cluster_run (fresh_cluster [''a'']) ([] @ [AdvanceTerm 0 1])
      ((fresh_cluster [''a''])[0 := snd (GEBAdvanceTerm (NewConsensusNode ''a''))])"
    by (simp add: fresh_cluster_def)
  then have run: "cluster_run (fresh_cluster [''a'']) [AdvanceTerm 0 1]
      [snd (GEBAdvanceTerm (NewConsensusNode ''a''))]"
    by (simp add: fresh_cluster_def)
  from cluster_never_has_a_leader [OF run] run show ?thesis by (simp add: Let_def)
qed

definition constant_hashes :: "cons_Event list \<Rightarrow> bool" where
  "constant_hashes es \<longleftrightarrow>
     (\<forall>a \<in> set es. \<forall>b \<in> set es. ce_TraceID a = ce_TraceID b \<longrightarrow> ce_EventHash a = ce_EventHash b)"

lemma constant_hashesD:
  "constant_hashes es \<Longrightarrow> a \<in> set es \<Longrightarrow> b \<in> set es \<Longrightarrow> ce_TraceID a = ce_TraceID b \<Longrightarrow>
   ce_EventHash a = ce_EventHash b"
  unfolding constant_hashes_def by blast

lemma constant_hashes_snoc:
  assumes const: "constant_hashes es"
    and e: "\<And>a. a \<in> set es \<Longrightarrow> ce_TraceID a = ce_TraceID e \<Longrightarrow> ce_EventHash a = ce_EventHash e"
  shows "constant_hashes (es @ [e])"
  unfolding constant_hashes_def
proof (intro ballI impI)
  fix a b assume ab: "a \<in> set (es @ [e])" "b \<in> set (es @ [e])" "ce_TraceID a = ce_TraceID b"
  consider "a \<in> set es" "b \<in> set es" | "a \<in> set es" "b = e" | "a = e" "b \<in> set es" | "a = e" "b = e"
    using ab(1,2) by auto
  then show "ce_EventHash a = ce_EventHash b"
  proof cases
    case 1
    then show ?thesis using constant_hashesD [OF const] ab(3) by blast
  next
    case 2
    then show ?thesis using e [of a] ab(3) by simp
  next
    case 3
    then show ?thesis using e [of b] ab(3) by simp
  qed simp
qed

lemma same_hash_as_last:
  assumes "constant_hashes es" and "a \<in> set es" and "ce_TraceID a = T"
  shows "trace_events T es \<noteq> [] \<and> ce_EventHash (last (trace_events T es)) = ce_EventHash a"
proof -
  have "a \<in> set (trace_events T es)" using assms(2,3) by (simp add: trace_events_def)
  then have ne: "trace_events T es \<noteq> []" by auto
  then have "last (trace_events T es) \<in> set (trace_events T es)" by simp
  then have "last (trace_events T es) \<in> set es" "ce_TraceID (last (trace_events T es)) = T"
    by (simp_all add: trace_events_def)
  with ne show ?thesis using constant_hashesD [OF assms(1) _ assms(2)] assms(3) by blast
qed

lemma append_keeps_constant_hashes:
  assumes inv: "store_inv s" and const: "constant_hashes (es_log s)"
    and small: "length (es_log s) < 2 ^ 64 - 1"
    and prev: "ce_PrevHash e = (if ce_Seq e > 1 then ce_EventHash e else [])"
    and step: "store_Append s e = Inr s'"
  shows "constant_hashes (es_log s')"
proof -
  let ?tr = "trace_events (ce_TraceID e) (es_log s)"
  have log: "es_log s' = es_log s @ [e]" by (rule store_Append_log [OF step])
  have "valid_log (es_log s @ [e])" using store_Append_cases [OF inv] step by blast
  then have seq: "ce_Seq e = of_nat (length ?tr) + 1" and hash: "ce_PrevHash e = last_or [] ce_EventHash ?tr"
    using store_inv_seq [OF inv] by (simp_all add: valid_log_snoc)
  have e: "ce_EventHash e = ce_EventHash (last ?tr)" if "?tr \<noteq> []"
  proof -
    have "length ?tr \<le> length (es_log s)" by (simp add: trace_events_def)
    with small have bound: "length ?tr + 1 < 18446744073709551616" by simp
    have "unat (ce_Seq e) = unat (of_nat (length ?tr + 1) :: u64)" by (simp add: seq add.commute)
    also have "\<dots> = length ?tr + 1" using bound by (simp only: unat_of_nat) simp
    finally have "unat (ce_Seq e) = length ?tr + 1" .
    moreover from that have "0 < length ?tr" by simp
    ultimately have "1 < unat (ce_Seq e)" by linarith
    then have "ce_Seq e > 1" by (simp add: word_less_nat_alt)
    with prev hash that show ?thesis by (simp add: last_or_def)
  qed
  show ?thesis unfolding log
  proof (rule constant_hashes_snoc [OF const])
    fix a assume "a \<in> set (es_log s)" "ce_TraceID a = ce_TraceID e"
    from same_hash_as_last [OF const this] e show "ce_EventHash a = ce_EventHash e" by simp
  qed
qed

lemma handled_append:
  assumes "HandleMessage n msg = ((reply, acts), n')"
  shows "cn_Store n' = cn_Store n \<or>
    (\<exists>e. ce_PrevHash e = (if ce_Seq e > 1 then ce_EventHash e else []) \<and>
       store_Append (cn_Store n) e = Inr (cn_Store n'))"
proof -
  let ?e = "\<lparr>ce_TraceID = m_TraceID msg, ce_Seq = m_Seq msg,
    ce_PrevHash = (if m_Seq msg > 1 then m_EventHash msg else []), ce_EventHash = m_EventHash msg\<rparr>"
  have "cn_Store n' = cn_Store n \<or> store_Append (cn_Store n) ?e = Inr (cn_Store n')"
    using assms unfolding HandleMessage_def Let_def
    by (cases "store_Append (cn_Store n) ?e") (auto split: if_splits)
  moreover have "ce_PrevHash ?e = (if ce_Seq ?e > 1 then ce_EventHash ?e else [])" by simp
  ultimately show ?thesis by blast
qed

text \<open>C19: Replication through \<open>APPEND\<close> messages only ever builds traces whose events all
  carry the same hash: starting from fresh nodes, under any schedule and any messages, no node
  can come to hold a trace with two different event hashes (while its log is shorter than
  2 to the 64, less one).\<close>

theorem cluster_replicates_constant_hashes_only:
  assumes "cluster_run (fresh_cluster ids) ls ms" and "n \<in> set ms"
    and "length (es_log (cn_Store n)) < 2 ^ 64 - 1"
  shows "constant_hashes (es_log (cn_Store n))"
proof -
  let ?P = "\<lambda>n. store_inv (cn_Store n) \<and>
    (length (es_log (cn_Store n)) < 2 ^ 64 - 1 \<longrightarrow> constant_hashes (es_log (cn_Store n)))"
  have "\<forall>n \<in> set ms. ?P n"
  proof (rule cluster_node_invariant [OF assms(1)])
    show "\<forall>n \<in> set (fresh_cluster ids). ?P n"
      by (simp add: fresh_cluster_def NewConsensusNode_def)
        (simp add: NewEventStore_def constant_hashes_def)
    show "?P n'" if P: "?P n" and h: "HandleMessage n msg = ((reply, acts), n')" for n msg reply acts n'
    proof -
      have inv: "store_inv (cn_Store n')" using handle_message_step [OF _ h] P by blast
      show ?thesis
        using handled_append [OF h]
      proof (elim disjE exE conjE)
        assume "cn_Store n' = cn_Store n"
        with P show ?thesis by simp
      next
        fix e assume e: "ce_PrevHash e = (if ce_Seq e > 1 then ce_EventHash e else [])"
          "store_Append (cn_Store n) e = Inr (cn_Store n')"
        have len: "length (es_log (cn_Store n)) < length (es_log (cn_Store n'))"
          by (simp add: store_Append_log [OF e(2)])
        have "constant_hashes (es_log (cn_Store n'))" if "length (es_log (cn_Store n')) < 2 ^ 64 - 1"
          by (rule append_keeps_constant_hashes [OF _ _ _ e]) (use P len that in linarith)+
        with inv show ?thesis by blast
      qed
    qed
    show "?P n'" if "?P n" "GEBAdvanceTerm n = (t, n')" for n t n'
      using that by (auto simp: GEBAdvanceTerm_def)
  qed
  with assms(2,3) show ?thesis by blast
qed

theorem cluster_replicates_constant_hashes_witness:
  "let msg = \<lparr>m_Type = ''APPEND'', m_Term = 1, m_FromID = ''l'', m_TraceID = ''t'', m_Seq = 1,
         m_EventHash = ''h''\<rparr>;
       n = snd (HandleMessage (NewConsensusNode ''a'') msg)
   in length (es_log (cn_Store n)) = 1 \<and> constant_hashes (es_log (cn_Store n))"
proof -
  let ?msg = "\<lparr>m_Type = ''APPEND'', m_Term = 1, m_FromID = ''l'', m_TraceID = ''t'', m_Seq = 1,
      m_EventHash = ''h''\<rparr>"
  let ?n = "snd (HandleMessage (NewConsensusNode ''a'') ?msg)"
  obtain r acts n where h: "HandleMessage (NewConsensusNode ''a'') ?msg = ((r, acts), n)"
    by (metis surj_pair)
  then have n: "?n = n" by simp
  have at: "HandleMessage (fresh_cluster [''a''] ! 0) ?msg = ((r, acts), n)"
    using h by (simp add: fresh_cluster_def)
  from cluster_run.deliver [OF cluster_run.start _ this]
  have run: "cluster_run (fresh_cluster [''a'']) ([] @ [Deliver 0 ?msg r]) [n]"
    by (simp add: fresh_cluster_def)
  have len: "length (es_log (cn_Store ?n)) = 1"
    by (simp add: HandleMessage_def NewConsensusNode_def Let_def store_defs seq_check_def
        hash_check_def NewEventStore_def)
  have "constant_hashes (es_log (cn_Store n))"
    by (rule cluster_replicates_constant_hashes_only [OF run])
      (use len n in simp_all)
  with len show ?thesis unfolding Let_def n by blast
qed

end
