(* ===== verification/Election.thy ===== *)
theory Election
  imports Cluster
begin

text \<open>
  Election safety for the vote handling of \<open>HandleMessage\<close> in \<open>pkg/consensus/engine.go\<close>: what
  the votes recorded in a cluster's history say, under any schedule and any messages, and the
  two conditions the code needs for it (candidates with non-empty ids, no term wrapping round).
\<close>

text \<open>Node \<open>i\<close> granted candidate \<open>c\<close> its vote for term \<open>T\<close>.\<close>

definition vote :: "cluster_event list \<Rightarrow> nat \<Rightarrow> u64 \<Rightarrow> string \<Rightarrow> bool" where
  "vote ls i T c \<longleftrightarrow> (\<exists>msg r. Deliver i msg (Some r) \<in> set ls \<and> m_Type r = ''VOTE'' \<and>
     m_Term r = T \<and> m_FromID msg = c)"

definition named_candidates :: "cluster_event list \<Rightarrow> bool" where
  "named_candidates ls \<longleftrightarrow> (\<forall>i msg r. Deliver i msg r \<in> set ls \<longrightarrow> m_Type msg = ''VOTE_REQUEST'' \<longrightarrow>
     m_FromID msg \<noteq> [])"

definition no_wrapped_term :: "cluster_event list \<Rightarrow> bool" where
  "no_wrapped_term ls \<longleftrightarrow> (\<forall>i. AdvanceTerm i 0 \<notin> set ls)"

lemma voteI:
  "Deliver i msg (Some r) \<in> set ls \<Longrightarrow> m_Type r = ''VOTE'' \<Longrightarrow> m_Term r = T \<Longrightarrow> m_FromID msg = c \<Longrightarrow>
   vote ls i T c"
  unfolding vote_def by blast

lemma vote_Nil [simp]: "\<not> vote [] i T c"
  by (simp add: vote_def)

lemma vote_snoc_advance [simp]: "vote (ls @ [AdvanceTerm j t]) i T c \<longleftrightarrow> vote ls i T c"
  by (simp add: vote_def)

lemma vote_snoc_deliver:
  "vote (ls @ [Deliver j msg r]) i T c \<longleftrightarrow> vote ls i T c \<or>
     (j = i \<and> m_FromID msg = c \<and> (\<exists>m. r = Some m \<and> m_Type m = ''VOTE'' \<and> m_Term m = T))"
  unfolding vote_def by auto

lemma handled_vote:
  assumes "HandleMessage n msg = ((Some r, acts), n')" and "m_Type r = ''VOTE''"
  shows "m_Type msg = ''VOTE_REQUEST'' \<and> cn_Term n' = m_Term r \<and> cn_VotedFor n' = m_FromID msg \<and>
    (cn_Term n < m_Term r \<or> (cn_Term n = m_Term r \<and> cn_VotedFor n = []))"
  using assms by (auto simp: HandleMessage_def reply_msg_def Let_def split: if_splits sum.splits)

lemma handled_no_vote:
  assumes "HandleMessage n msg = ((r, acts), n')" and "\<forall>m. r = Some m \<longrightarrow> m_Type m \<noteq> ''VOTE''"
  shows "cn_Term n \<le> cn_Term n' \<and> cn_VotedFor n' = cn_VotedFor n"
  using assms by (auto simp: HandleMessage_def reply_msg_def Let_def split: if_splits sum.splits)

definition votes_remembered :: "cluster_event list \<Rightarrow> ConsensusNode list \<Rightarrow> bool" where
  "votes_remembered ls ms \<longleftrightarrow> (\<forall>i T c. vote ls i T c \<longrightarrow> i < length ms \<and> c \<noteq> [] \<and>
     T \<le> cn_Term (ms ! i) \<and> (T = cn_Term (ms ! i) \<longrightarrow> cn_VotedFor (ms ! i) = c))"

definition single_votes :: "cluster_event list \<Rightarrow> bool" where
  "single_votes ls \<longleftrightarrow> (\<forall>i T c c'. vote ls i T c \<longrightarrow> vote ls i T c' \<longrightarrow> c = c')"

lemma votes_rememberedD:
  assumes "votes_remembered ls ms" and "vote ls i T c"
  shows "i < length ms" "c \<noteq> []" "T \<le> cn_Term (ms ! i)"
    "T = cn_Term (ms ! i) \<Longrightarrow> cn_VotedFor (ms ! i) = c"
  using assms unfolding votes_remembered_def by blast+

lemma votes_deliver:
  assumes mem: "votes_remembered ls ms" and single: "single_votes ls" and i: "i < length ms"
    and h: "HandleMessage (ms ! i) msg = ((r, acts), n')"
    and named: "m_Type msg = ''VOTE_REQUEST'' \<Longrightarrow> m_FromID msg \<noteq> []"
  shows "votes_remembered (ls @ [Deliver i msg r]) (ms[i := n']) \<and> single_votes (ls @ [Deliver i msg r])"
proof (cases "\<exists>m. r = Some m \<and> m_Type m = ''VOTE''")
  case False
  then have keep: "cn_Term (ms ! i) \<le> cn_Term n'" "cn_VotedFor n' = cn_VotedFor (ms ! i)"
    using handled_no_vote [OF h] by blast+
  have same: "vote (ls @ [Deliver i msg r]) j T c \<longleftrightarrow> vote ls j T c" for j T c
    using False by (auto simp: vote_snoc_deliver)
  have "votes_remembered ls (ms[i := n'])"
    unfolding votes_remembered_def
  proof (intro allI impI)
    fix j T c assume v: "vote ls j T c"
    note d = votes_rememberedD [OF mem v]
    show "j < length (ms[i := n']) \<and> c \<noteq> [] \<and> T \<le> cn_Term (ms[i := n'] ! j) \<and>
      (T = cn_Term (ms[i := n'] ! j) \<longrightarrow> cn_VotedFor (ms[i := n'] ! j) = c)"
      using d keep by (cases "j = i") auto
  qed
  then show ?thesis using single unfolding votes_remembered_def single_votes_def same by blast
next
  case True
  then obtain m where m: "r = Some m" "m_Type m = ''VOTE''" by blast
  note new = handled_vote [OF h [unfolded m(1)] m(2)]
  have cand: "m_FromID msg \<noteq> []" using new named by blast
  have fresh: "T < m_Term m" if "vote ls i T c" for T c
  proof -
    note d = votes_rememberedD [OF mem that]
    have "T \<noteq> m_Term m" using d(2-4) new by auto
    moreover have "T \<le> m_Term m" using d(3) new by auto
    ultimately show ?thesis by simp
  qed
  have at: "vote (ls @ [Deliver i msg r]) j T c \<longleftrightarrow>
      vote ls j T c \<or> (j = i \<and> T = m_Term m \<and> c = m_FromID msg)" for j T c
    using m by (auto simp: vote_snoc_deliver)
  have "votes_remembered (ls @ [Deliver i msg r]) (ms[i := n'])"
    unfolding votes_remembered_def
  proof (intro allI impI)
    fix j T c assume v: "vote (ls @ [Deliver i msg r]) j T c"
    show "j < length (ms[i := n']) \<and> c \<noteq> [] \<and> T \<le> cn_Term (ms[i := n'] ! j) \<and>
      (T = cn_Term (ms[i := n'] ! j) \<longrightarrow> cn_VotedFor (ms[i := n'] ! j) = c)"
    proof (cases "j = i")
      case j: True
      show ?thesis
      proof (cases "vote ls i T c")
        case True
        then have "c \<noteq> []" "T < m_Term m" using votes_rememberedD [OF mem] fresh by blast+
        moreover from this have "T \<noteq> m_Term m" "T \<le> m_Term m" by auto
        ultimately show ?thesis using j i new by simp
      next
        case False
        then show ?thesis using v j i new cand by (simp add: at)
      qed
    next
      case False
      then have "vote ls j T c" using v by (simp add: at)
      from votes_rememberedD [OF mem this] show ?thesis using False by simp
    qed
  qed
  moreover have "single_votes (ls @ [Deliver i msg r])"
    unfolding single_votes_def
  proof (intro allI impI)
    fix j T c c' assume v: "vote (ls @ [Deliver i msg r]) j T c" "vote (ls @ [Deliver i msg r]) j T c'"
    show "c = c'"
    proof (cases "vote ls j T c \<and> vote ls j T c'")
      case True
      then show ?thesis using single unfolding single_votes_def by blast
    next
      case False
      then have "j = i" "T = m_Term m" using v unfolding at by blast+
      then have "\<not> vote ls j T c" "\<not> vote ls j T c'" using fresh by blast+
      then show ?thesis using v unfolding at by blast
    qed
  qed
  ultimately show ?thesis ..
qed

lemma votes_advance:
  assumes mem: "votes_remembered ls ms" and single: "single_votes ls" and i: "i < length ms"
    and h: "GEBAdvanceTerm (ms ! i) = (t, n')" and t: "t \<noteq> 0"
  shows "votes_remembered (ls @ [AdvanceTerm i t]) (ms[i := n']) \<and> single_votes (ls @ [AdvanceTerm i t])"
proof
  have n': "cn_Term n' = cn_Term (ms ! i) + 1" "t = cn_Term (ms ! i) + 1"
    using h by (auto simp: GEBAdvanceTerm_def Let_def)
  have up: "cn_Term (ms ! i) < cn_Term n'"
  proof -
    have "cn_Term (ms ! i) \<noteq> - 1" using t n'(2) by auto
    then show ?thesis
      using unat_u64_plus_1 [of "cn_Term (ms ! i)"] n'(1) by (simp add: word_less_nat_alt)
  qed
  show "votes_remembered (ls @ [AdvanceTerm i t]) (ms[i := n'])"
    unfolding votes_remembered_def vote_snoc_advance
  proof (intro allI impI)
    fix j T c assume "vote ls j T c"
    note d = votes_rememberedD [OF mem this]
    show "j < length (ms[i := n']) \<and> c \<noteq> [] \<and> T \<le> cn_Term (ms[i := n'] ! j) \<and>
      (T = cn_Term (ms[i := n'] ! j) \<longrightarrow> cn_VotedFor (ms[i := n'] ! j) = c)"
      using d up i by (cases "j = i") auto
  qed
  show "single_votes (ls @ [AdvanceTerm i t])" using single by (simp add: single_votes_def)
qed

lemma cluster_votes:
  assumes "cluster_run ns ls ms" and "named_candidates ls" and "no_wrapped_term ls"
  shows "votes_remembered ls ms \<and> single_votes ls \<and> length ms = length ns"
  using assms
proof (induction rule: cluster_run.induct)
  case start
  then show ?case by (simp add: votes_remembered_def single_votes_def)
next
  case (deliver ls ms i msg r acts n')
  have named: "m_Type msg = ''VOTE_REQUEST'' \<Longrightarrow> m_FromID msg \<noteq> []"
    using deliver.prems(1) by (auto simp: named_candidates_def)
  have "named_candidates ls" "no_wrapped_term ls"
    using deliver.prems by (auto simp: named_candidates_def no_wrapped_term_def)
  with deliver.IH have "votes_remembered ls ms" "single_votes ls" "length ms = length ns" by blast+
  with votes_deliver [OF _ _ deliver.hyps(2,3) named] show ?case by simp
next
  case (advance ls ms i t n')
  have t: "t \<noteq> 0" using advance.prems(2) by (auto simp: no_wrapped_term_def)
  have "named_candidates ls" "no_wrapped_term ls"
    using advance.prems by (auto simp: named_candidates_def no_wrapped_term_def)
  with advance.IH have "votes_remembered ls ms" "single_votes ls" "length ms = length ns" by blast+
  with votes_advance [OF _ _ advance.hyps(2,3) t] show ?case by simp
qed

text \<open>C7: Election safety.  In any history of a cluster in which candidates have non-empty ids
  and no term wraps round, no node votes for two candidates in one term, and two candidates
  that both gather a quorum (\<open>GEB_THRESHOLD\<close>) of votes in the same term are the same one.\<close>

theorem election_safety:
  assumes "cluster_run ns ls ms" and "named_candidates ls" and "no_wrapped_term ls"
    and "length ns < 2 ^ 63"
  shows "(vote ls i T a \<and> vote ls i T b \<longrightarrow> a = b) \<and>
    (unat (GEB_THRESHOLD (length ns)) \<le> card {i. vote ls i T a} \<and>
     unat (GEB_THRESHOLD (length ns)) \<le> card {i. vote ls i T b} \<longrightarrow> a = b)"
proof -
  note v = cluster_votes [OF assms(1-3)]
  have single: "a = b" if "vote ls i T a" "vote ls i T b" for i
    using v that unfolding single_votes_def by blast
  have "a = b" if "unat (GEB_THRESHOLD (length ns)) \<le> card {i. vote ls i T a}"
    "unat (GEB_THRESHOLD (length ns)) \<le> card {i. vote ls i T b}"
  proof -
    have sub: "{i. vote ls i T c} \<subseteq> {..<length ns}" for c
      using v votes_rememberedD(1) by fastforce
    have "{i. vote ls i T a} \<inter> {i. vote ls i T b} \<noteq> {}"
      using geb_quorum.quorums_meet [of "{..<length ns}", OF _ _ sub sub] assms(4) that by simp
    then show ?thesis using single by blast
  qed
  with single show ?thesis by blast
qed

definition vote_request :: "u64 \<Rightarrow> string \<Rightarrow> Message" where
  "vote_request t c = \<lparr>m_Type = ''VOTE_REQUEST'', m_Term = t, m_FromID = c, m_TraceID = [],
     m_Seq = 0, m_EventHash = []\<rparr>"

definition heartbeat :: "u64 \<Rightarrow> string \<Rightarrow> Message" where
  "heartbeat t c = \<lparr>m_Type = ''HEARTBEAT'', m_Term = t, m_FromID = c, m_TraceID = [],
     m_Seq = 0, m_EventHash = []\<rparr>"

theorem election_safety_witness:
  "\<exists>ls ms. cluster_run [NewConsensusNode ''a''] ls ms \<and> vote ls 0 1 ''c'' \<and>
     (\<forall>b. vote ls 0 1 b \<longrightarrow> ''c'' = b)"
proof -
  obtain r acts n where h: "HandleMessage ([NewConsensusNode ''a''] ! 0) (vote_request 1 ''c'') = ((r, acts), n)"
    by (metis surj_pair)
  let ?ls = "[] @ [Deliver 0 (vote_request 1 ''c'') r]"
  have run: "cluster_run [NewConsensusNode ''a''] ?ls ([NewConsensusNode ''a''][0 := n])"
    by (rule cluster_run.deliver [OF cluster_run.start _ h]) simp
  have r: "r = Some (reply_msg ''VOTE'' n) \<and> cn_Term n = 1"
    using h by (auto simp: HandleMessage_def NewConsensusNode_def vote_request_def Let_def)
  have v: "vote ?ls 0 1 ''c''"
    using r by (simp add: vote_def reply_msg_def vote_request_def)
  have "named_candidates ?ls" "no_wrapped_term ?ls"
    by (auto simp: named_candidates_def no_wrapped_term_def vote_request_def)
  from election_safety [OF run this] run v show ?thesis by fastforce
qed

text \<open>Both conditions are needed, and voting is not live: a node at the greatest term
  restarts at term 0, so the same node can vote again, for somebody else, in a term it has
  already voted in; a candidate without a name leaves the vote open; and a node that has voted
  once and then learns of a later term from a heartbeat refuses every vote request of that
  term, since its vote is not cleared.\<close>

lemma vote_corner_cases:
  "GEBAdvanceTerm (n\<lparr>cn_Term := - 1\<rparr>) = (0, n\<lparr>cn_Term := 0, cn_State := StateCandidate\<rparr>) \<and>
   (\<exists>ls ms. cluster_run [NewConsensusNode ''a''] ls ms \<and> no_wrapped_term ls \<and>
      vote ls 0 1 [] \<and> vote ls 0 1 ''c'') \<and>
   (let voted = snd (HandleMessage (NewConsensusNode ''a'') (vote_request 1 ''c''));
        later = snd (HandleMessage voted (heartbeat 2 ''l''))
    in cn_Term later = 2 \<and> (\<forall>c. HandleMessage later (vote_request 2 c) = ((None, []), later)))"
proof (intro conjI)
  show "GEBAdvanceTerm (n\<lparr>cn_Term := - 1\<rparr>) = (0, n\<lparr>cn_Term := 0, cn_State := StateCandidate\<rparr>)"
    by (simp add: GEBAdvanceTerm_def)
  let ?n0 = "NewConsensusNode ''a''"
  obtain r1 a1 n1 where h1: "HandleMessage ([?n0] ! 0) (vote_request 1 []) = ((r1, a1), n1)"
    by (metis surj_pair)
  obtain r2 a2 n2 where h2: "HandleMessage (([?n0][0 := n1]) ! 0) (vote_request 1 ''c'') = ((r2, a2), n2)"
    by (metis surj_pair)
  let ?ls = "([] @ [Deliver 0 (vote_request 1 []) r1]) @ [Deliver 0 (vote_request 1 ''c'') r2]"
  have "cluster_run [?n0] ?ls (([?n0][0 := n1])[0 := n2])"
    by (rule cluster_run.deliver [OF cluster_run.deliver [OF cluster_run.start _ h1] _ h2]) simp_all
  moreover have r1: "r1 = Some (reply_msg ''VOTE'' n1) \<and> cn_Term n1 = 1 \<and> cn_VotedFor n1 = []"
    using h1 by (auto simp: HandleMessage_def NewConsensusNode_def vote_request_def Let_def)
  moreover from this have r2: "r2 = Some (reply_msg ''VOTE'' n2) \<and> cn_Term n2 = 1"
    using h2 by (auto simp: HandleMessage_def vote_request_def Let_def)
  moreover have "vote ?ls 0 1 []"
    by (rule voteI [of _ "vote_request 1 []" "reply_msg ''VOTE'' n1"])
      (use r1 in \<open>simp_all add: reply_msg_def vote_request_def\<close>)
  moreover have "vote ?ls 0 1 ''c''"
    by (rule voteI [of _ "vote_request 1 ''c''" "reply_msg ''VOTE'' n2"])
      (use r2 in \<open>simp_all add: reply_msg_def vote_request_def\<close>)
  moreover have "no_wrapped_term ?ls" by (simp add: no_wrapped_term_def)
  ultimately show "\<exists>ls ms. cluster_run [?n0] ls ms \<and> no_wrapped_term ls \<and> vote ls 0 1 [] \<and> vote ls 0 1 ''c''"
    by blast
  show "let voted = snd (HandleMessage ?n0 (vote_request 1 ''c''));
        later = snd (HandleMessage voted (heartbeat 2 ''l''))
    in cn_Term later = 2 \<and> (\<forall>c. HandleMessage later (vote_request 2 c) = ((None, []), later))"
    by (simp add: HandleMessage_def NewConsensusNode_def vote_request_def heartbeat_def Let_def)
qed

section \<open>A candidate can win\<close>

text \<open>A candidate's request for votes, delivered to the given nodes in turn: the deliveries with
  their replies, and the cluster afterwards.\<close>

primrec campaign :: "u64 \<Rightarrow> string \<Rightarrow> nat list \<Rightarrow> ConsensusNode list \<Rightarrow>
    cluster_event list \<times> ConsensusNode list" where
  "campaign T c [] ms = ([], ms)"
| "campaign T c (i # is) ms =
     (let h = HandleMessage (ms ! i) (vote_request T c); rest = campaign T c is (ms[i := snd h])
      in (Deliver i (vote_request T c) (fst (fst h)) # fst rest, snd rest))"

definition willing :: "u64 \<Rightarrow> ConsensusNode \<Rightarrow> bool" where
  "willing T n \<longleftrightarrow> cn_Term n < T \<or> (cn_Term n = T \<and> cn_VotedFor n = [])"

lemma willing_votes:
  "willing T n \<Longrightarrow> \<exists>r. fst (fst (HandleMessage n (vote_request T c))) = Some r \<and> m_Type r = ''VOTE'' \<and>
     m_Term r = T"
  by (auto simp: willing_def HandleMessage_def vote_request_def reply_msg_def Let_def)

lemma campaign_run:
  "cluster_run ns ls ms \<Longrightarrow> \<forall>i \<in> set is. i < length ms \<Longrightarrow>
   cluster_run ns (ls @ fst (campaign T c is ms)) (snd (campaign T c is ms))"
proof (induction "is" arbitrary: ls ms)
  case (Cons i "is")
  have "HandleMessage (ms ! i) (vote_request T c) =
      ((fst (fst (HandleMessage (ms ! i) (vote_request T c))), snd (fst (HandleMessage (ms ! i) (vote_request T c)))),
       snd (HandleMessage (ms ! i) (vote_request T c)))" by simp
  from cluster_run.deliver [OF Cons.prems(1) _ this] Cons.prems(2)
  have "cluster_run ns (ls @ [Deliver i (vote_request T c) (fst (fst (HandleMessage (ms ! i) (vote_request T c))))])
      (ms[i := snd (HandleMessage (ms ! i) (vote_request T c))])" by simp
  from Cons.IH [OF this] Cons.prems(2) show ?case by (simp add: Let_def)
qed simp

lemma campaign_votes:
  "distinct is \<Longrightarrow> \<forall>i \<in> set is. i < length ms \<Longrightarrow> i \<in> set is \<Longrightarrow> willing T (ms ! i) \<Longrightarrow>
   vote (fst (campaign T c is ms)) i T c"
proof (induction "is" arbitrary: ms)
  case (Cons j js)
  let ?h = "HandleMessage (ms ! j) (vote_request T c)"
  show ?case
  proof (cases "i = j")
    case True
    from willing_votes [OF Cons.prems(4), of c] obtain r where
      r: "fst (fst (HandleMessage (ms ! i) (vote_request T c))) = Some r" "m_Type r = ''VOTE''" "m_Term r = T"
      by blast
    show ?thesis
    proof (rule voteI [OF _ r(2,3)])
      show "Deliver i (vote_request T c) (Some r) \<in> set (fst (campaign T c (j # js) ms))"
        using r(1) by (simp add: True Let_def)
      show "m_FromID (vote_request T c) = c" by (simp add: vote_request_def)
    qed
  next
    case False
    then have "vote (fst (campaign T c js (ms[j := snd ?h]))) i T c"
      using Cons.IH [of "ms[j := snd ?h]"] Cons.prems by simp
    then show ?thesis by (auto simp: vote_def Let_def)
  qed
qed simp

text \<open>C24: Elections can be won.  From any reachable cluster, delivering one vote request of a
  candidate to every node is a possible continuation in which each node gives its vote that is
  behind the requested term, or is at it without having voted; so with a quorum of such nodes
  the candidate gathers a quorum of votes.\<close>

theorem election_can_be_won:
  assumes "cluster_run ns ls ms"
    and "unat (GEB_THRESHOLD (length ns)) \<le> card {i. i < length ms \<and> willing T (ms ! i)}"
  shows "case campaign T c [0..<length ms] ms of (es, ms') \<Rightarrow>
    cluster_run ns (ls @ es) ms' \<and> length es = length ms \<and>
    {i. i < length ms \<and> willing T (ms ! i)} \<subseteq> {i. vote (ls @ es) i T c} \<and>
    unat (GEB_THRESHOLD (length ns)) \<le> card {i. i < length ms \<and> vote (ls @ es) i T c}"
proof -
  obtain es ms' where c: "campaign T c [0..<length ms] ms = (es, ms')" by fastforce
  have run: "cluster_run ns (ls @ es) ms'"
    using campaign_run [OF assms(1), of "[0..<length ms]" T c] c by simp
  have len: "length (fst (campaign T c is xs)) = length is" for "is" xs
    by (induction "is" arbitrary: xs) (simp_all add: Let_def)
  have v: "vote (ls @ es) i T c" if "i < length ms" "willing T (ms ! i)" for i
    using campaign_votes [of "[0..<length ms]" ms i T c] that c by (auto simp: vote_def)
  then have "{i. i < length ms \<and> willing T (ms ! i)} \<subseteq> {i. i < length ms \<and> vote (ls @ es) i T c}" by blast
  then have "card {i. i < length ms \<and> willing T (ms ! i)} \<le> card {i. i < length ms \<and> vote (ls @ es) i T c}"
    by (intro card_mono) simp_all
  with run v len [of "[0..<length ms]" ms] assms(2) c show ?thesis by auto
qed

theorem election_can_be_won_witness:
  "\<exists>es ms'. cluster_run (fresh_cluster [''a'', ''b'']) es ms' \<and>
     2 \<le> card {i. i < 2 \<and> vote es i 1 ''a''}"
proof -
  let ?ns = "fresh_cluster [''a'', ''b'']"
  have len: "length ?ns = 2" by (simp add: fresh_cluster_def)
  have "willing 1 (?ns ! i)" if "i < 2" for i
    using that by (auto simp: fresh_cluster_def willing_def NewConsensusNode_def less_2_cases_iff)
  then have "{i. i < length ?ns \<and> willing 1 (?ns ! i)} = {..<2}" unfolding len by auto
  moreover have "unat (GEB_THRESHOLD (length ?ns)) = 2" unfolding len by (simp add: GEB_THRESHOLD_def)
  ultimately have "unat (GEB_THRESHOLD (length ?ns)) \<le> card {i. i < length ?ns \<and> willing 1 (?ns ! i)}" by simp
  from election_can_be_won [OF cluster_run.start this, of "''a''"] \<open>unat _ = 2\<close> len
  show ?thesis by (auto split: prod.splits)
qed

end
