(* ===== verification/ConsensusSpec.thy ===== *)
theory ConsensusSpec
  imports Election
begin

text \<open>
  The invariants that \<open>BuildConsensusSpec\<close> of \<open>pkg/formal/spec.go\<close> states for the nodes, against
  the clusters the code can reach: \<open>INV_NoSplitBrain\<close> is what \<open>CheckNoSplitBrain\<close> decides,
  \<open>INV_Consistency\<close> does not hold, and a term may grow by more than the one step that
  \<open>MonotonicTerm\<close> allows.
\<close>

definition INV_Consistency :: "ConsensusNode list \<Rightarrow> bool" where
  "INV_Consistency ms \<longleftrightarrow> (\<forall>n \<in> set ms. \<forall>m \<in> set ms. cn_Term n = cn_Term m \<longrightarrow>
     es_log (cn_Store n) = es_log (cn_Store m))"

definition INV_NoSplitBrain :: "ConsensusNode list \<Rightarrow> bool" where
  "INV_NoSplitBrain ms \<longleftrightarrow> length (filter (\<lambda>n. cn_State n = StateLeader) ms) \<le> 1"

definition MonotonicTerm :: "ConsensusNode list \<Rightarrow> ConsensusNode list \<Rightarrow> bool" where
  "MonotonicTerm ms ms' \<longleftrightarrow> list_all2 (\<lambda>n n'. cn_Term n \<le> cn_Term n' \<and>
     (cn_Term n' = cn_Term n \<or> cn_Term n' = cn_Term n + 1)) ms ms'"

lemma split_brain_check: "cons_CheckNoSplitBrain ms \<longleftrightarrow> INV_NoSplitBrain ms"
  by (simp add: cons_CheckNoSplitBrain_def leaders_loop_count INV_NoSplitBrain_def)

definition append_request :: "u64 \<Rightarrow> string \<Rightarrow> u64 \<Rightarrow> string \<Rightarrow> Message" where
  "append_request t trace seq h = \<lparr>m_Type = ''APPEND'', m_Term = t, m_FromID = ''l'', m_TraceID = trace,
     m_Seq = seq, m_EventHash = h\<rparr>"

text \<open>One APPEND delivered to one of two fresh nodes breaks \<open>INV_Consistency\<close>; one heartbeat of a
  later term breaks \<open>MonotonicTerm\<close>.\<close>

lemma cluster_breaks_INV_Consistency:
  "\<exists>ls ms. cluster_run (fresh_cluster [''a'', ''b'']) ls ms \<and> \<not> INV_Consistency ms \<and> INV_NoSplitBrain ms"
proof -
  let ?ns = "fresh_cluster [''a'', ''b'']"
  obtain r acts n where h: "HandleMessage (?ns ! 0) (append_request 0 ''t'' 1 ''h'') = ((r, acts), n)"
    by (metis surj_pair)
  have "cluster_run ?ns ([] @ [Deliver 0 (append_request 0 ''t'' 1 ''h'') r]) (?ns[0 := n])"
    by (rule cluster_run.deliver [OF cluster_run.start _ h]) (simp add: fresh_cluster_def)
  moreover have n: "cn_Term n = 0" "es_log (cn_Store n) \<noteq> []" "cn_State n = StateFollower"
    using h by (auto simp: fresh_cluster_def HandleMessage_def NewConsensusNode_def NewEventStore_def
        append_request_def store_defs Let_def)
  then have "\<not> INV_Consistency (?ns[0 := n])" "INV_NoSplitBrain (?ns[0 := n])"
    by (auto simp: INV_Consistency_def INV_NoSplitBrain_def fresh_cluster_def NewConsensusNode_def
        NewEventStore_def)
  ultimately show ?thesis by blast
qed

lemma heartbeat_breaks_MonotonicTerm:
  "\<exists>ls ms. cluster_run (fresh_cluster [''a'']) ls ms \<and> length ls = 1 \<and>
     \<not> MonotonicTerm (fresh_cluster [''a'']) ms"
proof -
  let ?ns = "fresh_cluster [''a'']"
  obtain r acts n where h: "HandleMessage (?ns ! 0) (heartbeat 7 ''l'') = ((r, acts), n)"
    by (metis surj_pair)
  have "cluster_run ?ns ([] @ [Deliver 0 (heartbeat 7 ''l'') r]) (?ns[0 := n])"
    by (rule cluster_run.deliver [OF cluster_run.start _ h]) (simp add: fresh_cluster_def)
  moreover have "cn_Term n = 7"
    using h by (auto simp: fresh_cluster_def HandleMessage_def NewConsensusNode_def heartbeat_def Let_def)
  then have "\<not> MonotonicTerm ?ns (?ns[0 := n])"
    by (simp add: MonotonicTerm_def fresh_cluster_def NewConsensusNode_def)
  ultimately show ?thesis by (metis append_Nil length_Cons list.size(3) One_nat_def)
qed

end
