(* ===== verification/Snapshot.thy ===== *)
theory Snapshot
  imports Consensus
begin

text \<open>
  Snapshots and fast replay (\<open>pkg/snapshot/store.go\<close>).  A Go panic is the left value of the
  result, with its text.  Copying a map by ranging over it is \<open>Map.empty ++ m\<close>.  The theorems
  relate a snapshot to the event store it was taken from.
\<close>

section \<open>Snapshots\<close>

record Snapshot =
  sn_LastSeq :: "string \<rightharpoonup> u64"
  sn_LastHash :: "string \<rightharpoonup> string"
  sn_Timestamp :: u64

record snap_Event =
  se_TraceID :: string
  se_Seq :: u64
  se_EventHash :: string

definition snap_New :: Snapshot where
  "snap_New = \<lparr>sn_LastSeq = Map.empty, sn_LastHash = Map.empty, sn_Timestamp = 0\<rparr>"

definition CreateSnapshot :: "(string \<rightharpoonup> u64) \<Rightarrow> (string \<rightharpoonup> string) \<Rightarrow> u64 \<Rightarrow> Snapshot" where
  "CreateSnapshot lastSeq lastHash tick =
     \<lparr>sn_LastSeq = Map.empty ++ lastSeq, sn_LastHash = Map.empty ++ lastHash, sn_Timestamp = tick\<rparr>"

definition snap_Clone :: "Snapshot \<Rightarrow> Snapshot" where
  "snap_Clone s =
     \<lparr>sn_LastSeq = Map.empty ++ sn_LastSeq s, sn_LastHash = Map.empty ++ sn_LastHash s,
      sn_Timestamp = sn_Timestamp s\<rparr>"

lemma snap_Clone_same [simp]: "snap_Clone s = s"
  by (simp add: snap_Clone_def)

text \<open>\<open>formatUint64\<close>; \<open>None\<close> would be an index out of range.\<close>

definition formatUint64 :: "u64 \<Rightarrow> string option" where
  "formatUint64 v =
     (if v = 0 then Some ''0''
      else map_option (\<lambda>(n, buf). drop (20 - n) buf)
             (dec_loop v 0 (replicate 20 (char_of (0 :: nat)))))"

lemma formatUint64_same: "formatUint64 v = cons_u64 v"
  by (simp add: formatUint64_def cons_u64_def)

definition seq_panic :: "u64 \<Rightarrow> u64 \<Rightarrow> string \<Rightarrow> string" where
  "seq_panic want got traceID =
     (case (formatUint64 want, formatUint64 got) of
        (Some w, Some g) \<Rightarrow>
          ''snapshot.FastReplay: sequence violation '' @ em_dash @
          '' expected '' @ w @ '' got '' @ g @ '' traceID='' @ traceID
      | _ \<Rightarrow> ''index out of range'')"

definition fast_step :: "Snapshot \<Rightarrow> snap_Event \<Rightarrow> string + Snapshot" where
  "fast_step result ev =
     (case sn_LastSeq result (se_TraceID ev) of
        Some lastSeq \<Rightarrow>
          if se_Seq ev \<noteq> lastSeq + 1 then Inl (seq_panic (lastSeq + 1) (se_Seq ev) (se_TraceID ev))
          else Inr (result\<lparr>sn_LastSeq := (sn_LastSeq result)(se_TraceID ev \<mapsto> se_Seq ev),
                           sn_LastHash := (sn_LastHash result)(se_TraceID ev \<mapsto> se_EventHash ev)\<rparr>)
      | None \<Rightarrow>
          if se_Seq ev \<noteq> 1
          then Inl (''snapshot.FastReplay: first event seq != 1 '' @
                    em_dash @ '' traceID='' @ se_TraceID ev)
          else Inr (result\<lparr>sn_LastSeq := (sn_LastSeq result)(se_TraceID ev \<mapsto> se_Seq ev),
                           sn_LastHash := (sn_LastHash result)(se_TraceID ev \<mapsto> se_EventHash ev)\<rparr>))"

definition FastReplay :: "Snapshot \<Rightarrow> snap_Event list \<Rightarrow> string + Snapshot" where
  "FastReplay snap events = run_steps fast_step (snap_Clone snap) events"

section \<open>The equivalence check\<close>

record EquivError =
  eq_TraceID :: string
  eq_Kind :: string
  eq_Have :: u64
  eq_Want :: u64
  eq_Snapshot :: u64

definition EquivError_Error :: "EquivError \<Rightarrow> string option" where
  "EquivError_Error e =
     (case (formatUint64 (eq_Have e), formatUint64 (eq_Want e)) of
        (Some have, Some want) \<Rightarrow>
          Some (''snapshot equivalence violated: traceID='' @ eq_TraceID e @ '' kind='' @ eq_Kind e @
                '' have='' @ have @ '' want='' @ want)
      | _ \<Rightarrow> None)"

definition by_trace :: "snap_Event list \<Rightarrow> (string \<rightharpoonup> snap_Event)" where
  "by_trace events = foldl (\<lambda>m ev. m(se_TraceID ev \<mapsto> ev)) Map.empty events"

text \<open>Go ranges over the map in an order of its own choice: \<open>order\<close> lists the keys.  A missing
  entry reads as the zero value.\<close>

definition zero_or :: "u64 option \<Rightarrow> u64" where
  "zero_or x = (case x of None \<Rightarrow> 0 | Some v \<Rightarrow> v)"

primrec equiv_loop :: "Snapshot \<Rightarrow> Snapshot \<Rightarrow> (string \<rightharpoonup> snap_Event) \<Rightarrow> string list \<Rightarrow>
    EquivError option" where
  "equiv_loop snap replayed byTrace [] = None"
| "equiv_loop snap replayed byTrace (traceID # order) =
     (case byTrace traceID of
        None \<Rightarrow> equiv_loop snap replayed byTrace order
      | Some finalEvent \<Rightarrow>
          let snapHasSeq = sn_LastSeq snap traceID \<noteq> None;
              snapSeq = zero_or (sn_LastSeq snap traceID);
              replayedHasSeq = sn_LastSeq replayed traceID \<noteq> None;
              replayedSeq = zero_or (sn_LastSeq replayed traceID);
              err = \<lparr>eq_TraceID = traceID, eq_Kind = ''seq_mismatch'', eq_Have = replayedSeq,
                     eq_Want = se_Seq finalEvent, eq_Snapshot = snapSeq\<rparr>
          in if \<not> snapHasSeq \<and> replayedSeq \<noteq> se_Seq finalEvent then Some err
             else if snapHasSeq \<and> replayedHasSeq then
               if snapSeq = replayedSeq then equiv_loop snap replayed byTrace order
               else if replayedSeq \<noteq> se_Seq finalEvent then Some err
               else equiv_loop snap replayed byTrace order
             else equiv_loop snap replayed byTrace order)"

definition EquivalenceProof :: "Snapshot \<Rightarrow> snap_Event list \<Rightarrow> u64 \<Rightarrow> string list \<Rightarrow>
    string + EquivError option" where
  "EquivalenceProof snap logEvents clockTick order =
     (case FastReplay snap logEvents of
        Inl p \<Rightarrow> Inl p
      | Inr replayed \<Rightarrow> Inr (equiv_loop snap replayed (by_trace logEvents) order))"

section \<open>What fast replay computes\<close>

definition snap_events :: "string \<Rightarrow> snap_Event list \<Rightarrow> snap_Event list" where
  "snap_events t es = filter (\<lambda>e. se_TraceID e = t) es"

lemma snap_events_snoc [simp]:
  "snap_events t (es @ [e]) = (if se_TraceID e = t then snap_events t es @ [e] else snap_events t es)"
  by (simp add: snap_events_def)

lemma snap_events_Nil [simp]: "snap_events t [] = []"
  by (simp add: snap_events_def)

fun numbered :: "u64 \<Rightarrow> u64 list \<Rightarrow> bool" where
  "numbered n [] = True"
| "numbered n (x # xs) = (x = n + 1 \<and> numbered x xs)"

lemma numbered_snoc: "numbered n (xs @ [x]) \<longleftrightarrow> numbered n xs \<and> x = last_or n (\<lambda>x. x) xs + 1"
  by (induction xs arbitrary: n) auto

lemma numbered_last: "numbered n xs \<Longrightarrow> last_or n (\<lambda>x. x) xs = n + of_nat (length xs)"
  by (induction xs arbitrary: n) (auto simp: add.assoc)

text \<open>The maps of the replayed snapshot: the last event of each trace, or the old entry.\<close>

definition replayed_maps :: "Snapshot \<Rightarrow> snap_Event list \<Rightarrow> Snapshot" where
  "replayed_maps snap es = snap\<lparr>
     sn_LastSeq := (\<lambda>t. last_or (sn_LastSeq snap t) (\<lambda>e. Some (se_Seq e)) (snap_events t es)),
     sn_LastHash := (\<lambda>t. last_or (sn_LastHash snap t) (\<lambda>e. Some (se_EventHash e)) (snap_events t es))\<rparr>"

definition replayable :: "Snapshot \<Rightarrow> snap_Event list \<Rightarrow> bool" where
  "replayable snap es \<longleftrightarrow>
     (\<forall>t. numbered (zero_or (sn_LastSeq snap t)) (map se_Seq (snap_events t es)))"

lemma replayable_snoc:
  "replayable snap (es @ [e]) \<longleftrightarrow> replayable snap es \<and>
     se_Seq e = zero_or (sn_LastSeq (replayed_maps snap es) (se_TraceID e)) + 1"
proof -
  have last: "last_or (zero_or m) (\<lambda>x. x) (map se_Seq xs) =
      zero_or (last_or m (\<lambda>e. Some (se_Seq e)) xs)" for m xs
    by (simp add: last_or_def zero_or_def last_map)
  show ?thesis
    by (auto simp: replayable_def numbered_snoc last replayed_maps_def)
qed

lemma fast_step_iff:
  "fast_step s e = Inr s' \<longleftrightarrow> se_Seq e = zero_or (sn_LastSeq s (se_TraceID e)) + 1 \<and>
     s' = s\<lparr>sn_LastSeq := (sn_LastSeq s)(se_TraceID e \<mapsto> se_Seq e),
            sn_LastHash := (sn_LastHash s)(se_TraceID e \<mapsto> se_EventHash e)\<rparr>"
  by (auto simp: fast_step_def zero_or_def split: option.splits)

lemma FastReplay_cases:
  "(case FastReplay snap es of
      Inl _ \<Rightarrow> \<not> replayable snap es
    | Inr r \<Rightarrow> replayable snap es \<and> r = replayed_maps snap es)"
proof (induction es rule: rev_induct)
  case Nil
  then show ?case by (simp add: FastReplay_def replayable_def replayed_maps_def)
next
  case (snoc e es)
  show ?case
  proof (cases "FastReplay snap es")
    case (Inl p)
    with snoc show ?thesis by (simp add: FastReplay_def run_steps_append replayable_snoc)
  next
    case (Inr r)
    with snoc have r: "replayable snap es" "r = replayed_maps snap es" by simp_all
    have step: "FastReplay snap (es @ [e]) = fast_step r e"
      using Inr by (auto simp: FastReplay_def run_steps_append split: sum.split)
    have maps: "replayed_maps snap (es @ [e]) = r\<lparr>sn_LastSeq := (sn_LastSeq r)(se_TraceID e \<mapsto> se_Seq e),
            sn_LastHash := (sn_LastHash r)(se_TraceID e \<mapsto> se_EventHash e)\<rparr>"
      by (auto simp: r(2) replayed_maps_def fun_eq_iff)
    show ?thesis
    proof (cases "fast_step r e")
      case (Inl p)
      then have "se_Seq e \<noteq> zero_or (sn_LastSeq r (se_TraceID e)) + 1"
        using fast_step_iff [of r e] by auto
      with Inl step r show ?thesis by (simp add: replayable_snoc)
    next
      case (Inr r')
      with step fast_step_iff [of r e r'] r maps show ?thesis by (simp add: replayable_snoc)
    qed
  qed
qed

lemma FastReplay_Inr_iff:
  "FastReplay snap es = Inr r \<longleftrightarrow> replayable snap es \<and> r = replayed_maps snap es"
  using FastReplay_cases [of snap es] by (auto split: sum.splits)

text \<open>C17: \<open>FastReplay\<close> panics exactly when some trace of the events is not numbered
  consecutively from the snapshot's last sequence number (from 1 for a new trace); otherwise the
  result holds, for every trace, the sequence number and hash of its last event, or the
  snapshot's entry when the trace has no event, and the snapshot's timestamp.  Replaying two
  batches one after the other is replaying their concatenation.\<close>

theorem fast_replay_correct:
  "(case FastReplay snap es of
      Inl _ \<Rightarrow> \<not> replayable snap es
    | Inr r \<Rightarrow> replayable snap es \<and> r = replayed_maps snap es) \<and>
   FastReplay snap (es @ fs) = (case FastReplay snap es of Inl p \<Rightarrow> Inl p | Inr r \<Rightarrow> FastReplay r fs)"
proof
  show "FastReplay snap (es @ fs) = (case FastReplay snap es of Inl p \<Rightarrow> Inl p | Inr r \<Rightarrow> FastReplay r fs)"
    by (cases "run_steps fast_step snap es") (simp_all add: FastReplay_def run_steps_append)
qed (rule FastReplay_cases)

section \<open>Snapshots of an event store\<close>

definition reduce_event :: "cons_Event \<Rightarrow> snap_Event" where
  "reduce_event e = \<lparr>se_TraceID = ce_TraceID e, se_Seq = ce_Seq e, se_EventHash = ce_EventHash e\<rparr>"

definition snapshot_of :: "EventStore \<Rightarrow> u64 \<Rightarrow> Snapshot" where
  "snapshot_of s tick = CreateSnapshot (es_lastSeq s) (es_lastHash s) tick"

lemma snapshot_of_Append:
  assumes "store_Append s e = Inr s'"
  shows "fast_step (snapshot_of s tick) (reduce_event e) = Inr (snapshot_of s' tick)"
proof -
  have s': "s' = \<lparr>es_log = es_log s @ [e],
      es_lastSeq = (es_lastSeq s)(ce_TraceID e \<mapsto> ce_Seq e),
      es_lastHash = (es_lastHash s)(ce_TraceID e \<mapsto> ce_EventHash e)\<rparr>"
    using assms by (auto simp: store_Append_def split: option.splits)
  have "ce_Seq e = zero_or (es_lastSeq s (ce_TraceID e)) + 1"
    using assms by (auto simp: store_defs zero_or_def split: option.splits if_splits)
  then show ?thesis
    by (simp add: fast_step_iff s' snapshot_of_def CreateSnapshot_def reduce_event_def)
qed

interpretation store_snapshot: fallible_sim store_Append fast_step reduce_event
    "\<lambda>s t. \<exists>tick. t = snapshot_of s tick"
  by unfold_locales (use snapshot_of_Append in blast)

lemma replay_from_snapshot:
  assumes "run_steps store_Append s es = Inr s'"
  shows "FastReplay (snapshot_of s tick) (map reduce_event es) = Inr (snapshot_of s' tick)"
proof -
  obtain tick' where t: "run_steps fast_step (snapshot_of s tick) (map reduce_event es) =
      Inr (snapshot_of s' tick')"
    using store_snapshot.run_sim [where s = s and t = "snapshot_of s tick" and es = es and s' = s'] assms by blast
  then have "FastReplay (snapshot_of s tick) (map reduce_event es) = Inr (snapshot_of s' tick')"
    by (simp add: FastReplay_def)
  moreover from this have "tick' = tick"
    using FastReplay_Inr_iff [of "snapshot_of s tick" "map reduce_event es" "snapshot_of s' tick'"]
    by (simp add: replayed_maps_def snapshot_of_def CreateSnapshot_def)
  ultimately show ?thesis by simp
qed

text \<open>C6: Replay(Snapshot) = Replay(Log), the equivalence the package states (C2): cut a log the
  event store accepts at any point; fast replay of the rest from a snapshot taken at the cut
  does not panic and gives the snapshot of the final store, which is also what fast replay of
  the whole log from the empty snapshot gives.\<close>

theorem snapshot_replay_equivalence:
  assumes "run_steps store_Append NewEventStore (pre @ post) = Inr final"
    and "run_steps store_Append NewEventStore pre = Inr mid"
  shows "FastReplay (CreateSnapshot (es_lastSeq mid) (es_lastHash mid) tick) (map reduce_event post) =
      Inr (CreateSnapshot (es_lastSeq final) (es_lastHash final) tick) \<and>
    FastReplay (snap_New\<lparr>sn_Timestamp := tick\<rparr>) (map reduce_event (pre @ post)) =
      Inr (CreateSnapshot (es_lastSeq final) (es_lastHash final) tick)"
proof -
  have "run_steps store_Append mid post = Inr final" using assms by (simp add: run_steps_append)
  moreover have "snap_New\<lparr>sn_Timestamp := tick\<rparr> = snapshot_of NewEventStore tick"
    by (simp add: snap_New_def snapshot_of_def CreateSnapshot_def NewEventStore_def)
  ultimately show ?thesis
    using replay_from_snapshot [of mid post final tick] replay_from_snapshot [OF assms(1), of tick]
    by (simp add: snapshot_of_def)
qed

definition log3 :: "cons_Event list" where
  "log3 = [\<lparr>ce_TraceID = ''a'', ce_Seq = 1, ce_PrevHash = [], ce_EventHash = ''h1''\<rparr>,
           \<lparr>ce_TraceID = ''b'', ce_Seq = 1, ce_PrevHash = [], ce_EventHash = ''k1''\<rparr>,
           \<lparr>ce_TraceID = ''a'', ce_Seq = 2, ce_PrevHash = ''h1'', ce_EventHash = ''h2''\<rparr>]"

theorem snapshot_replay_witness:
  "\<exists>mid final. run_steps store_Append NewEventStore (take 1 log3) = Inr mid \<and>
     run_steps store_Append NewEventStore (take 1 log3 @ drop 1 log3) = Inr final \<and>
     FastReplay (CreateSnapshot (es_lastSeq mid) (es_lastHash mid) 9) (map reduce_event (drop 1 log3)) =
       Inr (CreateSnapshot (es_lastSeq final) (es_lastHash final) 9) \<and>
     es_lastHash final ''a'' = Some ''h2''"
proof -
  obtain mid where mid: "run_steps store_Append NewEventStore (take 1 log3) = Inr mid"
    by (simp add: log3_def store_defs NewEventStore_def)
  obtain final where final: "run_steps store_Append NewEventStore (take 1 log3 @ drop 1 log3) = Inr final"
    and tip: "es_lastHash final ''a'' = Some ''h2''"
    by (simp add: log3_def store_defs NewEventStore_def)
  from snapshot_replay_equivalence [OF final mid, of 9] mid final tip show ?thesis by blast
qed

section \<open>What the checks miss\<close>

lemma by_trace_last: "by_trace es t = last_or None Some (snap_events t es)"
  by (induction es rule: rev_induct) (auto simp: by_trace_def)

lemma EquivalenceProof_result:
  "EquivalenceProof snap es tick order =
     (case FastReplay snap es of Inl p \<Rightarrow> Inl p | Inr _ \<Rightarrow> Inr None)"
proof (cases "FastReplay snap es")
  case (Inr r)
  have "equiv_loop snap r (by_trace es) order = None"
  proof (induction order)
    case (Cons t order)
    show ?case
    proof (cases "snap_events t es = []")
      case True
      then have "by_trace es t = None" by (simp add: by_trace_last)
      with Cons show ?thesis by simp
    next
      case False
      then have "by_trace es t = Some (last (snap_events t es))"
        "sn_LastSeq r t = Some (se_Seq (last (snap_events t es)))"
        using Inr by (simp_all add: by_trace_last last_or_def FastReplay_Inr_iff replayed_maps_def)
      with Cons show ?thesis by (simp add: zero_or_def Let_def)
    qed
  qed simp
  with Inr show ?thesis by (simp add: EquivalenceProof_def)
qed (simp add: EquivalenceProof_def)

text \<open>C26: \<open>EquivalenceProof\<close> never returns an error: whatever the snapshot, the events and the
  order of the map iteration, it returns nil when \<open>FastReplay\<close> does not panic, and panics
  otherwise.  Its result says nothing about the snapshot beyond that.\<close>

theorem equivalence_proof_never_errs:
  "EquivalenceProof snap es tick order =
     (case FastReplay snap es of Inl p \<Rightarrow> Inl p | Inr _ \<Rightarrow> Inr None)"
  by (rule EquivalenceProof_result)

text \<open>Fast replay does not look at hashes of predecessors: there is an event the store
  refuses as a hash violation that fast replay and \<open>EquivalenceProof\<close> accept.\<close>

lemma fast_replay_ignores_hash_chain:
  "\<exists>es s e err. run_steps store_Append NewEventStore es = Inr s \<and>
     store_Append s e = Inl err \<and> ae_Kind err = hash_violation_str \<and>
     (\<exists>r. FastReplay (snapshot_of s tick) [reduce_event e] = Inr r) \<and>
     EquivalenceProof (snapshot_of s tick) [reduce_event e] tick [''a''] = Inr None"
proof -
  let ?es = "take 1 log3"
  let ?e = "\<lparr>ce_TraceID = ''a'', ce_Seq = 2, ce_PrevHash = ''forged'', ce_EventHash = ''h2''\<rparr>"
  obtain s where s: "run_steps store_Append NewEventStore ?es = Inr s" "es_lastSeq s ''a'' = Some 1"
    "es_lastHash s ''a'' = Some ''h1''"
    by (simp add: log3_def store_defs NewEventStore_def)
  then obtain err where "store_Append s ?e = Inl err" "ae_Kind err = hash_violation_str"
    by (simp add: store_defs)
  moreover have "replayable (snapshot_of s tick) [reduce_event ?e]"
    using s(2) by (simp add: replayable_def snap_events_def reduce_event_def snapshot_of_def
        CreateSnapshot_def zero_or_def)
  then obtain r where r: "FastReplay (snapshot_of s tick) [reduce_event ?e] = Inr r"
    using FastReplay_Inr_iff by blast
  moreover have "EquivalenceProof (snapshot_of s tick) [reduce_event ?e] tick [''a''] = Inr None"
    using EquivalenceProof_result [of "snapshot_of s tick" "[reduce_event ?e]" tick "[''a'']"] r by simp
  ultimately show ?thesis using s(1) by blast
qed

end
