(* ===== verification/Guard.thy ===== *)
theory Guard
  imports Consensus
begin

text \<open>
  The runtime guard (\<open>pkg/invariant/guard.go\<close>): the check of one event against the one
  before it, and the two checks of a whole recovered log.  \<open>Some msg\<close> is a panic with that
  text, \<open>None\<close> a normal return.
\<close>

section \<open>The three checks\<close>

record inv_Event =
  ie_TraceID :: string
  ie_Seq :: u64
  ie_Tick :: u64
  ie_Type :: string
  ie_PrevHash :: string
  ie_EventHash :: string
  ie_SchemaID :: string
  ie_SchemaVer :: string
  ie_EpochMs :: int

definition CheckEvent :: "inv_Event \<Rightarrow> inv_Event option \<Rightarrow> string option" where
  "CheckEvent e prev =
     (if ie_Seq e < 1 then
        Some (''INV4 violated: seq='' @ fmt_u64 (ie_Seq e) @ '' (< 1) traceID='' @ ie_TraceID e @
              '' tick='' @ fmt_u64 (ie_Tick e))
      else
        let ehash = (if ie_EventHash e = [] then
            Some (''INV5 violated: EventHash is empty traceID='' @ ie_TraceID e @ '' tick='' @
                  fmt_u64 (ie_Tick e)) else None)
        in case prev of
             Some p \<Rightarrow>
               if ie_Seq e \<noteq> ie_Seq p + 1 then
                 Some (''INV2 violated: seq gap '' @ em_dash @ '' prev='' @ fmt_u64 (ie_Seq p) @
                       '' curr='' @ fmt_u64 (ie_Seq e) @ '' traceID='' @ ie_TraceID e)
               else if ie_PrevHash e \<noteq> ie_EventHash p then
                 Some (''INV1 violated: hash chain broken '' @ em_dash @ '' prevHash='' @ ie_PrevHash e @
                       '' expected='' @ ie_EventHash p @ '' traceID='' @ ie_TraceID e @
                       '' tick='' @ fmt_u64 (ie_Tick e))
               else if ie_Tick e < ie_Tick p then
                 Some (''INV3 violated: tick went backwards '' @ em_dash @ '' prevTick='' @
                       fmt_u64 (ie_Tick p) @ '' currTick='' @ fmt_u64 (ie_Tick e) @
                       '' traceID='' @ ie_TraceID e)
               else ehash
           | None \<Rightarrow>
               if ie_PrevHash e \<noteq> [] then
                 Some (''INV1 violated: first event has non-empty prevHash='' @ ie_PrevHash e @
                       '' traceID='' @ ie_TraceID e)
               else ehash)"

fun seq_loop :: "(string \<rightharpoonup> u64) \<Rightarrow> inv_Event list \<Rightarrow> string option" where
  "seq_loop byTrace [] = None"
| "seq_loop byTrace (e # es) =
     (case byTrace (ie_TraceID e) of
        Some lst \<Rightarrow>
          if ie_Seq e \<le> lst then
            Some (''INV2 violated: seq non-increasing in trace '' @ ie_TraceID e @ '' '' @ em_dash @
                  '' last='' @ fmt_u64 lst @ '' curr='' @ fmt_u64 (ie_Seq e))
          else seq_loop (byTrace(ie_TraceID e \<mapsto> ie_Seq e)) es
      | None \<Rightarrow> seq_loop (byTrace(ie_TraceID e \<mapsto> ie_Seq e)) es)"

definition CheckSeqMonotonic :: "inv_Event list \<Rightarrow> string option" where
  "CheckSeqMonotonic events =
     (if length events < 2 then None else seq_loop Map.empty events)"

primrec chain_loop :: "inv_Event list \<Rightarrow> nat list \<Rightarrow> string option" where
  "chain_loop events [] = None"
| "chain_loop events (i # is) =
     (if ie_PrevHash (events ! i) \<noteq> ie_EventHash (events ! (i - 1)) then
        Some (''INV1 violated at index '' @ dec_of_nat i @ '': chain broken traceID='' @
              ie_TraceID (events ! i) @ '' tick='' @ fmt_u64 (ie_Tick (events ! i)))
      else chain_loop events is)"

definition CheckHashChain :: "inv_Event list \<Rightarrow> string option" where
  "CheckHashChain events =
     (if length events < 2 then None else chain_loop events [1..<length events])"

section \<open>What each check decides\<close>

definition guard_ok :: "inv_Event \<Rightarrow> inv_Event option \<Rightarrow> bool" where
  "guard_ok e prev \<longleftrightarrow> ie_Seq e \<noteq> 0 \<and> ie_EventHash e \<noteq> [] \<and>
     (case prev of None \<Rightarrow> ie_PrevHash e = []
      | Some p \<Rightarrow> ie_Seq e = ie_Seq p + 1 \<and> ie_PrevHash e = ie_EventHash p \<and> ie_Tick p \<le> ie_Tick e)"

lemma CheckEvent_None [simp]: "CheckEvent e prev = None \<longleftrightarrow> guard_ok e prev"
  by (auto simp: CheckEvent_def guard_ok_def Let_def not_less split: option.splits)

definition of_trace :: "string \<Rightarrow> inv_Event list \<Rightarrow> inv_Event list" where
  "of_trace t es = filter (\<lambda>e. ie_TraceID e = t) es"

fun increasing :: "u64 option \<Rightarrow> u64 list \<Rightarrow> bool" where
  "increasing p [] = True"
| "increasing p (x # xs) = ((case p of None \<Rightarrow> True | Some y \<Rightarrow> y < x) \<and> increasing (Some x) xs)"

lemma increasing_iff:
  "increasing p xs \<longleftrightarrow> sorted_wrt (<) xs \<and> (\<forall>y. p = Some y \<longrightarrow> (\<forall>x \<in> set xs. y < x))"
  by (induction p xs rule: increasing.induct) (auto split: option.splits intro: less_trans)

lemma seq_loop_iff:
  "seq_loop m es = None \<longleftrightarrow> (\<forall>t. increasing (m t) (map ie_Seq (of_trace t es)))"
proof (induction m es rule: seq_loop.induct)
  case (1 m)
  then show ?case by (simp add: of_trace_def)
next
  case (2 m e es)
  let ?m = "m(ie_TraceID e \<mapsto> ie_Seq e)"
  have split: "(\<forall>t. increasing (m t) (map ie_Seq (of_trace t (e # es)))) \<longleftrightarrow>
      (case m (ie_TraceID e) of None \<Rightarrow> True | Some y \<Rightarrow> y < ie_Seq e) \<and>
      (\<forall>t. increasing (?m t) (map ie_Seq (of_trace t es)))"
    by (auto simp: of_trace_def)
  show ?case
  proof (cases "m (ie_TraceID e)")
    case None
    then show ?thesis unfolding split using 2(1) [OF None] by (simp only: seq_loop.simps None option.case simp_thms)
  next
    case (Some y)
    then show ?thesis unfolding split using 2(2) [OF Some]
      by (cases "ie_Seq e \<le> y") (simp_all add: Some not_le [symmetric] del: fun_upd_apply not_le)
  qed
qed

lemma CheckSeqMonotonic_iff:
  "CheckSeqMonotonic es = None \<longleftrightarrow> (\<forall>t. sorted_wrt (<) (map ie_Seq (of_trace t es)))"
proof (cases "length es < 2")
  case True
  have "length (of_trace t es) < 2" for t
    using le_less_trans [OF length_filter_le True] by (simp add: of_trace_def)
  then have "sorted_wrt (<) (map ie_Seq (of_trace t es))" for t
    by (cases "of_trace t es" rule: list.exhaust; cases "tl (of_trace t es)") 
      (use \<open>\<And>t. length (of_trace t es) < 2\<close> [of t] in auto)
  with True show ?thesis by (simp add: CheckSeqMonotonic_def)
next
  case False
  then show ?thesis by (simp add: CheckSeqMonotonic_def seq_loop_iff increasing_iff)
qed

lemma chain_loop_iff:
  "chain_loop es is = None \<longleftrightarrow> (\<forall>i \<in> set is. ie_PrevHash (es ! i) = ie_EventHash (es ! (i - 1)))"
  by (induction "is") auto

lemma CheckHashChain_iff:
  "CheckHashChain es = None \<longleftrightarrow>
     (\<forall>i. 0 < i \<longrightarrow> i < length es \<longrightarrow> ie_PrevHash (es ! i) = ie_EventHash (es ! (i - 1)))"
  by (auto simp: CheckHashChain_def chain_loop_iff Suc_le_eq)

text \<open>C21: Each check decides what it says: \<open>CheckEvent\<close> accepts exactly the events that satisfy
  INV1 to INV5 against the event before, \<open>CheckSeqMonotonic\<close> the logs whose sequence numbers
  increase strictly within each trace, and \<open>CheckHashChain\<close> the logs whose every event names the
  hash of the event just before it in the log, whatever its trace.\<close>

theorem guard_checks_decide:
  "(CheckEvent e prev = None \<longleftrightarrow> guard_ok e prev) \<and>
   (CheckSeqMonotonic es = None \<longleftrightarrow> (\<forall>t. sorted_wrt (<) (map ie_Seq (of_trace t es)))) \<and>
   (CheckHashChain es = None \<longleftrightarrow>
     (\<forall>i. 0 < i \<longrightarrow> i < length es \<longrightarrow> ie_PrevHash (es ! i) = ie_EventHash (es ! (i - 1))))"
  by (simp add: CheckSeqMonotonic_iff CheckHashChain_iff)

theorem guard_checks_witness:
  "\<exists>e. CheckEvent e None = None \<and> CheckSeqMonotonic [e, e] \<noteq> None \<and> CheckHashChain [e, e] \<noteq> None"
proof -
  let ?e = "\<lparr>ie_TraceID = ''t'', ie_Seq = 1, ie_Tick = 3, ie_Type = [], ie_PrevHash = [],
      ie_EventHash = ''h'', ie_SchemaID = [], ie_SchemaVer = [], ie_EpochMs = 0\<rparr>"
  have "CheckEvent ?e None = None \<and> CheckSeqMonotonic [?e, ?e] \<noteq> None \<and> CheckHashChain [?e, ?e] \<noteq> None"
    using guard_checks_decide [of ?e None "[?e, ?e]"]
    by (auto simp: guard_ok_def of_trace_def dest: spec [of _ "''t''"] spec [of _ 1])
  then show ?thesis by blast
qed

section \<open>A trace checked event by event\<close>

fun guarded :: "inv_Event option \<Rightarrow> inv_Event list \<Rightarrow> bool" where
  "guarded prev [] = True"
| "guarded prev (e # es) = (CheckEvent e prev = None \<and> guarded (Some e) es)"

lemma guarded_nth:
  "guarded prev es \<Longrightarrow> i < length es \<Longrightarrow>
     guard_ok (es ! i) (if i = 0 then prev else Some (es ! (i - 1)))"
proof (induction es arbitrary: prev i)
  case (Cons e es)
  show ?case
  proof (cases i)
    case (Suc j)
    with Cons.IH [of "Some e" j] Cons.prems show ?thesis by (cases j) auto
  qed (use Cons.prems in simp)
qed simp

text \<open>The guard on INV4 also rules out a sequence number that wraps.\<close>

lemma guard_ok_step:
  assumes "guard_ok e (Some p)"
  shows "unat (ie_Seq e) = unat (ie_Seq p) + 1 \<and> ie_Tick p \<le> ie_Tick e"
proof -
  have e: "ie_Seq e = ie_Seq p + 1" "ie_Seq e \<noteq> 0" "ie_Tick p \<le> ie_Tick e"
    using assms unfolding guard_ok_def option.case by blast+
  then have "ie_Seq p \<noteq> - 1" by auto
  with e show ?thesis using unat_u64_plus_1 [of "ie_Seq p"] by simp
qed

lemma guarded_seq:
  assumes "guarded None es" and "i < length es"
  shows "unat (ie_Seq (es ! i)) = unat (ie_Seq (es ! 0)) + i"
  using assms(2)
proof (induction i)
  case (Suc i)
  then have "guard_ok (es ! Suc i) (Some (es ! i))" using guarded_nth [OF assms(1), of "Suc i"] by simp
  with Suc guard_ok_step show ?case by auto
qed simp

lemma guarded_tick:
  assumes "guarded None es" and "i \<le> j" and "j < length es"
  shows "ie_Tick (es ! i) \<le> ie_Tick (es ! j)"
  using assms(2,3)
proof (induction j)
  case (Suc j)
  then have "guard_ok (es ! Suc j) (Some (es ! j))" using guarded_nth [OF assms(1), of "Suc j"] by simp
  then have "ie_Tick (es ! j) \<le> ie_Tick (es ! Suc j)" using guard_ok_step by blast
  with Suc show ?case by (cases "i = Suc j") (auto intro: order_trans)
qed simp

text \<open>C13: A trace that passes \<open>CheckEvent\<close> event by event passes both whole-log checks; its
  sequence numbers count up by one without wrapping and its ticks never go back.\<close>

theorem guarded_trace_passes:
  assumes "guarded None es"
  shows "CheckSeqMonotonic es = None \<and> CheckHashChain es = None \<and>
    (\<forall>i < length es. unat (ie_Seq (es ! i)) = unat (ie_Seq (es ! 0)) + i) \<and>
    (\<forall>i j. i \<le> j \<longrightarrow> j < length es \<longrightarrow> ie_Tick (es ! i) \<le> ie_Tick (es ! j))"
proof (intro conjI allI impI)
  have "sorted_wrt (<) (map ie_Seq es)"
    unfolding sorted_wrt_iff_nth_less
    using guarded_seq [OF assms] by (auto simp: word_less_nat_alt)
  then have "sorted_wrt (<) (map ie_Seq (of_trace t es))" for t
    by (simp add: of_trace_def sorted_wrt_map sorted_wrt_filter)
  then show "CheckSeqMonotonic es = None" by (simp add: CheckSeqMonotonic_iff)
  show "CheckHashChain es = None"
    unfolding CheckHashChain_iff
  proof (intro allI impI)
    fix i assume "0 < i" "i < length es"
    with guarded_nth [OF assms, of i] show "ie_PrevHash (es ! i) = ie_EventHash (es ! (i - 1))"
      by (simp add: guard_ok_def)
  qed
qed (use guarded_seq [OF assms] guarded_tick [OF assms] in blast)+

definition guard_sample :: "u64 \<Rightarrow> string \<Rightarrow> string \<Rightarrow> inv_Event" where
  "guard_sample n prev h =
     \<lparr>ie_TraceID = ''t'', ie_Seq = n, ie_Tick = n, ie_Type = [], ie_PrevHash = prev, ie_EventHash = h,
      ie_SchemaID = [], ie_SchemaVer = [], ie_EpochMs = 0\<rparr>"

theorem guarded_trace_witness:
  "guarded None [guard_sample 1 [] ''a'', guard_sample 2 ''a'' ''b''] \<and>
   CheckSeqMonotonic [guard_sample 1 [] ''a'', guard_sample 2 ''a'' ''b''] = None \<and>
   CheckHashChain [guard_sample 1 [] ''a'', guard_sample 2 ''a'' ''b''] = None"
proof -
  have g: "guarded None [guard_sample 1 [] ''a'', guard_sample 2 ''a'' ''b'']"
    by (simp add: guard_ok_def guard_sample_def word_le_nat_alt)
  with guarded_trace_passes [OF this] show ?thesis by blast
qed

section \<open>The guard and the event store\<close>

definition guard_event :: "u64 \<Rightarrow> cons_Event \<Rightarrow> inv_Event" where
  "guard_event tick e =
     \<lparr>ie_TraceID = ce_TraceID e, ie_Seq = ce_Seq e, ie_Tick = tick, ie_Type = [],
      ie_PrevHash = ce_PrevHash e, ie_EventHash = ce_EventHash e, ie_SchemaID = [],
      ie_SchemaVer = [], ie_EpochMs = 0\<rparr>"

text \<open>The checks disagree with the store on logs of more than one trace and on the first event of
  a trace: the store takes two interleaved traces that \<open>CheckHashChain\<close> panics on, and
  \<open>CheckEvent\<close> lets a trace start at any positive sequence number.\<close>

lemma hash_chain_rejects_two_traces:
  "\<exists>es s. run_steps store_Append NewEventStore es = Inr s \<and>
     CheckHashChain (map (guard_event tick) es) \<noteq> None \<and>
     CheckSeqMonotonic (map (guard_event tick) es) = None"
proof -
  let ?es = "[\<lparr>ce_TraceID = ''a'', ce_Seq = 1, ce_PrevHash = [], ce_EventHash = ''h''\<rparr>,
              \<lparr>ce_TraceID = ''b'', ce_Seq = 1, ce_PrevHash = [], ce_EventHash = ''k''\<rparr>]"
  obtain s where "run_steps store_Append NewEventStore ?es = Inr s"
    by (simp add: store_defs NewEventStore_def)
  moreover have "CheckHashChain (map (guard_event tick) ?es) \<noteq> None"
    by (auto simp: CheckHashChain_iff guard_event_def)
  moreover have "CheckSeqMonotonic (map (guard_event tick) ?es) = None"
    by (auto simp: CheckSeqMonotonic_iff guard_event_def of_trace_def)
  ultimately show ?thesis by blast
qed

end
