(* ===== verification/ModelChecker.thy ===== *)
theory ModelChecker
  imports Guard "HOL-Library.List_Lexorder" "HOL-Library.Char_ord"
begin

text \<open>
  The model checker (\<open>pkg/modelchecker/model.go\<close>): depth-first search over a list of labelled
  transitions, with the set of visited keys as its only state.  The set of visited strings is
  the Go map; where \<open>Paths\<close> ranges over it, the order is a parameter.
\<close>

section \<open>The checker\<close>

record mc_State =
  ms_TraceID :: string
  ms_Seq :: u64
  ms_Hash :: string

record mc_Transition =
  tr_From :: mc_State
  tr_To :: mc_State
  tr_Event :: string

record ModelChecker =
  mc_visited :: "string set"
  mc_transitions :: "mc_Transition list"

definition mc_New :: ModelChecker where
  "mc_New = \<lparr>mc_visited = {}, mc_transitions = []\<rparr>"

definition SetTransitions :: "ModelChecker \<Rightarrow> mc_Transition list \<Rightarrow> ModelChecker" where
  "SetTransitions mc t = mc\<lparr>mc_transitions := t\<rparr>"

definition stateKey :: "mc_State \<Rightarrow> string" where
  "stateKey s = ms_TraceID s @ '':'' @ fmt_u64 (ms_Seq s)"

definition ErrSequenceViolation :: string where
  "ErrSequenceViolation = ''sequence violation''"

definition validateTransition :: "mc_Transition \<Rightarrow> string option" where
  "validateTransition t =
     (if ms_Seq (tr_To t) \<noteq> ms_Seq (tr_From t) + 1
      then Some (ErrSequenceViolation @ '': seq violation '' @ em_dash @ '' from='' @
                 fmt_u64 (ms_Seq (tr_From t)) @ '' to='' @ fmt_u64 (ms_Seq (tr_To t)) @
                 '' traceID='' @ ms_TraceID (tr_To t))
      else None)"

primrec expand :: "mc_State \<Rightarrow> mc_State list \<Rightarrow> mc_Transition list \<Rightarrow> string + mc_State list" where
  "expand current stack [] = Inr stack"
| "expand current stack (t # ts) =
     (if ms_TraceID (tr_From t) = ms_TraceID current \<and> ms_Seq (tr_From t) = ms_Seq current
      then case validateTransition t of
             Some err \<Rightarrow> Inl err
           | None \<Rightarrow> expand current (stack @ [tr_To t]) ts
      else expand current stack ts)"

lemma set_expand: "expand c st ts = Inr st' \<Longrightarrow> set st' \<subseteq> set st \<union> tr_To ` set ts"
  by (induction ts arbitrary: st) (fastforce split: if_splits option.splits)+

text \<open>The keys that can still be visited; the search terminates because their number falls.\<close>

definition pending :: "mc_Transition list \<Rightarrow> string set \<Rightarrow> mc_State list \<Rightarrow> string set" where
  "pending ts visited stack = stateKey ` (set stack \<union> tr_To ` set ts) - visited"

function check_loop :: "mc_Transition list \<Rightarrow> string set \<Rightarrow> mc_State list \<Rightarrow>
    string option \<times> string set" where
  "check_loop ts visited stack =
     (if stack = [] then (None, visited)
      else
        let current = last stack; stack' = butlast stack; key = stateKey current
        in if key \<in> visited then check_loop ts visited stack'
           else
             let visited' = insert key visited
             in case expand current stack' ts of
                  Inl err \<Rightarrow> (Some err, visited')
                | Inr stack'' \<Rightarrow> check_loop ts visited' stack'')"
  by pat_completeness auto

termination
proof (relation "measures [\<lambda>(ts, visited, stack). card (pending ts visited stack),
    \<lambda>(ts, visited, stack). length stack]")
  fix ts visited and stack :: "mc_State list" and x xa xb
  assume "stack \<noteq> []" "xa = butlast stack"
  then have "pending ts visited xa \<subseteq> pending ts visited stack"
    by (auto simp: pending_def dest: in_set_butlastD)
  then have "card (pending ts visited xa) \<le> card (pending ts visited stack)"
    by (rule card_mono [rotated]) (simp add: pending_def)
  moreover have "length xa < length stack" using \<open>stack \<noteq> []\<close> \<open>xa = _\<close> by simp
  ultimately show "((ts, visited, xa), (ts, visited, stack)) \<in>
      measures [\<lambda>(ts, visited, stack). card (pending ts visited stack), \<lambda>(ts, visited, stack). length stack]"
    by auto
next
  fix ts visited and stack :: "mc_State list" and x xa xb xc st
  assume h: "stack \<noteq> []" "x = last stack" "xa = butlast stack" "xb = stateKey x" "xb \<notin> visited"
    "xc = insert xb visited" "expand x xa ts = Inr st"
  have "set st \<subseteq> set stack \<union> tr_To ` set ts"
    using set_expand [OF h(7)] h(3) by (auto dest: in_set_butlastD)
  then have "pending ts xc st \<subseteq> pending ts visited stack - {xb}"
    using h(6) by (auto simp: pending_def)
  moreover have "xb \<in> pending ts visited stack" using h by (simp add: pending_def)
  ultimately have "pending ts xc st \<subset> pending ts visited stack" by blast
  then have "card (pending ts xc st) < card (pending ts visited stack)"
    by (rule psubset_card_mono [rotated]) (simp add: pending_def)
  then show "((ts, xc, st), (ts, visited, stack)) \<in>
      measures [\<lambda>(ts, visited, stack). card (pending ts visited stack), \<lambda>(ts, visited, stack). length stack]"
    by simp
qed simp

declare check_loop.simps [simp del]

definition mc_Check :: "ModelChecker \<Rightarrow> mc_State \<Rightarrow> string option \<times> ModelChecker" where
  "mc_Check mc initial =
     (let mc' = mc\<lparr>mc_visited := {}\<rparr>; (err, visited) = check_loop (mc_transitions mc') (mc_visited mc') [initial]
      in (err, mc'\<lparr>mc_visited := visited\<rparr>))"

definition ExploredCount :: "ModelChecker \<Rightarrow> nat" where
  "ExploredCount mc = card (mc_visited mc)"

section \<open>Paths\<close>

definition index_from :: "string \<Rightarrow> char \<Rightarrow> nat \<Rightarrow> nat option" where
  "index_from s delim start = find (\<lambda>j. s ! j = delim) [start..<length s]"

text \<open>\<open>None\<close> is the panic for a missing delimiter.\<close>

fun split_loop :: "string \<Rightarrow> char \<Rightarrow> nat \<Rightarrow> nat \<Rightarrow> string list \<Rightarrow> string list option" where
  "split_loop s delim 0 start parts = Some (parts @ [drop start s])"
| "split_loop s delim (Suc k) start parts =
     (case index_from s delim start of
        None \<Rightarrow> None
      | Some idx \<Rightarrow> split_loop s delim k (idx + 1) (parts @ [take (idx - start) (drop start s)]))"

definition splitExact :: "string \<Rightarrow> char \<Rightarrow> nat \<Rightarrow> string list option" where
  "splitExact s delim n = split_loop s delim (n - 1) 0 []"

primrec paths_loop :: "mc_State list list \<Rightarrow> string list \<Rightarrow> mc_State list list option" where
  "paths_loop paths [] = Some paths"
| "paths_loop paths (key # keys) =
     (case splitExact key (CHR '':'') 2 of
        None \<Rightarrow> None
      | Some parts \<Rightarrow>
          paths_loop (paths @ [[\<lparr>ms_TraceID = parts ! 0, ms_Seq = 0, ms_Hash = []\<rparr>]]) keys)"

text \<open>\<open>order\<close> is the order in which the map's keys are visited.  The sort compares the trace
  ids; paths with equal trace ids are equal, so its result is unique.\<close>

definition mc_Paths :: "ModelChecker \<Rightarrow> string list \<Rightarrow> mc_State list list option" where
  "mc_Paths mc order = map_option (sort_key (\<lambda>p. ms_TraceID (p ! 0))) (paths_loop [] order)"

section \<open>Keys\<close>

lemma colon_not_digit: "CHR '':'' \<notin> set (fmt_u64 v)"
  unfolding fmt_u64_def by (rule dec_of_nat_no_char) code_simp

definition same_node :: "mc_State \<Rightarrow> mc_State \<Rightarrow> bool" where
  "same_node a b \<longleftrightarrow> ms_TraceID a = ms_TraceID b \<and> ms_Seq a = ms_Seq b"

lemma stateKey_eq: "stateKey a = stateKey b \<longleftrightarrow> same_node a b"
  using last_delim_unique [OF colon_not_digit colon_not_digit]
  by (simp add: stateKey_def same_node_def)

section \<open>The search decides reachability of a bad transition\<close>

text \<open>The states a run of the transition system can be in, starting from \<open>init\<close>; a transition
  applies to every state with its source's trace and sequence number.\<close>

inductive mc_reach :: "mc_Transition list \<Rightarrow> mc_State \<Rightarrow> mc_State \<Rightarrow> bool" for ts init where
  start: "mc_reach ts init init"
| step: "mc_reach ts init s \<Longrightarrow> t \<in> set ts \<Longrightarrow> same_node (tr_From t) s \<Longrightarrow> mc_reach ts init (tr_To t)"

definition good :: "mc_Transition \<Rightarrow> bool" where
  "good t \<longleftrightarrow> ms_Seq (tr_To t) = ms_Seq (tr_From t) + 1"

lemma validate_None [simp]: "validateTransition t = None \<longleftrightarrow> good t"
  by (simp add: validateTransition_def good_def)

lemma expand_Inr:
  "expand c st ts = Inr st' \<Longrightarrow>
     (\<forall>t \<in> set ts. same_node (tr_From t) c \<longrightarrow> good t \<and> tr_To t \<in> set st') \<and> set st \<subseteq> set st' \<and>
     set st' \<subseteq> set st \<union> {tr_To t | t. t \<in> set ts \<and> same_node (tr_From t) c}"
proof (induction ts arbitrary: st)
  case (Cons t ts)
  show ?case
  proof (cases "same_node (tr_From t) c")
    case True
    then have g: "good t" "expand c (st @ [tr_To t]) ts = Inr st'"
      using Cons.prems by (auto simp: same_node_def split: option.splits)
    from Cons.IH [OF g(2)] g(1) True show ?thesis by auto
  next
    case False
    then have "expand c st ts = Inr st'" using Cons.prems by (auto simp: same_node_def split: if_splits)
    from Cons.IH [OF this] False show ?thesis by auto
  qed
qed simp

lemma expand_Inl:
  "expand c st ts = Inl err \<Longrightarrow>
     \<exists>t \<in> set ts. same_node (tr_From t) c \<and> \<not> good t \<and> validateTransition t = Some err"
proof (induction ts arbitrary: st)
  case (Cons t ts)
  then show ?case
    by (cases "validateTransition t"; cases "good t")
      (fastforce simp: same_node_def simp flip: validate_None split: if_splits)+
qed simp

text \<open>What holds at every turn of the loop: everything on the stack or visited is reachable, and
  every transition out of a visited state is good and leads to a state that is visited or on the
  stack.\<close>

definition search_inv :: "mc_Transition list \<Rightarrow> mc_State \<Rightarrow> string set \<Rightarrow> mc_State list \<Rightarrow> bool" where
  "search_inv ts init visited stack \<longleftrightarrow>
     (\<forall>s \<in> set stack. mc_reach ts init s) \<and>
     visited \<subseteq> stateKey ` {s. mc_reach ts init s} \<and>
     stateKey init \<in> visited \<union> stateKey ` set stack \<and>
     (\<forall>t \<in> set ts. stateKey (tr_From t) \<in> visited \<longrightarrow>
        good t \<and> stateKey (tr_To t) \<in> visited \<union> stateKey ` set stack)"

lemma search_inv_skip:
  assumes "search_inv ts init V st" and "st \<noteq> []" and "stateKey (last st) \<in> V"
  shows "search_inv ts init V (butlast st)"
proof -
  have "set st = insert (last st) (set (butlast st))"
    using assms(2) by (metis append_butlast_last_id list.simps(15) rotate1.simps(2) set_rotate1)
  then have eq: "V \<union> stateKey ` set st = V \<union> stateKey ` set (butlast st)" using assms(3) by auto
  show ?thesis
    using assms(1) unfolding search_inv_def eq by (auto dest: in_set_butlastD)
qed

lemma search_inv_visit:
  assumes inv: "search_inv ts init V st" and ne: "st \<noteq> []"
    and ex: "expand (last st) (butlast st) ts = Inr st'"
  shows "search_inv ts init (insert (stateKey (last st)) V) st'"
proof -
  note e = expand_Inr [OF ex]
  have set: "set st = insert (last st) (set (butlast st))"
    using ne by (metis append_butlast_last_id list.simps(15) rotate1.simps(2) set_rotate1)
  then have cur: "mc_reach ts init (last st)" using inv by (auto simp: search_inv_def)
  have sub: "V \<union> stateKey ` set st \<subseteq> insert (stateKey (last st)) V \<union> stateKey ` set st'"
    unfolding set using e by auto
  show ?thesis
    unfolding search_inv_def
  proof (intro conjI ballI impI)
    fix s assume "s \<in> set st'"
    then consider "s \<in> set (butlast st)" |
      t where "t \<in> set ts" "same_node (tr_From t) (last st)" "s = tr_To t" using e by blast
    then show "mc_reach ts init s"
      using inv cur mc_reach.step by cases (auto simp: search_inv_def dest: in_set_butlastD)
  next
    show "insert (stateKey (last st)) V \<subseteq> stateKey ` {s. mc_reach ts init s}"
      using inv cur by (auto simp: search_inv_def)
    show "stateKey init \<in> insert (stateKey (last st)) V \<union> stateKey ` set st'"
      using inv sub unfolding search_inv_def by blast
  next
    fix t assume t: "t \<in> set ts" "stateKey (tr_From t) \<in> insert (stateKey (last st)) V"
    show "good t" using t e inv unfolding search_inv_def by (auto simp: stateKey_eq)
    show "stateKey (tr_To t) \<in> insert (stateKey (last st)) V \<union> stateKey ` set st'"
    proof (cases "stateKey (tr_From t) \<in> V")
      case True
      then show ?thesis using inv sub t(1) unfolding search_inv_def by blast
    next
      case False
      then have "same_node (tr_From t) (last st)" using t(2) by (simp add: stateKey_eq)
      then show ?thesis using e t(1) by blast
    qed
  qed
qed

definition bad_reachable :: "mc_Transition list \<Rightarrow> mc_State \<Rightarrow> bool" where
  "bad_reachable ts init \<longleftrightarrow>
     (\<exists>s t. mc_reach ts init s \<and> t \<in> set ts \<and> same_node (tr_From t) s \<and> \<not> good t)"

lemma search_done:
  assumes "search_inv ts init V []"
  shows "V = stateKey ` {s. mc_reach ts init s} \<and> \<not> bad_reachable ts init"
proof -
  have key: "stateKey s \<in> V" if "mc_reach ts init s" for s
    using that
  proof (induction rule: mc_reach.induct)
    case start
    then show ?case using assms by (simp add: search_inv_def)
  next
    case (step s t)
    then have "stateKey (tr_From t) \<in> V" by (simp add: stateKey_eq [symmetric])
    with step assms show ?case by (auto simp: search_inv_def)
  qed
  moreover have "\<not> bad_reachable ts init"
  proof
    assume "bad_reachable ts init"
    then obtain s t where t: "mc_reach ts init s" "t \<in> set ts" "same_node (tr_From t) s" "\<not> good t"
      by (auto simp: bad_reachable_def)
    then have "stateKey (tr_From t) \<in> V" using key [OF t(1)] by (simp add: stateKey_eq [symmetric])
    with t assms show False by (auto simp: search_inv_def)
  qed
  ultimately show ?thesis using assms by (auto simp: search_inv_def)
qed

lemma check_loop_correct:
  "search_inv ts init V st \<Longrightarrow>
     (case check_loop ts V st of
        (None, V') \<Rightarrow> V' = stateKey ` {s. mc_reach ts init s} \<and> \<not> bad_reachable ts init
      | (Some err, V') \<Rightarrow> bad_reachable ts init)"
proof (induction ts V st rule: check_loop.induct)
  case (1 ts V st)
  show ?case
  proof (cases "st = []")
    case True
    then have "check_loop ts V st = (None, V)" by (subst check_loop.simps) simp
    then show ?thesis using search_done [of ts init V] 1(3) True by simp
  next
    case ne: False
    show ?thesis
    proof (cases "stateKey (last st) \<in> V")
      case True
      then have "check_loop ts V st = check_loop ts V (butlast st)"
        using ne by (subst check_loop.simps) (simp add: Let_def)
      then show ?thesis using 1(1) [OF ne refl refl refl True search_inv_skip [OF 1(3) ne True]] by simp
    next
      case new: False
      show ?thesis
      proof (cases "expand (last st) (butlast st) ts")
        case (Inl err)
        then have r: "check_loop ts V st = (Some err, insert (stateKey (last st)) V)"
          using ne new by (subst check_loop.simps) (simp add: Let_def)
        have "mc_reach ts init (last st)" using 1(3) ne by (simp add: search_inv_def)
        with expand_Inl [OF Inl] have "bad_reachable ts init" unfolding bad_reachable_def by blast
        with r show ?thesis by simp
      next
        case (Inr st')
        then have r: "check_loop ts V st = check_loop ts (insert (stateKey (last st)) V) st'"
          using ne new by (subst check_loop.simps) (simp add: Let_def)
        show ?thesis
          unfolding r by (rule 1(2) [OF ne refl refl refl new refl Inr search_inv_visit [OF 1(3) ne Inr]])
      qed
    qed
  qed
qed

lemma search_inv_start: "search_inv ts init {} [init]"
  by (simp add: search_inv_def mc_reach.start)

lemma ExploredCount_keys:
  "card (stateKey ` S) = card ((\<lambda>s. (ms_TraceID s, ms_Seq s)) ` S)"
proof -
  have "bij_betw (\<lambda>(t, q). t @ '':'' @ fmt_u64 q) ((\<lambda>s. (ms_TraceID s, ms_Seq s)) ` S) (stateKey ` S)"
  proof (rule bij_betw_imageI)
    show "inj_on (\<lambda>(t, q). t @ '':'' @ fmt_u64 q) ((\<lambda>s. (ms_TraceID s, ms_Seq s)) ` S)"
      using stateKey_eq by (auto simp: inj_on_def stateKey_def same_node_def)
    show "(\<lambda>(t, q). t @ '':'' @ fmt_u64 q) ` (\<lambda>s. (ms_TraceID s, ms_Seq s)) ` S = stateKey ` S"
      by (simp add: image_image stateKey_def)
  qed
  then show ?thesis by (simp add: bij_betw_same_card)
qed

text \<open>C8: \<open>Check\<close> always returns, and returns nil exactly when every transition that applies to
  a state reachable from the initial one raises the sequence number by one; then the visited
  keys are those of the reachable states, and \<open>ExploredCount\<close> is the number of different
  (trace, sequence number) pairs among them.  The result of an earlier check is forgotten.\<close>

theorem model_check_correct:
  "case mc_Check mc init of (err, mc') \<Rightarrow>
     (err = None \<longleftrightarrow> \<not> bad_reachable (mc_transitions mc) init) \<and>
     (err = None \<longrightarrow>
        mc_visited mc' = stateKey ` {s. mc_reach (mc_transitions mc) init s} \<and>
        ExploredCount mc' =
          card ((\<lambda>s. (ms_TraceID s, ms_Seq s)) ` {s. mc_reach (mc_transitions mc) init s}))"
proof -
  obtain err V where r: "check_loop (mc_transitions mc) {} [init] = (err, V)" by fastforce
  with check_loop_correct [OF search_inv_start, of "mc_transitions mc" init]
  show ?thesis
    by (auto simp: mc_Check_def Let_def ExploredCount_def ExploredCount_keys split: option.splits)
qed

definition loop_ts :: "mc_Transition list" where
  "loop_ts = [\<lparr>tr_From = \<lparr>ms_TraceID = ''t'', ms_Seq = 1, ms_Hash = []\<rparr>,
               tr_To = \<lparr>ms_TraceID = ''t'', ms_Seq = 2, ms_Hash = ''h''\<rparr>, tr_Event = ''e''\<rparr>,
              \<lparr>tr_From = \<lparr>ms_TraceID = ''t'', ms_Seq = 2, ms_Hash = []\<rparr>,
               tr_To = \<lparr>ms_TraceID = ''t'', ms_Seq = 1, ms_Hash = []\<rparr>, tr_Event = ''e''\<rparr>]"

theorem model_check_witness:
  "fst (mc_Check (SetTransitions mc_New loop_ts) \<lparr>ms_TraceID = ''t'', ms_Seq = 1, ms_Hash = []\<rparr>) \<noteq> None"
proof -
  let ?init = "\<lparr>ms_TraceID = ''t'', ms_Seq = 1, ms_Hash = []\<rparr>"
  let ?mc = "SetTransitions mc_New loop_ts"
  have ts: "mc_transitions ?mc = loop_ts" by (simp add: SetTransitions_def)
  have "mc_reach loop_ts ?init (tr_To (loop_ts ! 0))"
    by (rule mc_reach.step [OF mc_reach.start]) (simp_all add: loop_ts_def same_node_def)
  then have "bad_reachable loop_ts ?init"
    unfolding bad_reachable_def
    by (intro exI [of _ "tr_To (loop_ts ! 0)"] exI [of _ "loop_ts ! 1"])
      (simp add: loop_ts_def same_node_def good_def)
  with model_check_correct [of ?mc ?init] ts show ?thesis by (auto split: prod.splits)
qed

section \<open>The number of turns\<close>

text \<open>\<open>search_turns ts n V st r\<close>: the loop started with visited keys \<open>V\<close> and stack \<open>st\<close> takes
  exactly \<open>n\<close> turns and ends with the result \<open>r\<close>.\<close>

inductive search_turns :: "mc_Transition list \<Rightarrow> nat \<Rightarrow> string set \<Rightarrow> mc_State list \<Rightarrow>
    string option \<times> string set \<Rightarrow> bool" for ts where
  empty: "search_turns ts 0 V [] (None, V)"
| skip: "st \<noteq> [] \<Longrightarrow> stateKey (last st) \<in> V \<Longrightarrow> search_turns ts n V (butlast st) r \<Longrightarrow>
    search_turns ts (Suc n) V st r"
| fail: "st \<noteq> [] \<Longrightarrow> stateKey (last st) \<notin> V \<Longrightarrow> expand (last st) (butlast st) ts = Inl err \<Longrightarrow>
    search_turns ts 1 V st (Some err, insert (stateKey (last st)) V)"
| visit: "st \<noteq> [] \<Longrightarrow> stateKey (last st) \<notin> V \<Longrightarrow> expand (last st) (butlast st) ts = Inr st' \<Longrightarrow>
    search_turns ts n (insert (stateKey (last st)) V) st' r \<Longrightarrow> search_turns ts (Suc n) V st r"

lemma length_expand:
  "expand c st ts = Inr st' \<Longrightarrow> length st' = length st + length (filter (\<lambda>t. same_node (tr_From t) c) ts)"
  by (induction ts arbitrary: st) (auto simp: same_node_def split: if_splits option.splits)

text \<open>The transitions that have not been followed yet; each is followed at most once.\<close>

definition unfollowed :: "mc_Transition list \<Rightarrow> string set \<Rightarrow> nat" where
  "unfollowed ts V = length (filter (\<lambda>t. stateKey (tr_From t) \<notin> V) ts)"

lemma unfollowed_visit:
  "stateKey c \<notin> V \<Longrightarrow> unfollowed ts V =
     unfollowed ts (insert (stateKey c) V) + length (filter (\<lambda>t. same_node (tr_From t) c) ts)"
  by (induction ts) (auto simp: unfollowed_def simp flip: stateKey_eq)

lemma check_loop_turns:
  "\<exists>n \<le> length st + unfollowed ts V. search_turns ts n V st (check_loop ts V st) \<and>
     card (snd (check_loop ts V st)) \<le> card V + n"
proof (induction ts V st rule: check_loop.induct)
  case (1 ts V st)
  show ?case
  proof (cases "st = []")
    case True
    then have "check_loop ts V st = (None, V)" by (subst check_loop.simps) simp
    with True show ?thesis by (auto intro: search_turns.empty)
  next
    case ne: False
    then have len: "0 < length st" by simp
    show ?thesis
    proof (cases "stateKey (last st) \<in> V")
      case True
      then have r: "check_loop ts V st = check_loop ts V (butlast st)"
        using ne by (subst check_loop.simps) (simp add: Let_def)
      have "\<exists>n \<le> length (butlast st) + unfollowed ts V.
          search_turns ts n V (butlast st) (check_loop ts V (butlast st)) \<and>
          card (snd (check_loop ts V (butlast st))) \<le> card V + n"
        by (rule 1(1) [OF ne refl refl refl True])
      then obtain n where
        n: "n \<le> length (butlast st) + unfollowed ts V" "search_turns ts n V (butlast st) (check_loop ts V (butlast st))"
          "card (snd (check_loop ts V (butlast st))) \<le> card V + n" by auto
      have "search_turns ts (Suc n) V st (check_loop ts V st)"
        unfolding r by (rule search_turns.skip [OF ne True n(2)])
      moreover have "Suc n \<le> length st + unfollowed ts V"
        using n(1) len unfolding length_butlast by linarith
      ultimately show ?thesis using n(3) unfolding r by (intro exI [of _ "Suc n"]) simp
    next
      case new: False
      let ?V = "insert (stateKey (last st)) V"
      have card: "card ?V \<le> Suc (card V)" by (cases "finite V") (simp_all add: card_insert_if)
      show ?thesis
      proof (cases "expand (last st) (butlast st) ts")
        case (Inl err)
        then have r: "check_loop ts V st = (Some err, ?V)"
          using ne new by (subst check_loop.simps) (simp add: Let_def)
        have "search_turns ts 1 V st (check_loop ts V st)"
          unfolding r by (rule search_turns.fail [OF ne new Inl])
        moreover have "1 \<le> length st + unfollowed ts V" using len by linarith
        ultimately show ?thesis using card by (intro exI [of _ 1]) (simp add: r)
      next
        case (Inr st')
        then have r: "check_loop ts V st = check_loop ts ?V st'"
          using ne new by (subst check_loop.simps) (simp add: Let_def)
        have "\<exists>n \<le> length st' + unfollowed ts ?V.
            search_turns ts n ?V st' (check_loop ts ?V st') \<and> card (snd (check_loop ts ?V st')) \<le> card ?V + n"
          by (rule 1(2) [OF ne refl refl refl new refl Inr])
        then obtain n where
          n: "n \<le> length st' + unfollowed ts ?V" "search_turns ts n ?V st' (check_loop ts ?V st')"
            "card (snd (check_loop ts ?V st')) \<le> card ?V + n" by auto
        have "search_turns ts (Suc n) V st (check_loop ts V st)"
          unfolding r by (rule search_turns.visit [OF ne new Inr n(2)])
        moreover have "Suc n \<le> length st + unfollowed ts V"
          using n(1) length_expand [OF Inr] unfollowed_visit [OF new, of ts] len
          unfolding length_butlast by linarith
        ultimately show ?thesis using n(3) card unfolding r by (intro exI [of _ "Suc n"]) simp
      qed
    qed
  qed
qed

text \<open>C25: The number of turns is linear: for any list of transitions, cyclic or not, the loop of \<open>Check\<close>
  ends after at most one turn more than there are transitions, so \<open>ExploredCount\<close> is at most
  that, too.\<close>

theorem model_check_turns:
  "\<exists>n \<le> length (mc_transitions mc) + 1.
     search_turns (mc_transitions mc) n {} [init]
       (fst (mc_Check mc init), mc_visited (snd (mc_Check mc init))) \<and>
     ExploredCount (snd (mc_Check mc init)) \<le> n"
proof -
  obtain err V where r: "check_loop (mc_transitions mc) {} [init] = (err, V)" by fastforce
  have "unfollowed (mc_transitions mc) {} = length (mc_transitions mc)" by (simp add: unfollowed_def)
  with check_loop_turns [of "[init]" "mc_transitions mc" "{}"] r show ?thesis
    by (auto simp: mc_Check_def ExploredCount_def)
qed

section \<open>What \<open>Paths\<close> returns\<close>

lemma splitExact_2:
  assumes "c \<in> set s"
  shows "\<exists>rest. splitExact s c 2 = Some [takeWhile (\<lambda>x. x \<noteq> c) s, rest]"
proof -
  obtain j where "j < length s" "s ! j = c" using assms by (auto simp: in_set_conv_nth)
  then have "index_from s c 0 \<noteq> None" by (auto simp: index_from_def find_None_iff)
  then obtain i where i: "index_from s c 0 = Some i" by blast
  then have at: "i < length s" "s ! i = c" "\<forall>k < i. s ! k \<noteq> c"
    by (auto simp: index_from_def find_Some_iff)
  then have "takeWhile (\<lambda>x. x \<noteq> c) s = take i s" by (intro takeWhile_eq_take_P_nth) auto
  with i show ?thesis by (simp add: splitExact_def numeral_2_eq_2)
qed

definition path_to :: "string \<Rightarrow> mc_State list" where
  "path_to key = [\<lparr>ms_TraceID = takeWhile (\<lambda>c. c \<noteq> CHR '':'') key, ms_Seq = 0, ms_Hash = []\<rparr>]"

lemma paths_loop_keys:
  "\<forall>k \<in> set keys. CHR '':'' \<in> set k \<Longrightarrow> paths_loop paths keys = Some (paths @ map path_to keys)"
proof (induction keys arbitrary: paths)
  case (Cons k keys)
  then obtain rest where "splitExact k (CHR '':'') 2 = Some [takeWhile (\<lambda>x. x \<noteq> CHR '':'') k, rest]"
    using splitExact_2 [of "CHR '':''" k] by auto
  then show ?case using Cons by (simp add: path_to_def)
qed simp

text \<open>After a check, \<open>Paths\<close> does not panic, whatever the order of the map iteration, and
  returns one path per visited state, sorted by trace id; but each path is a single state with
  sequence number 0 whose trace id is cut at its first colon.\<close>

lemma model_paths_correct:
  assumes "mc_Check mc init = (None, mc')" and "set order = mc_visited mc'" and "distinct order"
  shows "\<exists>ps. mc_Paths mc' order = Some ps \<and> length ps = ExploredCount mc' \<and>
    sorted (map (\<lambda>p. ms_TraceID (p ! 0)) ps) \<and>
    set ps = {[\<lparr>ms_TraceID = takeWhile (\<lambda>c. c \<noteq> CHR '':'') (ms_TraceID s), ms_Seq = 0, ms_Hash = []\<rparr>] | s.
       mc_reach (mc_transitions mc) init s}"
proof -
  let ?R = "{s. mc_reach (mc_transitions mc) init s}"
  let ?key = "\<lambda>p :: mc_State list. ms_TraceID (p ! 0)"
  have V: "mc_visited mc' = stateKey ` ?R"
    using check_loop_correct [OF search_inv_start, of "mc_transitions mc" init] assms(1)
    by (auto simp: mc_Check_def Let_def split: prod.splits option.splits)
  have colon: "\<forall>k \<in> set order. CHR '':'' \<in> set k" using assms(2) V by (auto simp: stateKey_def)
  have cut: "path_to (stateKey s) = [\<lparr>ms_TraceID = takeWhile (\<lambda>c. c \<noteq> CHR '':'') (ms_TraceID s),
      ms_Seq = 0, ms_Hash = []\<rparr>]" for s
    by (simp add: path_to_def stateKey_def takeWhile_tail)
  have "mc_Paths mc' order = Some (sort_key ?key (map path_to order))"
    by (simp add: mc_Paths_def paths_loop_keys [OF colon])
  moreover have "length (sort_key ?key (map path_to order)) = ExploredCount mc'"
    using assms(2,3) by (simp add: ExploredCount_def distinct_card [symmetric])
  moreover have "set (sort_key ?key (map path_to order)) = (\<lambda>s. path_to (stateKey s)) ` ?R"
    using assms(2) V by (simp add: image_image)
  ultimately show ?thesis unfolding cut by (intro exI conjI) (auto simp: sorted_sort_key)
qed

lemma model_paths_example:
  "mc_Paths (snd (mc_Check mc_New \<lparr>ms_TraceID = ''a:b'', ms_Seq = 7, ms_Hash = []\<rparr>)) [''a:b:7''] =
     Some [[\<lparr>ms_TraceID = ''a'', ms_Seq = 0, ms_Hash = []\<rparr>]]"
proof -
  let ?s = "\<lparr>ms_TraceID = ''a:b'', ms_Seq = 7, ms_Hash = []\<rparr>"
  have key: "stateKey ?s = ''a:b:7''" by code_simp
  have loop: "check_loop [] {} [?s] = (None, {''a:b:7''})"
  proof -
    have "check_loop [] {} [?s] = check_loop [] {stateKey ?s} []"
      by (subst check_loop.simps) (simp add: Let_def)
    moreover have "check_loop [] V [] = (None, V)" for V by (subst check_loop.simps) simp
    ultimately show ?thesis by (simp add: key)
  qed
  then have check: "mc_Check mc_New ?s = (None, mc_New\<lparr>mc_visited := {''a:b:7''}\<rparr>)"
    by (simp add: mc_Check_def mc_New_def)
  obtain ps where ps: "mc_Paths (mc_New\<lparr>mc_visited := {''a:b:7''}\<rparr>) [''a:b:7''] = Some ps"
    "length ps = ExploredCount (mc_New\<lparr>mc_visited := {''a:b:7''}\<rparr>)"
    "set ps = {[\<lparr>ms_TraceID = takeWhile (\<lambda>c. c \<noteq> CHR '':'') (ms_TraceID s), ms_Seq = 0, ms_Hash = []\<rparr>] | s.
       mc_reach (mc_transitions mc_New) ?s s}"
    using model_paths_correct [OF check, of "[''a:b:7'']"] by auto
  have "length ps = 1" using ps(2) by (simp add: ExploredCount_def)
  then obtain p where "ps = [p]" by (cases ps) auto
  moreover have "[\<lparr>ms_TraceID = takeWhile (\<lambda>c. c \<noteq> CHR '':'') (ms_TraceID ?s), ms_Seq = 0, ms_Hash = []\<rparr>] \<in> set ps"
    unfolding ps(3) by (blast intro: mc_reach.start)
  ultimately show ?thesis using ps(1) check by simp
qed

end
