(* ===== verification/Contract.thy ===== *)
theory Contract
  imports Sha256 "HOL-Library.List_Lexorder" "HOL-Library.Char_ord"
begin

text \<open>
  The canonical encoder and the event hash (\<open>pkg/contract/contract.go\<close>).  A Go
  \<open>interface{}\<close> value is a tree of nil, booleans, integers, strings, maps and slices; every
  other leaf that \<open>json.Marshal\<close> may be given (floats, structs, channels) is an abstract value
  with its marshalled text or error as a parameter.  A map is the list of its entries in the
  order Go happens to iterate over it.
\<close>

section \<open>Values\<close>

datatype 'x go_value =
    GNil
  | GBool bool
  | GInt int
  | GString string
  | GMap "(string \<times> 'x go_value) list"
  | GSlice "'x go_value list"
  | GOther 'x

section \<open>What json.Marshal writes for a string\<close>

text \<open>The number of bytes of the UTF-8 sequence at the front, 0 if it is invalid.\<close>

definition code_in :: "nat \<Rightarrow> nat \<Rightarrow> nat list \<Rightarrow> nat \<Rightarrow> bool" where
  "code_in lo hi bs i \<longleftrightarrow> i < length bs \<and> lo \<le> bs ! i \<and> bs ! i \<le> hi"

definition utf8_len :: "nat list \<Rightarrow> nat" where
  "utf8_len bs =
     (let c = (\<lambda>i. code_in 128 191 bs i)
      in if code_in 0 127 bs 0 then 1
         else if code_in 194 223 bs 0 \<and> c 1 then 2
         else if code_in 224 224 bs 0 \<and> code_in 160 191 bs 1 \<and> c 2 then 3
         else if code_in 225 236 bs 0 \<and> c 1 \<and> c 2 then 3
         else if code_in 237 237 bs 0 \<and> code_in 128 159 bs 1 \<and> c 2 then 3
         else if code_in 238 239 bs 0 \<and> c 1 \<and> c 2 then 3
         else if code_in 240 240 bs 0 \<and> code_in 144 191 bs 1 \<and> c 2 \<and> c 3 then 4
         else if code_in 241 243 bs 0 \<and> c 1 \<and> c 2 \<and> c 3 then 4
         else if code_in 244 244 bs 0 \<and> code_in 128 143 bs 1 \<and> c 2 \<and> c 3 then 4
         else 0)"

definition escape_ascii :: "char \<Rightarrow> string" where
  "escape_ascii c =
     (if c = backslash \<or> c = dquote then [backslash, c]
      else if c = CHR 0x0A then [backslash, CHR ''n'']
      else if c = CHR 0x0D then [backslash, CHR ''r'']
      else if c = CHR 0x09 then [backslash, CHR ''t'']
      else if of_char c < (32 :: nat) \<or> c = CHR ''<'' \<or> c = CHR ''>'' \<or> c = CHR 0x26
      then backslash # ''u00'' @ hex_of_byte (byte_of_char c)
      else [c])"

function json_escape :: "string \<Rightarrow> string" where
  "json_escape [] = []"
| "json_escape (c # s) =
     (let k = utf8_len (map of_char (c # s)); rune = take k (c # s)
      in if of_char c < (128 :: nat) then escape_ascii c @ json_escape s
         else if k = 0 then backslash # ''ufffd'' @ json_escape s
         else (if rune = [CHR 0xE2, CHR 0x80, CHR 0xA8] then backslash # ''u2028''
               else if rune = [CHR 0xE2, CHR 0x80, CHR 0xA9] then backslash # ''u2029''
               else rune) @ json_escape (drop (k - 1) s))"
  by pat_completeness auto
termination
  by (relation "measure length") auto

definition json_string :: "string \<Rightarrow> string" where
  "json_string s = [dquote] @ json_escape s @ [dquote]"

section \<open>Encode\<close>

text \<open>\<open>m k\<close> is the encoding of the value under \<open>k\<close>, or the error of encoding it.\<close>

fun map_loop :: "(string \<rightharpoonup> 'e + string) \<Rightarrow> string \<Rightarrow> nat \<Rightarrow> string list \<Rightarrow> 'e + string" where
  "map_loop m sb i [] = Inr (sb @ ''}'')"
| "map_loop m sb i (k # ks) =
     (let sb1 = (if i > 0 then sb @ '','' else sb);
          sb2 = sb1 @ [dquote] @ k @ [dquote] @ '':''
      in case m k of
           None \<Rightarrow> map_loop m (sb2 @ ''null'') (i + 1) ks
         | Some (Inl err) \<Rightarrow> Inl err
         | Some (Inr sub) \<Rightarrow> map_loop m (sb2 @ sub) (i + 1) ks)"

fun slice_loop :: "string \<Rightarrow> nat \<Rightarrow> ('e + string) list \<Rightarrow> 'e + string" where
  "slice_loop sb i [] = Inr (sb @ '']'')"
| "slice_loop sb i (v # vs) =
     (let sb1 = (if i > 0 then sb @ '','' else sb)
      in case v of Inl err \<Rightarrow> Inl err | Inr sub \<Rightarrow> slice_loop (sb1 @ sub) (i + 1) vs)"

fun encode_value :: "('x \<Rightarrow> 'e + string) \<Rightarrow> 'x go_value \<Rightarrow> 'e + string" where
  "encode_value marshal GNil = Inr ''null''"
| "encode_value marshal (GBool b) = Inr (if b then ''true'' else ''false'')"
| "encode_value marshal (GInt i) = Inr (fmt_int i)"
| "encode_value marshal (GString s) = Inr (json_string s)"
| "encode_value marshal (GMap m) =
     (let keys = sort (map fst m)
      in map_loop (map_of (map (\<lambda>(k, v). (k, encode_value marshal v)) m)) ''{'' 0 keys)"
| "encode_value marshal (GSlice s) = slice_loop ''['' 0 (map (encode_value marshal) s)"
| "encode_value marshal (GOther x) = marshal x"

definition contract_Encode :: "('x \<Rightarrow> 'e + string) \<Rightarrow> 'x go_value \<Rightarrow> 'e + byte list" where
  "contract_Encode marshal v =
     (case encode_value marshal v of Inl err \<Rightarrow> Inl err | Inr s \<Rightarrow> Inr (bytes_of_string s))"

definition EncodeDict :: "('x \<Rightarrow> 'e + string) \<Rightarrow> (string \<times> 'x go_value) list \<Rightarrow> 'e + byte list" where
  "EncodeDict marshal d = contract_Encode marshal (GMap d)"

section \<open>Hashes\<close>

record DeterministicContext =
  dc_TraceID :: string
  dc_Tick :: u64
  dc_EventID :: string

definition HashPayload :: "byte list \<Rightarrow> string" where
  "HashPayload payload = hex_of_bytes (sha256 payload)"

definition hash_raw :: "DeterministicContext \<Rightarrow> u64 \<Rightarrow> string \<Rightarrow> byte list \<Rightarrow> string \<Rightarrow> string" where
  "hash_raw ctx seq eventType payload prevHash =
     (let payloadHash = HashPayload payload
      in dc_TraceID ctx @ ''|'' @ fmt_u64 seq @ ''|'' @ eventType @ ''|'' @ payloadHash @ ''|'' @ prevHash)"

definition HashEvent :: "DeterministicContext \<Rightarrow> u64 \<Rightarrow> string \<Rightarrow> byte list \<Rightarrow> string \<Rightarrow> string" where
  "HashEvent ctx seq eventType payload prevHash =
     hex_of_bytes (sha256 (bytes_of_string (hash_raw ctx seq eventType payload prevHash)))"

section \<open>The encoding does not depend on the map iteration order\<close>

text \<open>Two Go values are equal when their maps hold equal values under the same keys, in
  whatever order they are iterated over.\<close>

inductive go_equal :: "'x go_value \<Rightarrow> 'x go_value \<Rightarrow> bool" where
  leaf: "go_equal v v"
| slice: "list_all2 go_equal vs ws \<Longrightarrow> go_equal (GSlice vs) (GSlice ws)"
| map: "distinct (map fst m) \<Longrightarrow> distinct (map fst n) \<Longrightarrow> fst ` set m = fst ` set n \<Longrightarrow>
    (\<And>k. rel_option go_equal (map_of m k) (map_of n k)) \<Longrightarrow> go_equal (GMap m) (GMap n)"

lemma encode_go_equal: "go_equal v w \<Longrightarrow> encode_value marshal v = encode_value marshal w"
proof (induction rule: go_equal.induct)
  case (slice vs ws)
  then have "map (encode_value marshal) vs = map (encode_value marshal) ws"
    by (induction rule: list_all2_induct) simp_all
  then show ?case by simp
next
  case (map m n)
  have "map_of (map (\<lambda>(k, v). (k, encode_value marshal v)) m) =
      map_of (map (\<lambda>(k, v). (k, encode_value marshal v)) n)"
  proof
    fix k
    show "map_of (map (\<lambda>(k, v). (k, encode_value marshal v)) m) k =
      map_of (map (\<lambda>(k, v). (k, encode_value marshal v)) n) k"
      using map.IH [of k]
      by (cases "map_of m k"; cases "map_of n k") (simp_all add: map_of_map)
  qed
  moreover have "sort (map fst m) = sort (map fst n)"
    using map.hyps by (intro sorted_distinct_set_unique) simp_all
  ultimately show ?case by simp
qed simp

text \<open>The encoding is a function of the value, not of the order in which Go iterates over
  its maps: equal values have the same encoding, or the same error.\<close>

lemma contract_encode_deterministic:
  assumes "go_equal v w"
  shows "contract_Encode marshal v = contract_Encode marshal w"
  using encode_go_equal [OF assms, of marshal] by (simp add: contract_Encode_def)

text \<open>Keys are written without escaping, so different maps can have the same encoding, and
  the same payload hash: a one-entry map whose key holds the separators encodes like a two-entry
  map.\<close>

lemma contract_keys_collide:
  "let key = ''a'' @ [dquote] @ '':1,'' @ [dquote] @ ''b'';
       m1 = GMap [(key, GInt 2)]; m2 = GMap [(''a'', GInt 1), (''b'', GInt 2)]
   in contract_Encode marshal m1 = contract_Encode marshal m2 \<and> \<not> go_equal m1 m2"
proof -
  have "sort [''a'', ''b''] = [''a'', ''b'']" by code_simp
  moreover have "fmt_int 1 = ''1''" "fmt_int 2 = ''2''" by code_simp+
  moreover have "\<not> go_equal (GMap [(k, v)]) (GMap [(''a'', GInt 1), (''b'', GInt 2)])" for k and v :: "'a go_value"
    by (auto elim: go_equal.cases)
  ultimately show ?thesis by (simp add: contract_Encode_def)
qed

section \<open>What an event hash binds\<close>

lemma bar_hex: "CHR ''|'' \<notin> set (hex_of_bytes bs)"
proof -
  have "hex_char d \<noteq> CHR ''|''" if "d < 16" for d
  proof
    assume "hex_char d = CHR ''|''"
    then have "(of_char (hex_char d) :: nat) = of_char (CHR ''|'')" by simp
    with of_char_hex_char [OF that] that show False by (auto split: if_splits)
  qed
  moreover have "unat b div 16 < 16" "unat b mod 16 < 16" for b :: byte
    using unat_byte_less [of b] by linarith+
  ultimately show ?thesis by (induction bs) (auto simp: hex_of_byte_def dest: sym)
qed

lemma bar_fmt_u64: "CHR ''|'' \<notin> set (fmt_u64 w)"
  unfolding fmt_u64_def by (rule dec_of_nat_no_char) code_simp

lemma bar_field:
  "CHR ''|'' \<notin> set a \<Longrightarrow> CHR ''|'' \<notin> set b \<Longrightarrow> a @ ''|'' @ x = b @ ''|'' @ y \<longleftrightarrow> a = b \<and> x = y"
  using first_delim_unique [of "CHR ''|''" a b x y] by simp

text \<open>C32: What the event hash binds.  When two events whose trace ids and types hold no bar have
  the same hash, then they agree on trace id, sequence number, type, payload and previous hash, or
  one of the two SHA-256 computations shows a collision.  It binds nothing else: the tick and the
  event id of the context do not enter the hash.\<close>

theorem hash_event_binds:
  assumes "HashEvent c1 s1 t1 p1 h1 = HashEvent c2 s2 t2 p2 h2"
    and "CHR ''|'' \<notin> set (dc_TraceID c1)" "CHR ''|'' \<notin> set (dc_TraceID c2)"
    and "CHR ''|'' \<notin> set t1" "CHR ''|'' \<notin> set t2"
  shows "(dc_TraceID c1 = dc_TraceID c2 \<and> s1 = s2 \<and> t1 = t2 \<and> p1 = p2 \<and> h1 = h2 \<or>
      (p1 \<noteq> p2 \<and> sha256 p1 = sha256 p2) \<or>
      (hash_raw c1 s1 t1 p1 h1 \<noteq> hash_raw c2 s2 t2 p2 h2 \<and>
       sha256 (bytes_of_string (hash_raw c1 s1 t1 p1 h1)) =
       sha256 (bytes_of_string (hash_raw c2 s2 t2 p2 h2)))) \<and>
    HashEvent (c1\<lparr>dc_Tick := tick, dc_EventID := eid\<rparr>) s1 t1 p1 h1 = HashEvent c1 s1 t1 p1 h1"
proof -
  have sha: "sha256 (bytes_of_string (hash_raw c1 s1 t1 p1 h1)) =
      sha256 (bytes_of_string (hash_raw c2 s2 t2 p2 h2))"
    using assms(1) by (simp add: HashEvent_def hex_of_bytes_inj)
  have "dc_TraceID c1 = dc_TraceID c2 \<and> s1 = s2 \<and> t1 = t2 \<and> HashPayload p1 = HashPayload p2 \<and> h1 = h2"
    if "hash_raw c1 s1 t1 p1 h1 = hash_raw c2 s2 t2 p2 h2"
    using that unfolding hash_raw_def Let_def
    by (simp only: bar_field assms(2-5) bar_fmt_u64 bar_hex HashPayload_def not_False_eq_True
        fmt_u64_inj simp_thms)
  moreover have "HashEvent (c1\<lparr>dc_Tick := tick, dc_EventID := eid\<rparr>) s1 t1 p1 h1 = HashEvent c1 s1 t1 p1 h1"
    by (simp add: HashEvent_def hash_raw_def)
  ultimately show ?thesis using sha by (auto simp: HashPayload_def hex_of_bytes_inj)
qed

theorem hash_event_witness:
  "let c1 = \<lparr>dc_TraceID = ''t'', dc_Tick = 1, dc_EventID = ''x''\<rparr>;
       c2 = \<lparr>dc_TraceID = ''t'', dc_Tick = 2, dc_EventID = ''y''\<rparr>
   in HashEvent c1 1 ''e'' [] [] = HashEvent c2 1 ''e'' [] [] \<and> dc_TraceID c1 = dc_TraceID c2"
proof -
  let ?c1 = "\<lparr>dc_TraceID = ''t'', dc_Tick = 1, dc_EventID = ''x''\<rparr>"
  let ?c2 = "\<lparr>dc_TraceID = ''t'', dc_Tick = 2, dc_EventID = ''y''\<rparr>"
  have h: "HashEvent ?c1 1 ''e'' [] [] = HashEvent ?c2 1 ''e'' [] []"
    and raw: "hash_raw ?c1 1 ''e'' [] [] = hash_raw ?c2 1 ''e'' [] []"
    by (simp_all add: HashEvent_def hash_raw_def)
  from hash_event_binds [OF h] h raw show ?thesis by simp
qed

text \<open>The tick and the event id of the context are not hashed, and a bar in a field makes two
  different events indistinguishable.\<close>

lemma hash_event_ambiguous:
  "HashEvent \<lparr>dc_TraceID = t, dc_Tick = a, dc_EventID = x\<rparr> s e p h =
     HashEvent \<lparr>dc_TraceID = t, dc_Tick = b, dc_EventID = y\<rparr> s e p h"
  "HashEvent \<lparr>dc_TraceID = ''a|1'', dc_Tick = a, dc_EventID = x\<rparr> 2 ''e'' p h =
     HashEvent \<lparr>dc_TraceID = ''a'', dc_Tick = b, dc_EventID = y\<rparr> 1 ''2|e'' p h"
proof -
  have "fmt_u64 1 = ''1''" "fmt_u64 2 = ''2''" by code_simp+
  then show "HashEvent \<lparr>dc_TraceID = ''a|1'', dc_Tick = a, dc_EventID = x\<rparr> 2 ''e'' p h =
     HashEvent \<lparr>dc_TraceID = ''a'', dc_Tick = b, dc_EventID = y\<rparr> 1 ''2|e'' p h"
    by (simp add: HashEvent_def hash_raw_def)
qed (simp add: HashEvent_def hash_raw_def)

end
