(* ===== verification/ContractUnique.thy ===== *)
theory ContractUnique
  imports Contract
begin

text \<open>
  Different values have different encodings, as far as \<open>pkg/contract/contract.go\<close> achieves it:
  for trees of nil, booleans, integers, ASCII strings, slices and maps whose keys hold no double
  quote.  The encoding is read back piece by piece: what follows a value starts with a comma or
  a closing bracket, or is empty, and that is enough to find the value's end.
\<close>

section \<open>Plain values and their text\<close>

definition ascii :: "string \<Rightarrow> bool" where
  "ascii s \<longleftrightarrow> list_all (\<lambda>c. of_char c < (128 :: nat)) s"

fun plain :: "'x go_value \<Rightarrow> bool" where
  "plain GNil = True"
| "plain (GBool b) = True"
| "plain (GInt i) = True"
| "plain (GString s) = ascii s"
| "plain (GMap m) = (distinct (map fst m) \<and> list_all (\<lambda>(k, v). dquote \<notin> set k \<and> plain v) m)"
| "plain (GSlice vs) = list_all plain vs"
| "plain (GOther x) = False"

text \<open>A comma before each element but the first.\<close>

definition commas :: "('a \<Rightarrow> string) \<Rightarrow> 'a list \<Rightarrow> string" where
  "commas f xs = concat (map (\<lambda>x. CHR '','' # f x) xs)"

definition listed :: "('a \<Rightarrow> string) \<Rightarrow> 'a list \<Rightarrow> string" where
  "listed f xs = (case xs of [] \<Rightarrow> [] | x # xs' \<Rightarrow> f x @ commas f xs')"

definition entry_text :: "('v \<Rightarrow> string) \<Rightarrow> string \<times> 'v \<Rightarrow> string" where
  "entry_text f kv = [dquote] @ fst kv @ [dquote] @ '':'' @ f (snd kv)"

text \<open>The entries of a map in the order of their keys.\<close>

definition by_key :: "(string \<times> 'v) list \<Rightarrow> (string \<times> 'v) list" where
  "by_key m = map (\<lambda>k. (k, the (map_of m k))) (sort (map fst m))"

lemma commas_simps [simp]: "commas f [] = []" "commas f (x # xs) = CHR '','' # f x @ commas f xs"
  by (simp_all add: commas_def)

lemma listed_simps [simp]: "listed f [] = []" "listed f (x # xs) = f x @ commas f xs"
  by (simp_all add: listed_def)

lemma slice_loop_commas: "slice_loop sb (Suc i) (map (\<lambda>v. Inr (f v)) vs) = Inr (sb @ commas f vs @ '']'')"
  by (induction vs arbitrary: sb i) simp_all

lemma slice_loop_listed: "slice_loop sb 0 (map (\<lambda>v. Inr (f v)) vs) = Inr (sb @ listed f vs @ '']'')"
  by (cases vs) (simp_all add: slice_loop_commas)

lemma map_loop_commas:
  assumes "\<And>k. k \<in> set ks \<Longrightarrow> m k = Some (Inr (f (g k)))"
  shows "map_loop m sb (Suc i) ks = Inr (sb @ commas (entry_text f) (map (\<lambda>k. (k, g k)) ks) @ ''}'')"
  using assms by (induction ks arbitrary: sb i) (simp_all add: entry_text_def)

lemma map_loop_listed:
  assumes "\<And>k. k \<in> set ks \<Longrightarrow> m k = Some (Inr (f (g k)))"
  shows "map_loop m sb 0 ks = Inr (sb @ listed (entry_text f) (map (\<lambda>k. (k, g k)) ks) @ ''}'')"
  using assms by (cases ks) (simp_all add: entry_text_def map_loop_commas [of _ m f g])

text \<open>The text of a plain value: its encoding, which does not fail.\<close>

fun text_of :: "'x go_value \<Rightarrow> string" where
  "text_of GNil = ''null''"
| "text_of (GBool b) = (if b then ''true'' else ''false'')"
| "text_of (GInt i) = fmt_int i"
| "text_of (GString s) = json_string s"
| "text_of (GMap m) = ''{'' @ listed (entry_text (\<lambda>t. t)) (by_key (map (\<lambda>(k, v). (k, text_of v)) m)) @ ''}''"
| "text_of (GSlice vs) = ''['' @ listed (\<lambda>t. t) (map text_of vs) @ '']''"
| "text_of (GOther x) = []"

lemma encode_plain: "plain v \<Longrightarrow> encode_value marshal v = Inr (text_of v)"
proof (induction v rule: text_of.induct)
  case (5 m)
  have enc: "map (\<lambda>(k, v). (k, encode_value marshal v)) m =
      map (\<lambda>(k, t). (k, Inr t)) (map (\<lambda>(k, v). (k, text_of v)) m)"
    using 5 by (auto simp: list_all_iff)
  define n where "n = map (\<lambda>(k, v). (k, text_of v)) m"
  have keys: "map fst n = map fst m" by (simp add: n_def comp_def case_prod_beta)
  have "map_of (map (\<lambda>(k, t). (k, Inr t)) n) k = Some (Inr (the (map_of n k)))"
    if "k \<in> set (sort (map fst m))" for k
  proof -
    from that have "k \<in> set (map fst n)" unfolding keys by simp
    then obtain s where "map_of n k = Some s" by (metis list.set_map map_of_eq_None_iff not_None_eq)
    then show ?thesis by (simp add: map_of_map)
  qed
  from map_loop_listed [of "sort (map fst m)" _ "\<lambda>t. t" "\<lambda>k. the (map_of n k)", OF this, where sb = "''{''"]
  show ?case unfolding encode_value.simps enc n_def [symmetric] Let_def
    by (simp add: by_key_def keys n_def [symmetric])
next
  case (6 vs)
  then have enc: "map (encode_value marshal) vs = map (\<lambda>t. Inr t) (map text_of vs)"
    by (simp add: list_all_iff)
  show ?case
    unfolding encode_value.simps enc slice_loop_listed by simp
qed auto

section \<open>Reading a text back\<close>

definition ends :: "string \<Rightarrow> bool" where
  "ends r \<longleftrightarrow> r = [] \<or> hd r \<in> {CHR '','', CHR '']'', CHR ''}''}"

lemma ends_simps [simp]: "ends []" "ends (c # r) \<longleftrightarrow> c \<in> {CHR '','', CHR '']'', CHR ''}''}"
  by (simp_all add: ends_def)

text \<open>Numbers.\<close>

lemma not_digit [simp]: "\<not> is_digit (CHR '','')" "\<not> is_digit (CHR '']'')" "\<not> is_digit (CHR ''}'')"
  "\<not> is_digit (CHR ''-'')"
  by (simp_all add: is_digit_def)

lemma digits_unique:
  assumes "list_all is_digit xs" "list_all is_digit ys" "ends r" "ends s" "xs @ r = ys @ s"
  shows "xs = ys \<and> r = s"
proof -
  have "takeWhile is_digit (zs @ q) = zs" if "list_all is_digit zs" "ends q" for zs q
    using that by (cases q) (auto simp: takeWhile_append list_all_iff)
  with assms show ?thesis by (metis append_eq_append_conv)
qed

lemma dec_digits: "list_all is_digit (dec_of_nat n)"
  using dec_of_nat_digits by (simp add: list_all_iff)

lemma fmt_int_unique:
  assumes "ends r" "ends s" "fmt_int i @ r = fmt_int j @ s"
  shows "i = j \<and> r = s"
proof -
  have minus: "dec_of_nat m @ q \<noteq> CHR ''-'' # p" for m q p
    using dec_digits [of m] by (cases "dec_of_nat m") auto
  have nats: "m = n \<and> r = s" if "dec_of_nat m @ r = dec_of_nat n @ s" for m n
    using digits_unique [OF dec_digits dec_digits assms(1,2) that] by simp
  show ?thesis
  proof (cases "i < 0"; cases "j < 0")
    assume "i < 0" "j < 0"
    with assms(3) nats [of "nat (- i)" "nat (- j)"] show ?thesis by (auto simp: fmt_int_def)
  next
    assume "\<not> i < 0" "\<not> j < 0"
    with assms(3) nats [of "nat i" "nat j"] show ?thesis by (auto simp: fmt_int_def)
  qed (use assms(3) minus minus [symmetric] in \<open>auto simp: fmt_int_def\<close>)
qed

text \<open>Strings.\<close>

lemma hex_of_byte_cons: "hex_of_byte a @ x = hex_of_byte b @ y \<longleftrightarrow> a = b \<and> x = y"
  by (simp add: append_eq_append_conv)

lemma escape_ascii_unique:
  assumes "escape_ascii c @ x = escape_ascii d @ y"
  shows "c = d \<and> x = y"
proof (cases "hd (escape_ascii c) = backslash")
  case True
  with assms show ?thesis
    by (auto simp: escape_ascii_def backslash_def dquote_def hex_of_byte_cons byte_of_char_inj split: if_splits)
next
  case False
  with assms show ?thesis
    by (auto simp: escape_ascii_def backslash_def dquote_def split: if_splits)
qed

lemma escape_ascii_first: "escape_ascii c \<noteq> [] \<and> hd (escape_ascii c) \<noteq> dquote"
  by (simp add: escape_ascii_def backslash_def dquote_def)

lemma json_escape_ascii: "of_char c < (128 :: nat) \<Longrightarrow> json_escape (c # s) = escape_ascii c @ json_escape s"
  by (simp add: Let_def)

lemma json_escape_unique:
  assumes "ascii s" "ascii t" "json_escape s @ dquote # x = json_escape t @ dquote # y"
  shows "s = t \<and> x = y"
  using assms
proof (induction s arbitrary: t)
  case Nil
  then show ?case
  proof (cases t)
    case (Cons d t')
    with Nil escape_ascii_first [of d] show ?thesis
      by (cases "escape_ascii d") (auto simp: ascii_def json_escape_ascii simp del: json_escape.simps(2))
  qed simp
next
  case (Cons c s)
  show ?case
  proof (cases t)
    case Nil
    with Cons.prems escape_ascii_first [of c] show ?thesis
      by (cases "escape_ascii c") (auto simp: ascii_def json_escape_ascii simp del: json_escape.simps(2))
  next
    case t: (Cons d t')
    with Cons.prems have eq: "escape_ascii c @ (json_escape s @ dquote # x) = escape_ascii d @ (json_escape t' @ dquote # y)"
      by (simp add: ascii_def json_escape_ascii del: json_escape.simps(2))
    with Cons.IH [of t'] Cons.prems t escape_ascii_unique [OF eq] show ?thesis by (simp add: ascii_def)
  qed
qed

text \<open>Lists of elements, each of which can be read back.\<close>

definition readable :: "('a \<Rightarrow> string) \<Rightarrow> ('a \<Rightarrow> bool) \<Rightarrow> ('a \<Rightarrow> 'a \<Rightarrow> bool) \<Rightarrow> 'a \<Rightarrow> bool" where
  "readable f P E x \<longleftrightarrow> (\<forall>y r s. P y \<longrightarrow> ends r \<longrightarrow> ends s \<longrightarrow> f x @ r = f y @ s \<longrightarrow> E x y \<and> r = s)"

lemma ends_commas: "close \<in> {CHR '']'', CHR ''}''} \<Longrightarrow> ends (commas f xs @ close # r)"
  by (cases xs) auto

lemma commas_unique:
  assumes "list_all (readable f P E) xs" "list_all P ys" "close \<in> {CHR '']'', CHR ''}''}"
    and "commas f xs @ close # r = commas f ys @ close # s"
  shows "list_all2 E xs ys \<and> r = s"
  using assms
proof (induction xs arbitrary: ys)
  case Nil
  then show ?case by (cases ys) auto
next
  case (Cons x xs)
  show ?case
  proof (cases ys)
    case Nil
    with Cons.prems show ?thesis by auto
  next
    case ys: (Cons y ys')
    with Cons.prems have "f x @ (commas f xs @ close # r) = f y @ (commas f ys' @ close # s)" by simp
    moreover have "ends (commas f xs @ close # r)" "ends (commas f ys' @ close # s)"
      using ends_commas Cons.prems(3) by blast+
    moreover have "readable f P E x" "P y" using Cons.prems(1,2) ys by simp_all
    ultimately have "E x y \<and> commas f xs @ close # r = commas f ys' @ close # s"
      unfolding readable_def by blast
    with Cons.IH [of ys'] Cons.prems ys show ?thesis by simp
  qed
qed

lemma listed_unique:
  assumes "list_all (readable f P E) xs" "list_all P ys" "close \<in> {CHR '']'', CHR ''}''}"
    and "listed f xs @ close # r = listed f ys @ close # s"
    and first: "\<And>x. x \<in> set xs \<union> set ys \<Longrightarrow> f x \<noteq> [] \<and> hd (f x) \<noteq> close"
  shows "list_all2 E xs ys \<and> r = s"
proof (cases xs)
  case Nil
  show ?thesis
  proof (cases ys)
    case (Cons y ys')
    with Nil assms(4) first [of y] show ?thesis by (cases "f y") auto
  qed (use Nil assms(4) in simp)
next
  case xs: (Cons x xs')
  show ?thesis
  proof (cases ys)
    case Nil
    with xs assms(4) first [of x] show ?thesis by (cases "f x") auto
  next
    case (Cons y ys')
    with xs assms(4) have "commas f xs @ close # r = commas f ys @ close # s" by simp
    then show ?thesis by (rule commas_unique [OF assms(1-3)])
  qed
qed

section \<open>Values\<close>

text \<open>The first character tells the kind of a value.\<close>

definition tag :: "char \<Rightarrow> nat" where
  "tag c =
     (if c = CHR ''n'' then 0 else if c = CHR ''t'' \<or> c = CHR ''f'' then 1
      else if is_digit c \<or> c = CHR ''-'' then 2 else if c = dquote then 3
      else if c = CHR ''{'' then 4 else if c = CHR ''['' then 5 else 6)"

fun tag_of :: "'x go_value \<Rightarrow> nat" where
  "tag_of GNil = 0"
| "tag_of (GBool b) = 1"
| "tag_of (GInt i) = 2"
| "tag_of (GString s) = 3"
| "tag_of (GMap m) = 4"
| "tag_of (GSlice vs) = 5"
| "tag_of (GOther x) = 6"

lemma tag_digit: "is_digit c \<Longrightarrow> tag c = 2"
  by (auto simp: tag_def is_digit_def)

lemma tag_chars [simp]:
  "tag (CHR ''n'') = 0" "tag (CHR ''t'') = 1" "tag (CHR ''f'') = 1" "tag (CHR ''-'') = 2" "tag dquote = 3"
  "tag (CHR ''{'') = 4" "tag (CHR ''['') = 5" "tag (CHR '']'') = 6" "tag (CHR ''}'') = 6"
  by (simp_all add: tag_def is_digit_def dquote_def)

lemma fmt_int_first: "fmt_int i \<noteq> [] \<and> tag (hd (fmt_int i)) = 2"
proof -
  have "tag (hd (dec_of_nat n)) = 2" for n
    using dec_digits [of n] tag_digit by (cases "dec_of_nat n") auto
  then show ?thesis by (simp add: fmt_int_def)
qed

lemma text_first: "plain v \<Longrightarrow> text_of v \<noteq> [] \<and> tag (hd (text_of v)) = tag_of v"
  using fmt_int_first
  by (cases v) (simp_all add: json_string_def)

lemma plain_tag: "plain v \<Longrightarrow> tag_of v < 6"
  by (cases v) simp_all

lemma same_tag:
  assumes "plain v" "plain w" "text_of v @ r = text_of w @ s"
  shows "tag_of v = tag_of w"
  using text_first [OF assms(1)] text_first [OF assms(2)] assms(3) by (metis hd_append2)

text \<open>Maps: the entries in key order.\<close>

lemma by_key_map: "by_key (map (\<lambda>(k, v). (k, f v)) m) = map (\<lambda>(k, v). (k, f v)) (by_key m)"
proof -
  have keys: "map fst (map (\<lambda>(k, v). (k, f v)) m) = map fst m" by (simp add: comp_def case_prod_beta)
  have "the (map_of (map (\<lambda>(k, v). (k, f v)) m) k) = f (the (map_of m k))" if "k \<in> fst ` set m" for k
    using that by (cases "map_of m k") (auto simp: map_of_map map_of_eq_None_iff)
  then show ?thesis unfolding by_key_def keys by simp
qed

lemma set_by_key: "distinct (map fst m) \<Longrightarrow> set (by_key m) = set m"
  by (force simp: by_key_def map_of_eq_Some_iff image_iff)

lemma fst_by_key: "map fst (by_key m) = sort (map fst m)"
  by (simp add: by_key_def comp_def)

lemma commas_map: "commas f (map g xs) = commas (f \<circ> g) xs"
  by (induction xs) simp_all

lemma listed_map: "listed f (map g xs) = listed (f \<circ> g) xs"
  by (cases xs) (simp_all add: commas_map)

lemma map_text: "text_of (GMap m) = ''{'' @ listed (entry_text text_of) (by_key m) @ ''}''"
proof -
  have "entry_text (\<lambda>t. t) \<circ> (\<lambda>(k, v). (k, text_of v)) = entry_text (text_of :: 'a go_value \<Rightarrow> string)"
    by (simp add: entry_text_def fun_eq_iff)
  then show ?thesis by (simp add: by_key_map listed_map)
qed

definition plain_entry :: "string \<times> 'x go_value \<Rightarrow> bool" where
  "plain_entry kv \<longleftrightarrow> dquote \<notin> set (fst kv) \<and> plain (snd kv)"

lemma entry_readable:
  assumes "readable text_of plain go_equal (snd kv)" and "dquote \<notin> set (fst kv)"
  shows "readable (entry_text text_of) plain_entry (rel_prod (=) go_equal) kv"
  unfolding readable_def
proof (intro allI impI)
  fix kw :: "string \<times> 'a go_value" and r s
  assume w: "plain_entry kw" and e: "ends r" "ends s"
    and eq: "entry_text text_of kv @ r = entry_text text_of kw @ s"
  have "fst kv @ dquote # (CHR '':'' # text_of (snd kv) @ r) = fst kw @ dquote # (CHR '':'' # text_of (snd kw) @ s)"
    using eq by (simp add: entry_text_def)
  then have "fst kv = fst kw" "text_of (snd kv) @ r = text_of (snd kw) @ s"
    using first_delim_unique [of dquote "fst kv" "fst kw"] assms(2) w by (simp_all add: plain_entry_def)
  moreover have "plain (snd kw)" using w by (simp add: plain_entry_def)
  ultimately have "go_equal (snd kv) (snd kw) \<and> r = s"
    using assms(1) e unfolding readable_def by blast
  with \<open>fst kv = fst kw\<close> show "rel_prod (=) go_equal kv kw \<and> r = s"
    by (cases kv; cases kw) simp
qed

lemma entries_equal:
  assumes "list_all2 (rel_prod (=) go_equal) (by_key m) (by_key n)"
    and "distinct (map fst m)" "distinct (map fst n)"
  shows "go_equal (GMap m) (GMap n)"
proof (rule go_equal.map [OF assms(2,3)])
  have "map fst (by_key m) = map fst (by_key n)"
    using assms(1) by (induction rule: list_all2_induct) auto
  then have keys: "sort (map fst m) = sort (map fst n)" by (simp add: fst_by_key)
  then show fst: "fst ` set m = fst ` set n" by (metis list.set_map set_sort)
  fix k
  show "rel_option go_equal (map_of m k) (map_of n k)"
  proof (cases "k \<in> fst ` set m")
    case True
    then obtain v w where vw: "map_of m k = Some v" "map_of n k = Some w"
      using fst by (metis map_of_eq_None_iff option.exhaust)
    have "list_all (\<lambda>k. go_equal (the (map_of m k)) (the (map_of n k))) (sort (map fst m))"
      using assms(1) unfolding by_key_def keys by (simp add: list_all2_map1 list_all2_map2 list_all2_same list_all_iff)
    moreover have "k \<in> set (sort (map fst m))" using True by simp
    ultimately have "go_equal (the (map_of m k)) (the (map_of n k))" unfolding list_all_iff by blast
    with vw show ?thesis by simp
  next
    case False
    then have "map_of m k = None" "map_of n k = None" using fst by (simp_all add: map_of_eq_None_iff)
    then show ?thesis by simp
  qed
qed

lemma bool_text_unique: "(if b then ''true'' else ''false'') @ r = (if c then ''true'' else ''false'') @ s \<Longrightarrow> b = c \<and> r = s"
  by (simp split: if_splits)

lemma plain_readable: "plain v \<Longrightarrow> readable text_of plain go_equal v"
proof (induction v)
  case (GMap m)
  show ?case
    unfolding readable_def
  proof (intro allI impI)
    fix w :: "'a go_value" and r s assume w: "plain w" "ends r" "ends s" "text_of (GMap m) @ r = text_of w @ s"
    from same_tag [OF GMap.prems w(1,4)] obtain n where n: "w = GMap n" by (cases w) auto
    have pm: "plain_entry kv" if "kv \<in> set m" for kv using GMap.prems that by (auto simp: plain_entry_def list_all_iff)
    have pn: "plain_entry kv" if "kv \<in> set n" for kv using w(1) n that by (auto simp: plain_entry_def list_all_iff)
    have dist: "distinct (map fst m)" "distinct (map fst n)" using GMap.prems w(1) n by simp_all
    have "list_all2 (rel_prod (=) go_equal) (by_key m) (by_key n) \<and> r = s"
    proof (rule listed_unique [where f = "entry_text text_of" and P = plain_entry and close = "CHR ''}''"])
      show "list_all (readable (entry_text text_of) plain_entry (rel_prod (=) go_equal)) (by_key m)"
        unfolding list_all_iff set_by_key [OF dist(1)]
      proof
        fix kv assume kv: "kv \<in> set m"
        with pm have "dquote \<notin> set (fst kv)" "plain (snd kv)" by (simp_all add: plain_entry_def)
        with GMap.IH [OF kv, of "snd kv"] entry_readable
        show "readable (entry_text text_of) plain_entry (rel_prod (=) go_equal) kv"
          by (metis prod.collapse snds.intros)
      qed
      show "list_all plain_entry (by_key n)" using pn by (simp add: list_all_iff set_by_key dist)
      show "listed (entry_text text_of) (by_key m) @ CHR ''}'' # r = listed (entry_text text_of) (by_key n) @ CHR ''}'' # s"
        using w(4) unfolding n map_text by simp
    qed (auto simp: entry_text_def dquote_def)
    then show "go_equal (GMap m) w \<and> r = s" using entries_equal dist n by blast
  qed
next
  case (GSlice vs)
  show ?case
    unfolding readable_def
  proof (intro allI impI)
    fix w :: "'a go_value" and r s assume w: "plain w" "ends r" "ends s" "text_of (GSlice vs) @ r = text_of w @ s"
    from same_tag [OF GSlice.prems w(1,4)] obtain ws where ws: "w = GSlice ws" by (cases w) auto
    have "list_all2 go_equal vs ws \<and> r = s"
    proof (rule listed_unique [where f = text_of and P = plain and close = "CHR '']''"])
      show "list_all (readable text_of plain go_equal) vs"
        using GSlice.IH GSlice.prems by (simp add: list_all_iff)
      show "list_all plain ws" using w(1) ws by simp
      show "listed text_of vs @ CHR '']'' # r = listed text_of ws @ CHR '']'' # s"
        using w(4) unfolding ws by (simp add: listed_map comp_def)
      show "text_of x \<noteq> [] \<and> hd (text_of x) \<noteq> CHR '']''" if "x \<in> set vs \<union> set ws" for x
      proof -
        have "plain x" using that GSlice.prems w(1) ws by (auto simp: list_all_iff)
        then have "text_of x \<noteq> []" "tag (hd (text_of x)) < 6" using text_first plain_tag by metis+
        then show ?thesis using tag_chars(8) by (metis less_irrefl)
      qed
    qed simp
    then show "go_equal (GSlice vs) w \<and> r = s" using go_equal.slice ws by blast
  qed
next
  case (GString x)
  show ?case
    unfolding readable_def
  proof (intro allI impI)
    fix w :: "'a go_value" and r s assume w: "plain w" "ends r" "ends s" "text_of (GString x :: 'a go_value) @ r = text_of w @ s"
    from same_tag [OF GString w(1,4)] obtain y where y: "w = GString y" by (cases w) auto
    have "json_escape x @ dquote # r = json_escape y @ dquote # s"
      using w(4) by (simp add: y json_string_def)
    with json_escape_unique [of x y r s] GString w(1) y show "go_equal (GString x :: 'a go_value) w \<and> r = s"
      by (simp add: go_equal.leaf)
  qed
next
  case (GInt i)
  show ?case
    unfolding readable_def
  proof (intro allI impI)
    fix w :: "'a go_value" and r s assume w: "plain w" "ends r" "ends s" "text_of (GInt i :: 'a go_value) @ r = text_of w @ s"
    from same_tag [OF _ w(1,4)] obtain j where j: "w = GInt j" by (cases w) auto
    with fmt_int_unique [OF w(2,3), of i j] w(4) show "go_equal (GInt i :: 'a go_value) w \<and> r = s"
      by (simp add: go_equal.leaf)
  qed
next
  case (GBool b)
  show ?case
    unfolding readable_def
  proof (intro allI impI)
    fix w :: "'a go_value" and r s assume w: "plain w" "ends r" "ends s" "text_of (GBool b :: 'a go_value) @ r = text_of w @ s"
    from same_tag [OF _ w(1,4)] obtain c where c: "w = GBool c" by (cases w) auto
    with bool_text_unique [of b r c s] w(4) show "go_equal (GBool b :: 'a go_value) w \<and> r = s"
      by (simp add: go_equal.leaf)
  qed
next
  case GNil
  show ?case
    unfolding readable_def
  proof (intro allI impI)
    fix w :: "'a go_value" and r s assume w: "plain w" "ends r" "ends s" "text_of (GNil :: 'a go_value) @ r = text_of w @ s"
    from same_tag [OF _ w(1,4)] have "w = GNil" by (cases w) auto
    with w(4) show "go_equal (GNil :: 'a go_value) w \<and> r = s" by (simp add: go_equal.leaf)
  qed
qed simp

text \<open>C31: On plain values (no floats or other leaves, ASCII strings, keys without a double quote)
  the encoding is canonical: it never fails, and two values have the same encoding exactly when
  they are equal.  So two of them with the same payload hash are equal, or SHA-256 collides.\<close>

theorem contract_encode_canonical:
  assumes "plain v" and "plain w"
  shows "\<exists>a b. contract_Encode marshal v = Inr a \<and> contract_Encode marshal w = Inr b \<and>
    (a = b \<longleftrightarrow> go_equal v w) \<and>
    (HashPayload a = HashPayload b \<longrightarrow> go_equal v w \<or> (a \<noteq> b \<and> sha256 a = sha256 b))"
proof -
  have "text_of v = text_of w \<longleftrightarrow> go_equal v w"
  proof
    assume "text_of v = text_of w"
    then have "text_of v @ [] = text_of w @ []" by simp
    then show "go_equal v w"
      using plain_readable [OF assms(1)] assms(2) unfolding readable_def by (metis ends_simps(1))
  next
    assume "go_equal v w"
    from encode_go_equal [OF this, of "\<lambda>x. Inl ()"] encode_plain [OF assms(1), of "\<lambda>x. Inl ()"]
      encode_plain [OF assms(2), of "\<lambda>x. Inl ()"]
    show "text_of v = text_of w" by simp
  qed
  then show ?thesis
    using encode_plain [OF assms(1), of marshal] encode_plain [OF assms(2), of marshal]
    by (auto simp: contract_Encode_def HashPayload_def hex_of_bytes_inj)
qed

theorem contract_encode_canonical_witness:
  "contract_Encode (\<lambda>x :: string. Inl x) (GMap [(''a'', GInt 12)]) \<noteq>
   contract_Encode (\<lambda>x :: string. Inl x) (GMap [(''a'', GSlice [GInt 1, GInt 2])])"
proof -
  let ?v = "GMap [(''a'', GInt 12)] :: string go_value"
  let ?w = "GMap [(''a'', GSlice [GInt 1, GInt 2])] :: string go_value"
  have p: "plain ?v" "plain ?w" by (simp_all add: dquote_def)
  have "\<not> go_equal ?v ?w"
  proof
    assume "go_equal ?v ?w"
    then have "rel_option go_equal (map_of [(''a'', GInt 12 :: string go_value)] ''a'')
        (map_of [(''a'', GSlice [GInt 1, GInt 2])] ''a'')"
    proof (cases rule: go_equal.cases)
      case map
      then show ?thesis by blast
    qed
    then show False by (auto elim: go_equal.cases)
  qed
  with contract_encode_canonical [OF p, of "\<lambda>x. Inl x"] show ?thesis by auto
qed

end
