(* ===== verification/Diff.thy ===== *)
theory Diff
  imports Guard "HOL-Library.AList"
begin

text \<open>
  The execution trace recorder (\<open>pkg/trace/recorder.go\<close>) and the state diff engine
  (\<open>pkg/diff/engine.go\<close>).  A Go map is the list of its entries, one per key, in the order it is
  iterated over.  The values of a state are abstract: \<open>show_v\<close> is the text \<open>%v\<close> prints for one,
  \<open>quote\<close> the text \<open>%q\<close> prints for a key.  The mutexes make each operation one step.
\<close>

section \<open>Traces\<close>

record trace_Entry =
  te_TraceID :: string
  te_Tick :: u64
  te_Event :: string
  te_PrevHash :: string
  te_EventHash :: string
  te_NodeID :: string
  te_Seq :: u64
  te_SchemaID :: string
  te_Payload :: "byte list"

record Trace =
  tc_steps :: "trace_Entry list"
  tc_id :: string
  tc_startTick :: u64

definition trace_New :: "string \<Rightarrow> Trace" where
  "trace_New traceID = \<lparr>tc_steps = [], tc_id = traceID, tc_startTick = 0\<rparr>"

definition trace_Record :: "Trace \<Rightarrow> trace_Entry \<Rightarrow> Trace" where
  "trace_Record t e = t\<lparr>tc_steps := tc_steps t @ [e]\<rparr>"

definition RecordAppend :: "Trace \<Rightarrow> string \<Rightarrow> u64 \<Rightarrow> u64 \<Rightarrow> string \<Rightarrow> string \<Rightarrow> string \<Rightarrow> Trace" where
  "RecordAppend t traceID tick seq prevHash eventHash nodeID =
     trace_Record t \<lparr>te_TraceID = traceID, te_Tick = tick, te_Event = ''append'', te_PrevHash = prevHash,
       te_EventHash = eventHash, te_NodeID = nodeID, te_Seq = seq, te_SchemaID = [], te_Payload = []\<rparr>"

definition trace_Steps :: "Trace \<Rightarrow> trace_Entry list" where
  "trace_Steps t = tc_steps t"

definition trace_Replay :: "Trace \<Rightarrow> trace_Entry list" where
  "trace_Replay t = trace_Steps t"

interpretation trace_log: append_log "\<lambda>t e. Inr (trace_Record t e) :: unit + Trace" trace_Steps
    "\<lambda>e. e" "\<lambda>_. True" "\<lambda>_. True"
  by unfold_locales (auto simp: trace_Record_def trace_Steps_def)

text \<open>The loop over the indexes of \<open>Diff\<close>, after the lengths were compared.\<close>

fun diff_loop :: "trace_Entry list \<Rightarrow> trace_Entry list \<Rightarrow> string" where
  "diff_loop (a # as) (b # bs) =
     (if te_EventHash a \<noteq> te_EventHash b then
        ''DIVERGENCE DETECTED:'' @ newline @ ''trace_id: '' @ te_TraceID a @ newline @
        ''tick: '' @ fmt_u64 (te_Tick a) @ newline @ ''event: '' @ te_Event a @ newline @
        ''nodeA hash: '' @ te_EventHash a @ newline @ ''nodeB hash: '' @ te_EventHash b
      else if te_Seq a \<noteq> te_Seq b then
        ''DIVERGENCE DETECTED:'' @ newline @ ''trace_id: '' @ te_TraceID a @ newline @
        ''tick: '' @ fmt_u64 (te_Tick a) @ newline @
        ''seq mismatch: A='' @ fmt_u64 (te_Seq a) @ '' B='' @ fmt_u64 (te_Seq b)
      else diff_loop as bs)"
| "diff_loop _ _ = []"

definition trace_Diff :: "Trace \<Rightarrow> Trace \<Rightarrow> string" where
  "trace_Diff a b =
     (let stepsA = trace_Steps a; stepsB = trace_Steps b
      in if length stepsA \<noteq> length stepsB then
           ''DIVERGENCE: length mismatch '' @ em_dash @ '' traceA='' @ dec_of_nat (length stepsA) @
           '' traceB='' @ dec_of_nat (length stepsB)
         else diff_loop stepsA stepsB)"

primrec state_loop :: "string \<Rightarrow> (string \<rightharpoonup> u64) \<Rightarrow> (string \<times> u64) list \<Rightarrow> string" where
  "state_loop label b [] = []"
| "state_loop label b (kv # kvs) =
     (case b (fst kv) of
        None \<Rightarrow> ''DIVERGENCE ['' @ label @ '']: key '' @ fst kv @ '' missing in second state''
      | Some vb \<Rightarrow>
          if snd kv \<noteq> vb then
            ''DIVERGENCE ['' @ label @ '']: key '' @ fst kv @ '' value mismatch '' @ fmt_u64 (snd kv) @
            '' vs '' @ fmt_u64 vb
          else state_loop label b kvs)"

definition StateDiff :: "string \<Rightarrow> (string \<times> u64) list \<Rightarrow> (string \<times> u64) list \<Rightarrow> string" where
  "StateDiff label a b =
     (if length a \<noteq> length b then
        ''DIVERGENCE ['' @ label @ '']: state map size mismatch '' @ dec_of_nat (length a) @ '' vs '' @
        dec_of_nat (length b)
      else state_loop label (map_of b) a)"

section \<open>States\<close>

record 'v diff_State =
  st_data :: "(string \<times> 'v) list"
  st_eventSeq :: "u64 list"
  st_hash :: string

definition NewState :: "'v diff_State" where
  "NewState = \<lparr>st_data = [], st_eventSeq = [], st_hash = []\<rparr>"

definition state_Set :: "'v diff_State \<Rightarrow> string \<Rightarrow> 'v \<Rightarrow> 'v diff_State" where
  "state_Set s key val = s\<lparr>st_data := AList.update key val (st_data s)\<rparr>"

definition state_Get :: "'v diff_State \<Rightarrow> string \<Rightarrow> 'v option" where
  "state_Get s key = map_of (st_data s) key"

definition AppendSeq :: "'v diff_State \<Rightarrow> u64 \<Rightarrow> 'v diff_State" where
  "AppendSeq s seq = s\<lparr>st_eventSeq := st_eventSeq s @ [seq]\<rparr>"

definition SetHash :: "'v diff_State \<Rightarrow> string \<Rightarrow> 'v diff_State" where
  "SetHash s h = s\<lparr>st_hash := h\<rparr>"

definition state_Hash :: "'v diff_State \<Rightarrow> string" where
  "state_Hash s = st_hash s"

primrec eseq_loop :: "string \<Rightarrow> u64 list \<Rightarrow> u64 list \<Rightarrow> nat list \<Rightarrow> string option" where
  "eseq_loop label as bs [] = None"
| "eseq_loop label as bs (i # is) =
     (if as ! i \<noteq> bs ! i then
        Some (''DIVERGENCE ['' @ label @ '']: seq['' @ dec_of_nat i @ ''] mismatch A='' @
              fmt_u64 (as ! i) @ '' B='' @ fmt_u64 (bs ! i))
      else eseq_loop label as bs is)"

primrec data_loop :: "('v \<Rightarrow> string) \<Rightarrow> (string \<Rightarrow> string) \<Rightarrow> string \<Rightarrow> (string \<rightharpoonup> 'v) \<Rightarrow>
    (string \<times> 'v) list \<Rightarrow> string" where
  "data_loop show_v quote label b [] = []"
| "data_loop show_v quote label b (kv # kvs) =
     (case b (fst kv) of
        None \<Rightarrow> ''DIVERGENCE ['' @ label @ '']: key '' @ quote (fst kv) @ '' missing in second state''
      | Some vb \<Rightarrow>
          if show_v (snd kv) \<noteq> show_v vb then
            ''DIVERGENCE ['' @ label @ '']: key '' @ quote (fst kv) @ '' value mismatch '' @
            show_v (snd kv) @ '' vs '' @ show_v vb
          else data_loop show_v quote label b kvs)"

definition diff_Compare :: "('v \<Rightarrow> string) \<Rightarrow> (string \<Rightarrow> string) \<Rightarrow> string \<Rightarrow> 'v diff_State \<Rightarrow>
    'v diff_State \<Rightarrow> string" where
  "diff_Compare show_v quote label a b =
     (if state_Hash a \<noteq> [] \<and> state_Hash b \<noteq> [] \<and> state_Hash a \<noteq> state_Hash b then
        ''DIVERGENCE ['' @ label @ '']: hash mismatch'' @ newline @ ''  nodeA hash: '' @ state_Hash a @
        newline @ ''  nodeB hash: '' @ state_Hash b
      else if length (st_eventSeq a) \<noteq> length (st_eventSeq b) then
        ''DIVERGENCE ['' @ label @ '']: seq length mismatch A='' @ dec_of_nat (length (st_eventSeq a)) @
        '' B='' @ dec_of_nat (length (st_eventSeq b))
      else case eseq_loop label (st_eventSeq a) (st_eventSeq b) [0..<length (st_eventSeq a)] of
             Some d \<Rightarrow> d
           | None \<Rightarrow>
               if length (st_data a) \<noteq> length (st_data b) then
                 ''DIVERGENCE ['' @ label @ '']: data map size mismatch A='' @
                 dec_of_nat (length (st_data a)) @ '' B='' @ dec_of_nat (length (st_data b))
               else data_loop show_v quote label (map_of (st_data b)) (st_data a))"

record DivergenceReport =
  dr_Label :: string
  dr_HasDivergence :: bool
  dr_Details :: string
  dr_Tick :: u64
  dr_TraceID :: string

definition NewReport :: "string \<Rightarrow> u64 \<Rightarrow> string \<Rightarrow> DivergenceReport" where
  "NewReport label tick traceID =
     \<lparr>dr_Label = label, dr_HasDivergence = False, dr_Details = [], dr_Tick = tick, dr_TraceID = traceID\<rparr>"

definition SetDivergence :: "DivergenceReport \<Rightarrow> string \<Rightarrow> DivergenceReport" where
  "SetDivergence r details = r\<lparr>dr_HasDivergence := True, dr_Details := details\<rparr>"

definition report_String :: "DivergenceReport \<Rightarrow> string" where
  "report_String r =
     (if \<not> dr_HasDivergence r then
        ''['' @ dr_Label r @ ''] OK '' @ em_dash @ '' no divergence (tick='' @ fmt_u64 (dr_Tick r) @
        '' traceID='' @ dr_TraceID r @ '')''
      else ''DIVERGENCE ['' @ dr_Label r @ '']: '' @ dr_Details r @ '' (tick='' @ fmt_u64 (dr_Tick r) @
        '' traceID='' @ dr_TraceID r @ '')'')"

primrec GlobalDiff :: "('v \<Rightarrow> string) \<Rightarrow> (string \<Rightarrow> string) \<Rightarrow>
    (string \<times> 'v diff_State \<times> 'v diff_State) list \<Rightarrow> DivergenceReport" where
  "GlobalDiff show_v quote [] = NewReport [] 0 []"
| "GlobalDiff show_v quote (p # ps) =
     (let d = diff_Compare show_v quote (fst p) (fst (snd p)) (snd (snd p))
      in if d \<noteq> [] then
           \<lparr>dr_Label = fst p, dr_HasDivergence = True, dr_Details = d, dr_Tick = 0, dr_TraceID = []\<rparr>
         else GlobalDiff show_v quote ps)"

section \<open>What an empty diff means\<close>

lemma diff_loop_Nil:
  "length as = length bs \<Longrightarrow> diff_loop as bs = [] \<longleftrightarrow>
     map (\<lambda>e. (te_EventHash e, te_Seq e)) as = map (\<lambda>e. (te_EventHash e, te_Seq e)) bs"
  by (induction as bs rule: list_induct2) auto

lemma eseq_loop_None:
  "eseq_loop label xs ys is = None \<longleftrightarrow> (\<forall>i \<in> set is. xs ! i = ys ! i)"
proof (induction "is")
  case (Cons i js)
  then show ?case by (cases "xs ! i = ys ! i") simp_all
qed simp

lemma eseq_loop_all:
  "length xs = length ys \<and> eseq_loop label xs ys [0..<length xs] = None \<longleftrightarrow> xs = ys"
proof
  assume h: "length xs = length ys \<and> eseq_loop label xs ys [0..<length xs] = None"
  then have "\<forall>i \<in> set [0..<length xs]. xs ! i = ys ! i" unfolding eseq_loop_None by blast
  then show "xs = ys" using h by (intro nth_equalityI) (simp_all del: upt.simps)
next
  assume "xs = ys"
  then show "length xs = length ys \<and> eseq_loop label xs ys [0..<length xs] = None"
    by (simp only: eseq_loop_None) simp
qed

lemma eseq_loop_text: "eseq_loop label xs ys is \<noteq> Some []"
  by (induction "is") auto

lemma diff_Compare_Nil:
  "diff_Compare show_v quote label a b = [] \<longleftrightarrow>
     (st_hash a = [] \<or> st_hash b = [] \<or> st_hash a = st_hash b) \<and>
     length (st_eventSeq a) = length (st_eventSeq b) \<and>
     eseq_loop label (st_eventSeq a) (st_eventSeq b) [0..<length (st_eventSeq a)] = None \<and>
     length (st_data a) = length (st_data b) \<and>
     data_loop show_v quote label (map_of (st_data b)) (st_data a) = []"
  using eseq_loop_text [of label "st_eventSeq a" "st_eventSeq b" "[0..<length (st_eventSeq a)]"]
  unfolding diff_Compare_def state_Hash_def
  by (cases "eseq_loop label (st_eventSeq a) (st_eventSeq b) [0..<length (st_eventSeq a)]") auto

text \<open>Two maps of the same size agree as soon as the entries of one are found in the other.\<close>

lemma same_size_same_keys:
  assumes "distinct (map fst a)" "distinct (map fst b)" "length a = length b"
    and "fst ` set a \<subseteq> fst ` set b"
  shows "fst ` set a = fst ` set b"
proof (rule card_subset_eq [OF _ assms(4)])
  show "card (fst ` set a) = card (fst ` set b)"
    using assms(1-3) by (metis distinct_card length_map set_map)
qed simp

lemma data_loop_Nil:
  "data_loop show_v quote label m kvs = [] \<longleftrightarrow>
     (\<forall>(k, v) \<in> set kvs. \<exists>w. m k = Some w \<and> show_v v = show_v w)"
  by (induction kvs) (auto split: option.splits)

lemma state_loop_data: "state_loop label b kvs = [] \<longleftrightarrow> (\<forall>(k, v) \<in> set kvs. b k = Some v)"
  by (induction kvs) (auto split: option.splits)

lemma entries_agree:
  assumes "distinct (map fst a)" "distinct (map fst b)"
  shows "length a = length b \<and> (\<forall>(k, v) \<in> set a. \<exists>w. map_of b k = Some w \<and> f v = f w) \<longleftrightarrow>
    map_option f \<circ> map_of a = map_option f \<circ> map_of b"
proof
  assume h: "length a = length b \<and> (\<forall>(k, v) \<in> set a. \<exists>w. map_of b k = Some w \<and> f v = f w)"
  then have "fst ` set a \<subseteq> fst ` set b" by (force dest: map_of_SomeD)
  then have keys: "fst ` set a = fst ` set b" using same_size_same_keys [OF assms] h by blast
  show "map_option f \<circ> map_of a = map_option f \<circ> map_of b"
  proof
    fix k
    show "(map_option f \<circ> map_of a) k = (map_option f \<circ> map_of b) k"
    proof (cases "map_of a k")
      case None
      then have "map_of b k = None" using keys by (simp add: map_of_eq_None_iff)
      with None show ?thesis by simp
    next
      case (Some v)
      then have "(k, v) \<in> set a" by (rule map_of_SomeD)
      with h Some show ?thesis by force
    qed
  qed
next
  assume eq: "map_option f \<circ> map_of a = map_option f \<circ> map_of b"
  have at: "map_option f (map_of a k) = map_option f (map_of b k)" for k
    using fun_cong [OF eq, of k] by simp
  have "fst ` set a = fst ` set b"
    using at by (simp add: set_eq_iff) (metis map_of_eq_None_iff option.map_disc_iff)
  then have "length a = length b" using assms by (metis distinct_card length_map set_map)
  moreover have "\<exists>w. map_of b k = Some w \<and> f v = f w" if "(k, v) \<in> set a" for k v
    using at [of k] that assms(1) by (cases "map_of b k") (auto simp: map_of_is_SomeI)
  ultimately show "length a = length b \<and> (\<forall>(k, v) \<in> set a. \<exists>w. map_of b k = Some w \<and> f v = f w)"
    by blast
qed

text \<open>\<open>GlobalDiff\<close> reports a divergence exactly when some pair diverges, whatever the order of the
  pairs.\<close>

lemma GlobalDiff_iff:
  "dr_HasDivergence (GlobalDiff show_v quote ps) \<longleftrightarrow>
     (\<exists>(label, a, b) \<in> set ps. diff_Compare show_v quote label a b \<noteq> [])"
  by (induction ps) (auto simp: NewReport_def Let_def)

text \<open>C33: What an empty diff means.  \<open>StateDiff\<close> is empty exactly for equal maps.  The trace diff
  is empty exactly when the traces agree on the hash and the sequence number of every step.
  \<open>Compare\<close> is empty exactly when the two event sequences are equal, the data maps hold values
  that print alike under the same keys, and the hashes are equal or one of them is missing.
  \<open>GlobalDiff\<close> reports a divergence exactly when \<open>Compare\<close> is not empty for one of its pairs.\<close>

theorem empty_diff_means:
  assumes "distinct (map fst (st_data a))" "distinct (map fst (st_data b))"
    and "distinct (map fst m)" "distinct (map fst n)"
  shows "(StateDiff label m n = [] \<longleftrightarrow> map_of m = map_of n) \<and>
    (trace_Diff t u = [] \<longleftrightarrow>
       map (\<lambda>e. (te_EventHash e, te_Seq e)) (trace_Steps t) = map (\<lambda>e. (te_EventHash e, te_Seq e)) (trace_Steps u)) \<and>
    (diff_Compare show_v quote label a b = [] \<longleftrightarrow>
       st_eventSeq a = st_eventSeq b \<and>
       map_option show_v \<circ> map_of (st_data a) = map_option show_v \<circ> map_of (st_data b) \<and>
       (st_hash a = [] \<or> st_hash b = [] \<or> st_hash a = st_hash b)) \<and>
    (dr_HasDivergence (GlobalDiff show_v quote ps) \<longleftrightarrow>
       (\<exists>(label, a, b) \<in> set ps. diff_Compare show_v quote label a b \<noteq> []))"
proof (intro conjI)
  show "dr_HasDivergence (GlobalDiff show_v quote ps) \<longleftrightarrow>
       (\<exists>(label, a, b) \<in> set ps. diff_Compare show_v quote label a b \<noteq> [])"
    by (rule GlobalDiff_iff)
next
  show "StateDiff label m n = [] \<longleftrightarrow> map_of m = map_of n"
    using entries_agree [OF assms(3,4), of "\<lambda>v. v"]
    by (simp add: StateDiff_def state_loop_data option.map_ident comp_def) (metis (no_types, lifting) case_prod_conv)
  show "trace_Diff t u = [] \<longleftrightarrow>
      map (\<lambda>e. (te_EventHash e, te_Seq e)) (trace_Steps t) = map (\<lambda>e. (te_EventHash e, te_Seq e)) (trace_Steps u)"
    using diff_loop_Nil [of "trace_Steps t" "trace_Steps u"]
    by (auto simp: trace_Diff_def Let_def dest: map_eq_imp_length_eq)
  show "diff_Compare show_v quote label a b = [] \<longleftrightarrow>
       st_eventSeq a = st_eventSeq b \<and>
       map_option show_v \<circ> map_of (st_data a) = map_option show_v \<circ> map_of (st_data b) \<and>
       (st_hash a = [] \<or> st_hash b = [] \<or> st_hash a = st_hash b)"
    unfolding diff_Compare_Nil data_loop_Nil
    unfolding entries_agree [OF assms(1,2), of show_v, symmetric]
    using eseq_loop_all [of "st_eventSeq a" "st_eventSeq b" label]
    by blast
qed

theorem empty_diff_witness:
  "let a = SetHash (state_Set NewState ''k'' (1 :: nat)) ''h'';
       b = state_Set NewState ''k'' (1 :: nat)
   in diff_Compare dec_of_nat (\<lambda>s. s) ''l'' a b = [] \<and> StateDiff ''l'' [(''x'', 1)] [(''x'', 2)] \<noteq> []"
proof -
  let ?a = "SetHash (state_Set NewState ''k'' (1 :: nat)) ''h''"
  let ?b = "state_Set NewState ''k'' (1 :: nat)"
  have d: "distinct (map fst (st_data ?a))" "distinct (map fst (st_data ?b))"
    "distinct (map fst [(''x'', 1 :: u64)])" "distinct (map fst [(''x'', 2 :: u64)])"
    by (simp_all add: SetHash_def state_Set_def NewState_def)
  from empty_diff_means [OF d, of "''l''" "trace_New []" "trace_New []" dec_of_nat "\<lambda>s. s"]
  show ?thesis by (simp add: SetHash_def state_Set_def NewState_def fun_eq_iff exI [of _ "''x''"])
qed

end
