(* ===== verification/Json.thy ===== *)
theory Json
  imports Contract
begin

text \<open>
  What \<open>json.MarshalIndent\<close> with two blanks of indentation writes for the values the program
  prints: arrays, objects, booleans and byte slices.  An array or object is given by the texts of
  its elements; \<open>n\<close> is the depth it is printed at.
\<close>

fun join_with :: "string \<Rightarrow> string list \<Rightarrow> string" where
  "join_with sep [] = []"
| "join_with sep [x] = x"
| "join_with sep (x # y # xs) = x @ sep @ join_with sep (y # xs)"

lemma join_with_snoc: "xs \<noteq> [] \<Longrightarrow> join_with sep (xs @ [x]) = join_with sep xs @ sep @ x"
proof (induction xs)
  case (Cons y ys)
  then show ?case by (cases ys) simp_all
qed simp

definition indent :: "nat \<Rightarrow> string" where
  "indent n = newline @ replicate (2 * n) (CHR '' '')"

definition json_array :: "nat \<Rightarrow> string list \<Rightarrow> string" where
  "json_array n xs =
     (if xs = [] then ''[]''
      else ''['' @ join_with '','' (map (\<lambda>x. indent (n + 1) @ x) xs) @ indent n @ '']'')"

definition json_object :: "nat \<Rightarrow> (string \<times> string) list \<Rightarrow> string" where
  "json_object n kvs =
     ''{'' @ join_with '','' (map (\<lambda>(k, v). indent (n + 1) @ json_string k @ '': '' @ v) kvs) @ indent n @ ''}''"

definition json_bool :: "bool \<Rightarrow> string" where
  "json_bool b = (if b then ''true'' else ''false'')"

text \<open>A byte slice is printed in base 64.\<close>

definition b64_char :: "nat \<Rightarrow> char" where
  "b64_char d =
     (''ABCDEFGHIJKLMNOPQRSTUVWXYZabcdefghijklmnopqrstuvwxyz0123456789+/'') ! d"

fun base64 :: "byte list \<Rightarrow> string" where
  "base64 [] = []"
| "base64 [a] =
     (let v = unat a * 16 in [b64_char (v div 64), b64_char (v mod 64), CHR ''='', CHR ''=''])"
| "base64 [a, b] =
     (let v = (unat a * 256 + unat b) * 4
      in [b64_char (v div 4096), b64_char (v div 64 mod 64), b64_char (v mod 64), CHR ''=''])"
| "base64 (a # b # c # r) =
     (let v = (unat a * 256 + unat b) * 256 + unat c
      in [b64_char (v div 262144), b64_char (v div 4096 mod 64), b64_char (v div 64 mod 64),
          b64_char (v mod 64)] @ base64 r)"

lemma base64_examples:
  "base64 [0x4D, 0x61, 0x6E] = ''TWFu''"
  "base64 [0x4D, 0x61] = ''TWE=''"
  "base64 [0xFB, 0xFF, 0xBF, 0xFF] = ''+/+//w==''"
  by (simp_all add: b64_char_def)

lemma length_base64: "length (base64 bs) = 4 * ((length bs + 2) div 3)"
proof (induction bs rule: base64.induct)
  case (4 a b c r)
  then show ?case by (simp add: Let_def) presburger
qed (simp_all add: Let_def)

end
