(* ===== verification/TraceJson.thy ===== *)
theory TraceJson
  imports Diff Json
begin

text \<open>
  The JSON form of a recorded trace (\<open>JSON\<close> of \<open>pkg/trace/recorder.go\<close>).  Fields marked
  \<open>omitempty\<close> are left out when they are empty or zero.
\<close>

definition string_field :: "string \<Rightarrow> string \<Rightarrow> (string \<times> string) list" where
  "string_field k v = (if v = [] then [] else [(k, json_string v)])"

definition entry_fields :: "trace_Entry \<Rightarrow> (string \<times> string) list" where
  "entry_fields e =
     [(''trace_id'', json_string (te_TraceID e)), (''tick'', fmt_u64 (te_Tick e)),
      (''event'', json_string (te_Event e))] @
     string_field ''prev_hash'' (te_PrevHash e) @
     string_field ''event_hash'' (te_EventHash e) @
     string_field ''node'' (te_NodeID e) @
     (if te_Seq e = 0 then [] else [(''seq'', fmt_u64 (te_Seq e))]) @
     string_field ''schema_id'' (te_SchemaID e) @
     (if te_Payload e = [] then [] else [(''payload'', [dquote] @ base64 (te_Payload e) @ [dquote])])"

definition trace_JSON :: "Trace \<Rightarrow> string" where
  "trace_JSON t = json_array 0 (map (\<lambda>e. json_object 1 (entry_fields e)) (tc_steps t))"

lemma trace_JSON_empty: "trace_JSON (trace_New i) = ''[]''"
  by (simp add: trace_JSON_def trace_New_def json_array_def)

lemma trace_JSON_example:
  "trace_JSON (RecordAppend (trace_New ''t'') ''t'' 3 0 [] ''h'' ''n'') =
   ''['' @ newline @ ''  {'' @
   newline @ ''    '' @ [dquote] @ ''trace_id'' @ [dquote] @ '': '' @ [dquote] @ ''t'' @ [dquote] @ '','' @
   newline @ ''    '' @ [dquote] @ ''tick'' @ [dquote] @ '': 3,'' @
   newline @ ''    '' @ [dquote] @ ''event'' @ [dquote] @ '': '' @ [dquote] @ ''append'' @ [dquote] @ '','' @
   newline @ ''    '' @ [dquote] @ ''event_hash'' @ [dquote] @ '': '' @ [dquote] @ ''h'' @ [dquote] @ '','' @
   newline @ ''    '' @ [dquote] @ ''node'' @ [dquote] @ '': '' @ [dquote] @ ''n'' @ [dquote] @
   newline @ ''  }'' @ newline @ '']''"
  by code_simp

end
