(* ===== verification/Formal.thy ===== *)
theory Formal
  imports Prelude
begin

text \<open>
  The TLA+ generator (\<open>pkg/formal/spec.go\<close>) with its four built-in specifications.  The
  generator's only state is its text buffer.
\<close>

section \<open>Specifications as data\<close>

record VarDecl =
  vd_Name :: string
  vd_Type :: string
  vd_Comment :: string

record formal_Action =
  ac_Name :: string
  ac_Body :: string

record Invariant =
  in_Name :: string
  in_Body :: string

record RuntimeSpec =
  sp_Name :: string
  sp_Variables :: "VarDecl list"
  sp_Init :: string
  sp_Actions :: "formal_Action list"
  sp_Invariants :: "Invariant list"

text \<open>Isabelle's string literals hold no backslash, line break or double quote; in the texts below
  a tilde, a caret and a percent sign, which the specifications do not use, stand for them.\<close>

definition tla_char :: "char \<Rightarrow> char" where
  "tla_char c =
     (if c = CHR ''~'' then backslash else if c = CHR ''^'' then CHR 0x0A
      else if c = CHR ''%'' then dquote else c)"

definition tla :: "string \<Rightarrow> string" where
  "tla s = map tla_char s"

section \<open>The generator\<close>

record Generator =
  gen_buf :: string

definition formal_New :: Generator where
  "formal_New = \<lparr>gen_buf = []\<rparr>"

text \<open>\<open>writeLine\<close> after its arguments are filled in.\<close>

definition writeLine :: "string \<Rightarrow> Generator \<Rightarrow> Generator" where
  "writeLine line g = g\<lparr>gen_buf := gen_buf g @ line @ newline\<rparr>"

fun split_lines :: "string \<Rightarrow> string \<Rightarrow> string list" where
  "split_lines cur [] = [cur]"
| "split_lines cur (c # cs) =
     (if c = CHR 0x0A then cur # split_lines [] cs else split_lines (cur @ [c]) cs)"

fun joinVars :: "VarDecl list \<Rightarrow> string" where
  "joinVars [] = []"
| "joinVars [v] = vd_Name v"
| "joinVars (v # w # vs) = vd_Name v @ '', '' @ joinVars (w # vs)"

definition writeVars :: "VarDecl list \<Rightarrow> Generator \<Rightarrow> Generator" where
  "writeVars vars g =
     fold (\<lambda>v g. if vd_Type v = ''function'' then writeLine (''* '' @ vd_Name v @ '': '' @ vd_Comment v) g
                 else g)
       vars (writeLine (''VARIABLES '' @ joinVars vars) g)"

text \<open>The loop over the lines of a body: the first gets a conjunction sign.\<close>

primrec body_lines :: "nat \<Rightarrow> string list \<Rightarrow> Generator \<Rightarrow> Generator" where
  "body_lines i [] g = g"
| "body_lines i (l # ls) g =
     body_lines (i + 1) ls (writeLine (if i = 0 then tla ''    /~ '' @ l else ''    '' @ l) g)"

definition writeAction :: "formal_Action \<Rightarrow> Generator \<Rightarrow> Generator" where
  "writeAction a g = body_lines 0 (split_lines [] (ac_Body a)) (writeLine (ac_Name a @ '' ==='') (writeLine [] g))"

definition writeInvariant :: "Invariant \<Rightarrow> Generator \<Rightarrow> Generator" where
  "writeInvariant iv g = body_lines 0 (split_lines [] (in_Body iv)) (writeLine (in_Name iv @ '' =='') g)"

definition rule30 :: string where
  "rule30 = replicate 30 (CHR ''-'')"

definition Generate :: "RuntimeSpec \<Rightarrow> Generator \<Rightarrow> string \<times> Generator" where
  "Generate spec g =
     (let g0 = g\<lparr>gen_buf := []\<rparr>;
          g1 = writeLine (rule30 @ '' MODULE '' @ sp_Name spec @ '' '' @ rule30) g0;
          g2 = writeLine [] (writeLine ''EXTENDS Integers, Sequences, FiniteSets'' (writeLine [] g1));
          g3 = writeLine [] (writeVars (sp_Variables spec) g2);
          g4 = writeLine (tla ''    /~ '' @ sp_Init spec) (writeLine ''Init =='' g3);
          g5 = writeLine ''* Transition actions'' (writeLine [] g4);
          g6 = fold writeAction (sp_Actions spec) g5;
          g7 = writeLine ''* Temporal formula'' (writeLine [] g6);
          g8 = writeLine [] (writeLine (tla ''Next == ~E e : Append(e)'') g7);
          g9 = writeLine ''* ATOM invariants'' g8;
          g10 = fold writeInvariant (sp_Invariants spec) g9;
          g11 = writeLine (replicate 77 (CHR ''='')) (writeLine [] g10)
      in (gen_buf g11, g11))"

section \<open>The built-in specifications\<close>

definition BuildEventStoreSpec :: RuntimeSpec where
  "BuildEventStoreSpec =
   \<lparr>sp_Name = ''EventStore'',
    sp_Variables =
     [\<lparr>vd_Name = ''log'', vd_Type = ''sequence'', vd_Comment = ''ordered append-only log of events''\<rparr>,
      \<lparr>vd_Name = ''seq'', vd_Type = ''function'', vd_Comment = ''seq[t in TraceID] = last seq number for trace t''\<rparr>,
      \<lparr>vd_Name = ''hash'', vd_Type = ''function'', vd_Comment = ''hash[t in TraceID] = last event hash for trace t''\<rparr>,
      \<lparr>vd_Name = ''clock'', vd_Type = ''scalar'', vd_Comment = ''LogicalClock tick''\<rparr>],
    sp_Init =
      tla (''log = << >>^         /~ seq = [t ~in TraceID |-> 0]^         /~ hash = [t ~in '' @
      ''TraceID |-> %%]^         /~ clock = 0''),
    sp_Actions =
     [\<lparr>ac_Name = ''Append'', ac_Body =
      tla (''/~^  LET e == Head(filter) IN^  /~^  seq[e.trace] + 1 = e.seq /~^  e.prevHash = '' @
      ''hash[e.trace] /~^  log' = Append(log, e) /~^  seq' = [seq EXCEPT ![e.trace] = '' @
      ''e.seq] /~^  hash' = [hash EXCEPT ![e.trace] = e.eventHash]'')\<rparr>],
    sp_Invariants =
     [\<lparr>in_Name = ''INV1'', in_Body =
      tla (''~A i ~in 1..Len(log): log[i].seq = i /~ log[i].prevHash = (IF i > 1 THEN '' @
      ''log[i-1].eventHash ELSE %%)'')\<rparr>,
      \<lparr>in_Name = ''INV2'', in_Body =
      tla ''~A t ~in TraceID: seq[t] = Cardinality({i ~in 1..Len(log) : log[i].trace = t})''\<rparr>,
      \<lparr>in_Name = ''INV3'', in_Body =
      tla (''~A t ~in TraceID: hash[t] = (IF seq[t] > 0 THEN log[LastIndex(log, t)].eventHash '' @
      ''ELSE %%)'')\<rparr>,
      \<lparr>in_Name = ''INV4'', in_Body =
      tla ''~A i ~in 1..Len(log)-1: log[i].eventHash = log[i+1].prevHash''\<rparr>,
      \<lparr>in_Name = ''INV5'', in_Body =
      tla ''~A i,j ~in 1..Len(log): i # j => log[i] # log[j]''\<rparr>]\<rparr>"

definition BuildSnapshotSpec :: RuntimeSpec where
  "BuildSnapshotSpec =
   \<lparr>sp_Name = ''Snapshot'',
    sp_Variables =
     [\<lparr>vd_Name = ''snap'', vd_Type = ''function'', vd_Comment = ''snap[traceID] = lastSeq for that trace''\<rparr>,
      \<lparr>vd_Name = ''log'', vd_Type = ''sequence'', vd_Comment = ''reference log for equivalence proof''\<rparr>],
    sp_Init =
      tla ''snap = [t ~~in TraceID |-> 0] /~~ log = << >>'',
    sp_Actions =
     [\<lparr>ac_Name = ''Create'', ac_Body =
      tla ''snap' = [t ~~in TraceID |-> seq[t]]''\<rparr>,
      \<lparr>ac_Name = ''FastReplay'', ac_Body =
      tla (''snap' = [t ~~in TraceID |-> IF Cardinality({i ~~in DOMAIN log: log[i].trace = t}) > '' @
      ''0 THEN LastSeq(log, t) ELSE snap[t]]'')\<rparr>],
    sp_Invariants =
     [\<lparr>in_Name = ''INV_SnapEquiv'', in_Body =
      ''Replay(Snapshot(log)) = Replay(log)''\<rparr>]\<rparr>"

definition BuildByzantineSpec :: RuntimeSpec where
  "BuildByzantineSpec =
   \<lparr>sp_Name = ''Byzantine'',
    sp_Variables =
     [\<lparr>vd_Name = ''nodes'', vd_Type = ''function'', vd_Comment = ''nodes[n] = event sequence for node n''\<rparr>,
      \<lparr>vd_Name = ''delivered'', vd_Type = ''function'', vd_Comment = ''delivered[n] = whether node n received last broadcast''\<rparr>],
    sp_Init =
      tla ''nodes = [n ~in NodeID |-> << >>] /~ delivered = [n ~in NodeID |-> FALSE]'',
    sp_Actions =
     [\<lparr>ac_Name = ''Broadcast'', ac_Body =
      tla (''/~ ~E subset ~in SUBSET NodeID ~setminus {}:^     /~ LET dropped == NodeID '' @
      ''~setminus subset IN^     /~ ~A n ~in dropped: Delivered(n) = FALSE^     /~ ~A n ~in '' @
      ''subset: nodes' = [nodes EXCEPT ![n] = Append(nodes[n], e)]^     /~ delivered' = [n '' @
      ''~in NodeID |-> n ~in subset]'')\<rparr>],
    sp_Invariants =
     [\<lparr>in_Name = ''INV_Convergence'', in_Body =
      tla (''~A i,j ~in NodeID: Len(nodes[i]) = Len(nodes[j]) =>^                         ~A k '' @
      ''~in 1..Len(nodes[i]): nodes[i][k] = nodes[j][k]'')\<rparr>,
      \<lparr>in_Name = ''INV_NoDivergence'', in_Body =
      tla ''Consistency(nodes) <=> ~A n ~in NodeID: nodes[n] ~in ValidSequences''\<rparr>]\<rparr>"

definition BuildConsensusSpec :: RuntimeSpec where
  "BuildConsensusSpec =
   \<lparr>sp_Name = ''Consensus'',
    sp_Variables =
     [\<lparr>vd_Name = ''state'', vd_Type = ''function'', vd_Comment = ''state[n] = node state (follower/candidate/leader)''\<rparr>,
      \<lparr>vd_Name = ''term'', vd_Type = ''function'', vd_Comment = ''term[n] = current term for node n''\<rparr>,
      \<lparr>vd_Name = ''log'', vd_Type = ''function'', vd_Comment = ''log[n] = log for node n''\<rparr>,
      \<lparr>vd_Name = ''voted'', vd_Type = ''function'', vd_Comment = ''voted[n] = node voted for in current term''\<rparr>,
      \<lparr>vd_Name = ''quorum'', vd_Type = ''function'', vd_Comment = ''quorum tick achieved''\<rparr>],
    sp_Init =
      tla (''state = [n ~in NodeID |-> follower]^                /~ term = [n ~in NodeID |-> 0]^ '' @
      ''               /~ log = [n ~in NodeID |-> << >>]^                /~ voted = [n ~in '' @
      ''NodeID |-> Nil]^                /~ quorum = 0''),
    sp_Actions =
     [\<lparr>ac_Name = ''MonotonicTerm'', ac_Body =
      tla (''/~ ~A n ~in NodeID: term'[n] >= term[n]^                       /~ ~A n ~in NodeID: '' @
      ''term'[n] = term[n] ~/ term'[n] = term[n] + 1'')\<rparr>,
      \<lparr>ac_Name = ''AppendEntries'', ac_Body =
      tla (''/~ state[leader] = leader^                       /~ term[leader] >= term[n]^        '' @
      ''               /~ log' = [log EXCEPT ![n] = Append(log[n], e)]^                     '' @
      ''  /~ seq'[n] = seq[n] + 1'')\<rparr>,
      \<lparr>ac_Name = ''GEBCommit'', ac_Body =
      tla (''/~ quorum >= GEB_THRESHOLD^                       /~ ~A n ~in Quorum: state[n] = '' @
      ''leader^                       /~ Commit(entry)'')\<rparr>],
    sp_Invariants =
     [\<lparr>in_Name = ''INV_Consistency'', in_Body =
      tla ''~A n,m ~in NodeID: term[n] = term[m] => log[n] = log[m]''\<rparr>,
      \<lparr>in_Name = ''INV_NoSplitBrain'', in_Body =
      tla ''Cardinality({n ~in NodeID: state[n] = leader}) <= 1''\<rparr>,
      \<lparr>in_Name = ''INV_QuorumCommit'', in_Body =
      tla ''~A entry ~in Committed: Cardinality({n ~in NodeID: entry ~in log[n]}) > N/2''\<rparr>]\<rparr>"

section \<open>What the generator writes\<close>

text \<open>The lines of a body, and what each part adds to the buffer.\<close>

definition body_text :: "string \<Rightarrow> string" where
  "body_text body = concat (case split_lines [] body of [] \<Rightarrow> []
     | l # ls \<Rightarrow> (tla ''    /~ '' @ l @ newline) # map (\<lambda>l. ''    '' @ l @ newline) ls)"

lemma buf_writeLine [simp]: "gen_buf (writeLine l g) = gen_buf g @ l @ newline"
  by (simp add: writeLine_def)

lemma body_lines_rest:
  "0 < i \<Longrightarrow> gen_buf (body_lines i ls g) = gen_buf g @ concat (map (\<lambda>l. ''    '' @ l @ newline) ls)"
  by (induction ls arbitrary: i g) simp_all

lemma body_lines_text: "gen_buf (body_lines 0 (split_lines [] body) g) = gen_buf g @ body_text body"
  by (cases "split_lines [] body") (simp_all add: body_text_def body_lines_rest)

definition action_text :: "formal_Action \<Rightarrow> string" where
  "action_text a = newline @ ac_Name a @ '' ==='' @ newline @ body_text (ac_Body a)"

definition invariant_text :: "Invariant \<Rightarrow> string" where
  "invariant_text iv = in_Name iv @ '' =='' @ newline @ body_text (in_Body iv)"

lemma fold_buf:
  assumes "\<And>x g. gen_buf (f x g) = gen_buf g @ h x"
  shows "gen_buf (fold f xs g) = gen_buf g @ concat (map h xs)"
  by (induction xs arbitrary: g) (simp_all add: assms)

lemma buf_actions: "gen_buf (fold writeAction as g) = gen_buf g @ concat (map action_text as)"
  by (rule fold_buf) (simp add: writeAction_def body_lines_text action_text_def)

lemma buf_invariants: "gen_buf (fold writeInvariant is g) = gen_buf g @ concat (map invariant_text is)"
  by (rule fold_buf) (simp add: writeInvariant_def body_lines_text invariant_text_def)

text \<open>Whatever was generated before, the module text is a header, the actions, the one fixed
  \<open>Next\<close> line and the invariants, in the order of the specification.\<close>

lemma Generate_layout:
  "\<exists>header. fst (Generate spec g) = header @ concat (map action_text (sp_Actions spec)) @ newline @
     ''* Temporal formula'' @ newline @ tla ''Next == ~E e : Append(e)'' @ newline @ newline @
     ''* ATOM invariants'' @ newline @ concat (map invariant_text (sp_Invariants spec)) @ newline @
     replicate 77 (CHR ''='') @ newline"
  unfolding Generate_def Let_def by (simp add: buf_actions buf_invariants)

lemma Generate_resets: "fst (Generate spec g) = fst (Generate spec formal_New)"
proof -
  have "g\<lparr>gen_buf := []\<rparr> = formal_New\<lparr>gen_buf := []\<rparr>" by (simp add: formal_New_def)
  then show ?thesis by (simp only: Generate_def)
qed

text \<open>\<open>Next\<close> always names the action \<open>Append\<close>, which only the first of the four specifications
  defines; the snapshot specification writes its operators with two backslashes.\<close>

lemma next_names_undefined_action:
  "''Append'' \<in> set (map ac_Name (sp_Actions BuildEventStoreSpec)) \<and>
   ''Append'' \<notin> set (map ac_Name (sp_Actions BuildSnapshotSpec)) \<and>
   ''Append'' \<notin> set (map ac_Name (sp_Actions BuildByzantineSpec)) \<and>
   ''Append'' \<notin> set (map ac_Name (sp_Actions BuildConsensusSpec))"
  by (simp add: BuildEventStoreSpec_def BuildSnapshotSpec_def BuildByzantineSpec_def BuildConsensusSpec_def)

lemma snapshot_spec_double_backslash:
  "take 11 (drop 8 (sp_Init BuildSnapshotSpec)) = ''t '' @ [backslash, backslash] @ ''in Trac''"
  by (simp add: BuildSnapshotSpec_def tla_def tla_char_def)

end
