(* ===== verification/Float64.thy ===== *)
theory Float64
  imports Complex_Main Prelude "HOL-Library.Log_Nat"
begin

text \<open>
  The part of IEEE 754 double precision that the program's \<open>float64\<close> arithmetic uses: a
  number is its exact rational value (the sign of zero plays no part in the code), rounded to
  53 significant bits, ties to even, after each operation.  Overflow to infinity does not occur
  in the code's computations; the infinities and NaN come in as configured rates.
\<close>

datatype f64 = Finite rat | PosInf | NegInf | NaN

section \<open>Rounding\<close>

text \<open>Round half to even.\<close>

definition round_even :: "rat \<Rightarrow> int" where
  "round_even y =
     (let d = \<lfloor>y\<rfloor>; f = y - of_int d
      in if f < 1 / 2 \<or> (f = 1 / 2 \<and> even d) then d else d + 1)"

text \<open>The smallest double is 2 to the minus \<open>min_exp\<close>.\<close>

definition min_exp :: nat where
  "min_exp = 1074"

text \<open>A value is counted in units of the smallest double; \<open>shift\<close> is how many
  low bits do not fit into 53 bits.\<close>

definition shift :: "rat \<Rightarrow> nat" where
  "shift x = floorlog 2 (nat \<lfloor>x * 2 ^ min_exp\<rfloor>) - 53"

definition round_pos :: "rat \<Rightarrow> rat" where
  "round_pos x = of_int (round_even (x * 2 ^ min_exp / 2 ^ shift x)) * 2 ^ shift x / 2 ^ min_exp"

definition round64 :: "rat \<Rightarrow> rat" where
  "round64 x = (if x < 0 then - round_pos (- x) else round_pos x)"

definition f64_of_nat :: "nat \<Rightarrow> f64" where
  "f64_of_nat n = Finite (round64 (of_nat n))"

definition f64_minus :: "f64 \<Rightarrow> f64 \<Rightarrow> f64" where
  "f64_minus a b = (case (a, b) of (Finite x, Finite y) \<Rightarrow> Finite (round64 (x - y)) | _ \<Rightarrow> NaN)"

definition f64_times :: "f64 \<Rightarrow> f64 \<Rightarrow> f64" where
  "f64_times a b = (case (a, b) of (Finite x, Finite y) \<Rightarrow> Finite (round64 (x * y)) | _ \<Rightarrow> NaN)"

definition f64_divide :: "f64 \<Rightarrow> f64 \<Rightarrow> f64" where
  "f64_divide a b =
     (case (a, b) of (Finite x, Finite y) \<Rightarrow> if y = 0 then NaN else Finite (round64 (x / y)) | _ \<Rightarrow> NaN)"

text \<open>Comparisons with NaN are false.\<close>

fun f64_less :: "f64 \<Rightarrow> f64 \<Rightarrow> bool" where
  "f64_less (Finite x) (Finite y) = (x < y)"
| "f64_less NaN _ = False"
| "f64_less _ NaN = False"
| "f64_less PosInf _ = False"
| "f64_less _ NegInf = False"
| "f64_less _ _ = True"

definition f64_ge :: "f64 \<Rightarrow> f64 \<Rightarrow> bool" where
  "f64_ge a b \<longleftrightarrow> (if a = NaN \<or> b = NaN then False else \<not> f64_less a b)"

text \<open>\<open>int(x)\<close> truncates; only finite values that are not negative occur.\<close>

definition f64_to_nat :: "f64 \<Rightarrow> nat" where
  "f64_to_nat a = (case a of Finite x \<Rightarrow> nat \<lfloor>x\<rfloor> | _ \<Rightarrow> 0)"

text \<open>\<open>math.Float64frombits\<close>.\<close>

definition f64_from_bits :: "u64 \<Rightarrow> f64" where
  "f64_from_bits v =
     (let e = unat v div 2 ^ 52 mod 2 ^ 11; m = unat v mod 2 ^ 52; neg = (2 ^ 63 \<le> unat v);
          x = (if e = 0 then of_nat m / 2 ^ min_exp else of_nat (2 ^ 52 + m) * 2 ^ (e - 1) / 2 ^ min_exp)
      in if e = 2047 then (if m \<noteq> 0 then NaN else if neg then NegInf else PosInf)
         else Finite (if neg then - x else x))"

section \<open>Facts about rounding\<close>

lemma round_even_int [simp]: "round_even (of_int n) = n"
  by (simp add: round_even_def)

lemma round_even_le:
  assumes "y \<le> of_int n"
  shows "round_even y \<le> n"
proof (cases "\<lfloor>y\<rfloor> = n")
  case True
  with assms have "y = of_int n" using of_int_floor_le [of y] by simp
  then show ?thesis by simp
next
  case False
  then have "\<lfloor>y\<rfloor> < n" using floor_mono [OF assms] by simp
  then show ?thesis by (auto simp: round_even_def Let_def)
qed

lemma round_even_nonneg: "0 \<le> y \<Longrightarrow> 0 \<le> round_even y"
  by (auto simp: round_even_def Let_def)

lemma round_pos_nonneg: "0 \<le> x \<Longrightarrow> 0 \<le> round_pos x"
  by (simp add: round_pos_def round_even_nonneg)

text \<open>A value below a power of two has few shifted bits.\<close>

lemma shift_le:
  assumes "x * 2 ^ min_exp < 2 ^ (53 + s)"
  shows "shift x \<le> s"
proof -
  have "\<lfloor>x * 2 ^ min_exp\<rfloor> < 2 ^ (53 + s)"
    using assms by (simp add: floor_less_iff)
  then have "nat \<lfloor>x * 2 ^ min_exp\<rfloor> < 2 ^ (53 + s)"
    by (simp add: nat_less_iff)
  then have "floorlog 2 (nat \<lfloor>x * 2 ^ min_exp\<rfloor>) \<le> 53 + s" by (intro floorlog_leI) simp_all
  then show ?thesis by (simp add: shift_def)
qed

text \<open>Whole multiples of a unit that the rounding keeps are exact.\<close>

lemma round_pos_exact:
  assumes "x * 2 ^ min_exp = of_nat n * 2 ^ s" and "n < 2 ^ 53"
  shows "round_pos x = x"
proof -
  define P :: rat where "P = 2 ^ min_exp"
  define r where "r = shift x"
  have P: "0 < P" by (simp add: P_def)
  have y: "x * P = of_nat n * 2 ^ s" using assms(1) by (simp add: P_def)
  have "of_nat n < (2 :: rat) ^ 53" using assms(2) by (metis of_nat_less_numeral_power_cancel_iff)
  then have "x * 2 ^ min_exp < 2 ^ (53 + s)" unfolding assms(1) power_add by (intro mult_strict_right_mono) simp_all
  then have "r \<le> s" unfolding r_def by (rule shift_le)
  then have p: "(2 :: rat) ^ s = 2 ^ (s - r) * 2 ^ r" by (simp flip: power_add)
  have z: "x * P / 2 ^ r = of_int (int n * 2 ^ (s - r))"
    unfolding y p by simp
  have "round_pos x = of_int (round_even (x * P / 2 ^ r)) * 2 ^ r / P"
    by (simp add: round_pos_def P_def r_def)
  also have "\<dots> = of_int (int n * 2 ^ (s - r)) * 2 ^ r / P" unfolding z round_even_int ..
  also have "\<dots> = of_nat n * (2 ^ (s - r) * 2 ^ r) / P" by simp
  also have "\<dots> = x * P / P" unfolding y p ..
  also have "\<dots> = x" using P by simp
  finally show ?thesis .
qed

lemma round64_frac:
  assumes "n < 2 ^ 53" "k \<le> min_exp"
  shows "round64 (of_nat n / 2 ^ k) = of_nat n / 2 ^ k"
proof -
  have p: "(2 :: rat) ^ min_exp = 2 ^ (min_exp - k) * 2 ^ k"
    using assms(2) by (simp flip: power_add)
  have "of_nat n / (2 :: rat) ^ k * 2 ^ min_exp = of_nat n * 2 ^ (min_exp - k)"
    unfolding p by simp
  from round_pos_exact [OF this assms(1)]
  have "round_pos (of_nat n / 2 ^ k) = of_nat n / (2 :: rat) ^ k" .
  moreover have "\<not> of_nat n / (2 :: rat) ^ k < 0" by (simp add: not_less)
  ultimately show ?thesis unfolding round64_def by presburger
qed

lemma round64_nat: "n < 2 ^ 53 \<Longrightarrow> round64 (of_nat n) = of_nat n"
  using round64_frac [of n 0] by simp

text \<open>Scaling an integer of at most 53 bits by a fraction below 1 with 52 bits stays below it
  after rounding.\<close>

lemma round64_scaled:
  assumes "i < 2 ^ 53" "0 < i" "m < 2 ^ 52"
  shows "round64 (of_nat i * (of_nat m / 2 ^ 52)) < of_nat i"
proof -
  define Q :: rat where "Q = 2 ^ 52"
  define R :: rat where "R = 2 ^ (min_exp - 52)"
  define x :: rat where "x = of_nat i * (of_nat m / Q)"
  define b where "b = floorlog 2 i"
  define s where "s = shift x"
  have Q: "0 < Q" and R: "0 < R" by (simp_all add: Q_def R_def)
  have P: "2 ^ min_exp = R * Q" by (simp add: R_def Q_def min_exp_def flip: power_add)
  have b: "2 ^ (b - 1) \<le> i" "i < 2 ^ b" "0 < b" "b \<le> 53"
    using floorlog_bounds [of i 2] assms(2) floorlog_leI [of i 2 53] assms(1)
    by (auto simp: b_def floorlog_eq_zero_iff intro: gr0I)
  have x0: "0 \<le> x" using Q by (simp add: x_def)
  have "of_nat (Suc m) \<le> (of_nat (2 ^ 52) :: rat)" using assms(3) by (simp only: of_nat_le_iff)
  then have "of_nat m + 1 \<le> Q" by (simp add: Q_def)
  then have "of_nat i * (of_nat m + 1) \<le> of_nat i * Q" by (intro mult_left_mono) simp_all
  then have xi: "x \<le> of_nat i - of_nat i / Q" using Q by (simp add: x_def field_simps)
  also have "\<dots> \<le> of_nat i" using Q by simp
  also have "\<dots> < 2 ^ b" using b(2) by (metis of_nat_less_numeral_power_cancel_iff)
  finally have "x * 2 ^ min_exp < 2 ^ b * 2 ^ min_exp" by (intro mult_strict_right_mono) simp_all
  also have "\<dots> = 2 ^ (b + min_exp)" by (rule power_add [symmetric])
  also have "b + min_exp = 53 + (b - 1 + (min_exp - 52))" using b(3) by (simp add: min_exp_def)
  finally have s: "s \<le> b - 1 + (min_exp - 52)" unfolding s_def by (rule shift_le)
  then have s_le: "s \<le> min_exp" using b(4) by (simp add: min_exp_def)
  define N :: int where "N = int i * 2 ^ (min_exp - s)"
  have N: "of_int N * 2 ^ s = of_nat i * (R * Q)"
    unfolding N_def P [symmetric] using s_le by (simp add: mult.assoc flip: power_add)
  have step: "2 ^ s \<le> of_nat i * R"
  proof -
    have "(2 :: rat) ^ s \<le> 2 ^ (b - 1 + (min_exp - 52))" using s by (intro power_increasing) simp_all
    also have "\<dots> = 2 ^ (b - 1) * R" by (simp add: power_add R_def)
    also have "\<dots> \<le> of_nat i * R"
    proof (rule mult_right_mono)
      have "of_nat (2 ^ (b - 1)) \<le> (of_nat i :: rat)" using b(1) by (simp only: of_nat_le_iff)
      then show "(2 :: rat) ^ (b - 1) \<le> of_nat i" by simp
    qed (use R in simp)
    finally show ?thesis .
  qed
  have "x * (R * Q) \<le> (of_nat i - of_nat i / Q) * (R * Q)"
    using xi Q R by (intro mult_right_mono) simp_all
  also have "\<dots> = of_nat i * (R * Q) - of_nat i * R" using Q by (simp add: field_simps)
  also have "\<dots> \<le> of_int (N - 1) * 2 ^ s" using step by (simp add: N [symmetric] left_diff_distrib)
  finally have "x * (R * Q) / 2 ^ s \<le> of_int (N - 1)" by (simp add: pos_divide_le_eq)
  then have "round_even (x * (R * Q) / 2 ^ s) \<le> N - 1" by (rule round_even_le)
  then have "round_even (x * (R * Q) / 2 ^ s) < N" by simp
  then have "of_int (round_even (x * (R * Q) / 2 ^ s)) * 2 ^ s < of_int N * (2 :: rat) ^ s"
    by (intro mult_strict_right_mono) simp_all
  then have "of_int (round_even (x * (R * Q) / 2 ^ s)) * 2 ^ s / (R * Q) < of_nat i"
    unfolding N using Q R by (simp add: pos_divide_less_eq)
  then have "round_pos x < of_nat i" by (simp add: round_pos_def s_def P)
  moreover have "\<not> x < 0" using x0 by simp
  ultimately have "round64 x < of_nat i" by (simp only: round64_def if_False)
  then show ?thesis unfolding x_def Q_def .
qed

end
