(* ===== verification/Ci.thy ===== *)
theory Ci
  imports Formal Json Float64
begin

text \<open>
  The formal CI gate (\<open>pkg/ci/ci.go\<close>) and the generator command (\<open>cmd/formalgen/main.go\<close>).
  What the operating system answers is the record \<open>Env\<close>: the working directory, the outcome
  of every file operation, of every run of the external model checker and of the Go test run.
  Files written are returned as a list of paths with contents.  A panic is an \<open>Inl\<close>.
\<close>

section \<open>File paths\<close>

text \<open>The part of \<open>path/filepath\<close> the gate uses.\<close>

fun split_slash :: "string \<Rightarrow> string \<Rightarrow> string list" where
  "split_slash cur [] = [cur]"
| "split_slash cur (c # cs) =
     (if c = CHR ''/'' then cur # split_slash [] cs else split_slash (cur @ [c]) cs)"

definition clean_step :: "bool \<Rightarrow> string list \<Rightarrow> string \<Rightarrow> string list" where
  "clean_step rooted out c =
     (if c = [] \<or> c = ''.'' then out
      else if c = ''..'' then
        (if out \<noteq> [] \<and> last out \<noteq> ''..'' then butlast out else if rooted then out else out @ [c])
      else out @ [c])"

definition path_Clean :: "string \<Rightarrow> string" where
  "path_Clean p =
     (let rooted = (p \<noteq> [] \<and> hd p = CHR ''/'');
          body = join_with ''/'' (foldl (clean_step rooted) [] (split_slash [] p))
      in if rooted then ''/'' @ body else if body = [] then ''.'' else body)"

definition path_Join :: "string list \<Rightarrow> string" where
  "path_Join es =
     (case dropWhile (\<lambda>e. e = []) es of [] \<Rightarrow> [] | e # es' \<Rightarrow> path_Clean (join_with ''/'' (e # es')))"

definition after_slash :: "string \<Rightarrow> string" where
  "after_slash p = rev (takeWhile (\<lambda>c. c \<noteq> CHR ''/'') (rev p))"

definition path_Base :: "string \<Rightarrow> string" where
  "path_Base p =
     (if p = [] then ''.''
      else let q = rev (dropWhile (\<lambda>c. c = CHR ''/'') (rev p)); b = after_slash q
           in if b = [] then ''/'' else b)"

definition path_Dir :: "string \<Rightarrow> string" where
  "path_Dir p = path_Clean (rev (dropWhile (\<lambda>c. c \<noteq> CHR ''/'') (rev p)))"

section \<open>Configuration and environment\<close>

record Config =
  cf_OutputDir :: string
  cf_SpecDir :: string
  cf_TLCPath :: string

record Env =
  ev_Getwd :: string
  ev_PWD :: string
  ev_Mkdir :: "string \<Rightarrow> string option"
  ev_Write :: "string \<Rightarrow> string \<Rightarrow> string option"
  ev_LookPath :: "string \<Rightarrow> string \<Rightarrow> bool"
  ev_Run :: "string list \<Rightarrow> string \<Rightarrow> string option"
  ev_Pick :: "string \<Rightarrow> bool"
  ev_Rerun :: "string list \<Rightarrow> string option"
  ev_GoTest :: "string \<Rightarrow> string \<times> string option"

text \<open>\<open>ev_LookPath tlc spec\<close>: whether the checker is found when \<open>spec\<close> is about to be checked.
  \<open>ev_Run\<close>: the error of the first run of a command in a directory.  \<open>ev_Pick\<close>: whether the
  value of the channel is received by the first branch of the \<open>select\<close>.  \<open>ev_Rerun\<close>: what
  running the same command value again prints, if that does not fail.\<close>

definition DefaultConfig :: "Env \<Rightarrow> Config" where
  "DefaultConfig env =
     \<lparr>cf_OutputDir = path_Join [ev_Getwd env, ''artifacts''],
      cf_SpecDir = path_Join [ev_Getwd env, ''pkg'', ''formal''],
      cf_TLCPath = ''tlc''\<rparr>"

record SpecReport =
  sr_SpecName :: string
  sr_InvariantsSatisfied :: bool
  sr_ViolatedInvariants :: "string list"
  sr_ModelCheckedSteps :: int
  sr_WallTimeSeconds :: f64
  sr_ErrorMessages :: "string list"

record Report =
  rp_Specs :: "string list"
  rp_Invariants :: "string list"
  rp_Results :: "SpecReport list"
  rp_Passed :: bool

type_synonym file_writes = "(string \<times> string) list"

section \<open>Generating the specifications\<close>

definition spec_names :: "string list" where
  "spec_names = [''EventStore'', ''Snapshot'', ''Byzantine'', ''Consensus'']"

definition empty_spec :: RuntimeSpec where
  "empty_spec = \<lparr>sp_Name = [], sp_Variables = [], sp_Init = [], sp_Actions = [], sp_Invariants = []\<rparr>"

definition spec_of :: "string \<Rightarrow> RuntimeSpec" where
  "spec_of name =
     (if name = ''EventStore'' then BuildEventStoreSpec
      else if name = ''Snapshot'' then BuildSnapshotSpec
      else if name = ''Byzantine'' then BuildByzantineSpec
      else if name = ''Consensus'' then BuildConsensusSpec
      else empty_spec)"

primrec generate_loop ::
  "Env \<Rightarrow> Config \<Rightarrow> Generator \<Rightarrow> string list \<Rightarrow> file_writes \<Rightarrow> string list \<Rightarrow> (string + string list) \<times> file_writes" where
  "generate_loop env cfg gen files ws [] = (Inr files, ws)"
| "generate_loop env cfg gen files ws (name # names) =
     (let (text, gen') = Generate (spec_of name) gen;
          outPath = path_Join [cf_OutputDir cfg, name @ ''.tla'']
      in case ev_Write env outPath text of
           Some err \<Rightarrow> (Inl (''ci: write spec '' @ name @ '': '' @ err), ws)
         | None \<Rightarrow> generate_loop env cfg gen' (files @ [outPath]) (ws @ [(outPath, text)]) names)"

definition GenerateSpecs :: "Env \<Rightarrow> Config \<Rightarrow> (string + string list) \<times> file_writes" where
  "GenerateSpecs env cfg =
     (case ev_Mkdir env (cf_OutputDir cfg) of
        Some err \<Rightarrow> (Inl (''ci: mkdir output: '' @ err), [])
      | None \<Rightarrow> generate_loop env cfg formal_New [] [] spec_names)"

section \<open>Running the model checker\<close>

definition tlc_args :: "string \<Rightarrow> string \<Rightarrow> string list" where
  "tlc_args tlcPath specPath = [tlcPath, ''-terse'', ''-config'', ''Temporal.cfg'', specPath]"

text \<open>Returns a panic message, or the report and the error.  The timeout is not used.\<close>

definition RunModelChecker :: "Env \<Rightarrow> string \<Rightarrow> string \<Rightarrow> int \<Rightarrow> string + SpecReport \<times> string option" where
  "RunModelChecker env tlcPath specPath timeoutSeconds =
     (let base = path_Base specPath
      in if length base < 4 then Inl ''slice bounds out of range''
         else let specName = take (length base - 4) base;
                  args = tlc_args tlcPath specPath;
                  done_err = ev_Run env args (path_Dir specPath);
                  runErr = (if ev_Pick env specPath then done_err else None);
                  msgs = (if runErr \<noteq> None then (case ev_Rerun env args of Some out \<Rightarrow> [out] | None \<Rightarrow> [])
                          else [])
              in Inr (\<lparr>sr_SpecName = specName, sr_InvariantsSatisfied = (runErr = None),
                       sr_ViolatedInvariants = [], sr_ModelCheckedSteps = 0,
                       sr_WallTimeSeconds = Finite 0, sr_ErrorMessages = msgs\<rparr>, None))"

definition ValidateInvariants :: "Env \<Rightarrow> string list \<times> string option" where
  "ValidateInvariants env =
     (let (out, err) = ev_GoTest env (path_Dir (ev_PWD env))
      in (if err \<noteq> None then [''modelchecker: FAILED '' @ em_dash @ '' '' @ out]
          else map (\<lambda>iv. iv @ '': PASS'') [''INV1'', ''INV2'', ''INV3'', ''INV4'', ''INV5''], err))"

section \<open>The report file\<close>

text \<open>The two structures as \<open>json.MarshalIndent\<close> prints them; \<open>fl\<close> prints a floating point
  number.\<close>

definition json_spec_report :: "(f64 \<Rightarrow> string) \<Rightarrow> SpecReport \<Rightarrow> string" where
  "json_spec_report fl r =
     json_object 2
       ([(''spec_name'', json_string (sr_SpecName r)),
         (''invariants_satisfied'', json_bool (sr_InvariantsSatisfied r))] @
        (if sr_ViolatedInvariants r = [] then []
         else [(''violated_invariants'', json_array 3 (map json_string (sr_ViolatedInvariants r)))]) @
        [(''model_checked_steps'', fmt_int (sr_ModelCheckedSteps r)),
         (''wall_time_seconds'', fl (sr_WallTimeSeconds r))] @
        (if sr_ErrorMessages r = [] then []
         else [(''error_messages'', json_array 3 (map json_string (sr_ErrorMessages r)))]))"

definition json_report :: "(f64 \<Rightarrow> string) \<Rightarrow> Report \<Rightarrow> string" where
  "json_report fl r =
     json_object 0
       [(''specs_generated'', json_array 1 (map json_string (rp_Specs r))),
        (''invariants_validated'', json_array 1 (map json_string (rp_Invariants r))),
        (''spec_results'', if rp_Results r = [] then ''null'' else json_array 1 (map (json_spec_report fl) (rp_Results r))),
        (''passed'', json_bool (rp_Passed r))]"

section \<open>The pipeline\<close>

primrec check_specs ::
  "Env \<Rightarrow> Config \<Rightarrow> bool \<Rightarrow> SpecReport list \<Rightarrow> string list \<Rightarrow> string + bool \<times> SpecReport list" where
  "check_specs env cfg passed results [] = Inr (passed, results)"
| "check_specs env cfg passed results (f # fs) =
     (if \<not> ev_LookPath env (cf_TLCPath cfg) f then Inr (passed, results)
      else case RunModelChecker env (cf_TLCPath cfg) f 120 of
             Inl p \<Rightarrow> Inl p
           | Inr (result, err) \<Rightarrow>
               check_specs env cfg (if err \<noteq> None then False else passed) (results @ [result]) fs)"

definition pipeline_invariants :: "string list" where
  "pipeline_invariants =
     [''INV1'', ''INV2'', ''INV3'', ''INV4'', ''INV5'', ''INV_SnapEquiv'', ''INV_Convergence'',
      ''INV_NoSplitBrain'', ''INV_QuorumCommit'']"

text \<open>A panic message, or the error or the report, with the files that were written.\<close>

definition RunFullPipeline :: "(f64 \<Rightarrow> string) \<Rightarrow> Env \<Rightarrow> string + (string + Report) \<times> file_writes" where
  "RunFullPipeline fl env =
     (let cfg = DefaultConfig env
      in case GenerateSpecs env cfg of
           (Inl err, ws) \<Rightarrow> Inr (Inl (''ci: generate specs: '' @ err), ws)
         | (Inr specFiles, ws) \<Rightarrow>
             (case check_specs env cfg True [] specFiles of
                Inl p \<Rightarrow> Inl p
              | Inr (passed, results) \<Rightarrow>
                  (let err = snd (ValidateInvariants env);
                       report = \<lparr>rp_Specs = specFiles, rp_Invariants = pipeline_invariants,
                                 rp_Results = results, rp_Passed = (if err \<noteq> None then False else passed)\<rparr>;
                       reportPath = path_Join [cf_OutputDir cfg, ''model-check-report.json''];
                       blob = json_report fl report
                   in Inr (Inr report,
                           if ev_Write env reportPath blob = None then ws @ [(reportPath, blob)] else ws))))"

text \<open>The message it panics with, if it does.\<close>

definition MustRunPipeline :: "(f64 \<Rightarrow> string) \<Rightarrow> Env \<Rightarrow> string option" where
  "MustRunPipeline fl env =
     (case RunFullPipeline fl env of
        Inl p \<Rightarrow> Some p
      | Inr (Inl err, _) \<Rightarrow> Some (''CI pipeline failed: '' @ err)
      | Inr (Inr report, _) \<Rightarrow>
          (if rp_Passed report then None
           else Some (''INV violation detected: ['' @
                  join_with '' '' (concat (map sr_ViolatedInvariants (rp_Results report))) @ '']'')))"

section \<open>The generator command\<close>

text \<open>Exit code, standard output, standard error and the files written.\<close>

primrec formalgen_loop ::
  "Env \<Rightarrow> string \<Rightarrow> Generator \<Rightarrow> string \<Rightarrow> file_writes \<Rightarrow> (string \<times> RuntimeSpec) list \<Rightarrow>
   nat \<times> string \<times> string \<times> file_writes" where
  "formalgen_loop env outputDir gen out ws [] = (0, out @ ''All specs generated.'' @ newline, [], ws)"
| "formalgen_loop env outputDir gen out ws (s # specs) =
     (let (text, gen') = Generate (snd s) gen; path = outputDir @ ''/'' @ fst s @ ''.tla''
      in case ev_Write env path text of
           Some err \<Rightarrow> (1, out, ''write '' @ fst s @ '': '' @ err @ newline, ws)
         | None \<Rightarrow> formalgen_loop env outputDir gen' (out @ ''Generated: '' @ path @ newline)
                     (ws @ [(path, text)]) specs)"

definition formalgen_main :: "Env \<Rightarrow> string list \<Rightarrow> nat \<times> string \<times> string \<times> file_writes" where
  "formalgen_main env args =
     (let outputDir = (if length args > 1 then args ! 1 else ''artifacts'')
      in case ev_Mkdir env outputDir of
           Some err \<Rightarrow> (1, [], ''create dir: '' @ err @ newline, [])
         | None \<Rightarrow> formalgen_loop env outputDir formal_New [] []
             [(''EventStore'', BuildEventStoreSpec), (''Snapshot'', BuildSnapshotSpec),
              (''Byzantine'', BuildByzantineSpec), (''Consensus'', BuildConsensusSpec)])"

section \<open>The file names\<close>

lemma split_slash_last:
  "CHR ''/'' \<notin> set n \<Longrightarrow> split_slash cur (d @ ''/'' @ n) = split_slash cur d @ [n]"
proof (induction d arbitrary: cur)
  case Nil
  have plain: "CHR ''/'' \<notin> set n \<Longrightarrow> split_slash c n = [c @ n]" for c n by (induction n arbitrary: c) auto
  show ?case using plain [of n "[]"] Nil by simp
qed simp

lemma split_slash_plain: "CHR ''/'' \<notin> set n \<Longrightarrow> split_slash cur n = [cur @ n]"
  by (induction n arbitrary: cur) auto

text \<open>The file name a path is built from is its base name.\<close>

definition file_name :: "string \<Rightarrow> bool" where
  "file_name n \<longleftrightarrow> n \<noteq> [] \<and> n \<noteq> ''.'' \<and> n \<noteq> ''..'' \<and> CHR ''/'' \<notin> set n"

lemma path_Base_snoc:
  assumes "file_name n"
  shows "path_Base (d @ ''/'' @ n) = n" "path_Base n = n"
proof -
  have tw: "takeWhile (\<lambda>c. c \<noteq> CHR ''/'') (rev n @ r) = rev n @ takeWhile (\<lambda>c. c \<noteq> CHR ''/'') r" for r
    using assms by (intro takeWhile_append2) (auto simp: file_name_def)
  have dw: "dropWhile (\<lambda>c. c = CHR ''/'') (rev n @ r) = rev n @ r" for r
  proof (cases "rev n")
    case Nil then show ?thesis using assms by (simp add: file_name_def)
  next
    case (Cons c cs)
    then have "c \<in> set n" by (metis list.set_intros(1) set_rev)
    then have "c \<noteq> CHR ''/''" using assms by (auto simp: file_name_def)
    then show ?thesis using Cons by simp
  qed
  show "path_Base (d @ ''/'' @ n) = n"
    using assms dw [of "''/'' @ rev d"] tw [of "''/'' @ rev d"]
    by (simp add: path_Base_def after_slash_def file_name_def)
  show "path_Base n = n"
    using assms by (simp add: path_Base_def after_slash_def file_name_def dw [of "[]", simplified]
        tw [of "[]", unfolded append_Nil2 takeWhile.simps])
qed

lemma path_Base_Join:
  assumes "file_name n"
  shows "path_Base (path_Join [d, n]) = n"
proof -
  define out where "out r = foldl (clean_step r) [] (split_slash [] d)" for r
  have n: "n \<noteq> []" "CHR ''/'' \<notin> set n" "\<And>r xs. clean_step r xs n = xs @ [n]"
    using assms by (auto simp: file_name_def clean_step_def)
  show ?thesis
  proof (cases "d = []")
    case True
    have "hd n \<noteq> CHR ''/''" using n by (metis hd_in_set)
    then have "path_Clean n = n" using n by (simp add: path_Clean_def split_slash_plain)
    then show ?thesis using True n path_Base_snoc(2) [OF assms] by (simp add: path_Join_def)
  next
    case False
    have "foldl (clean_step r) [] (split_slash [] (d @ ''/'' @ n)) = out r @ [n]" for r
      using n split_slash_last [OF n(2), of "[]" d] by (simp add: out_def)
    then have "\<exists>e. path_Clean (d @ ''/'' @ n) = e @ ''/'' @ n \<or> path_Clean (d @ ''/'' @ n) = n"
      using n False join_with_snoc
      by (cases "out (hd d = CHR ''/'') = []") (auto simp: path_Clean_def Let_def)
    then show ?thesis using False path_Base_snoc [OF assms] by (auto simp: path_Join_def)
  qed
qed

section \<open>What the gate checks\<close>

definition spec_path :: "Env \<Rightarrow> string \<Rightarrow> string" where
  "spec_path env name = path_Join [cf_OutputDir (DefaultConfig env), name @ ''.tla'']"

definition spec_text :: "string \<Rightarrow> string" where
  "spec_text name = fst (Generate (spec_of name) formal_New)"

definition generation_ok :: "Env \<Rightarrow> bool" where
  "generation_ok env \<longleftrightarrow> ev_Mkdir env (cf_OutputDir (DefaultConfig env)) = None \<and>
     list_all (\<lambda>n. ev_Write env (spec_path env n) (spec_text n) = None) spec_names"

lemma generate_loop_result:
  "case generate_loop env (DefaultConfig env) gen files ws names of
     (Inl err, ws') \<Rightarrow> \<not> list_all (\<lambda>n. ev_Write env (spec_path env n) (spec_text n) = None) names
   | (Inr files', ws') \<Rightarrow> list_all (\<lambda>n. ev_Write env (spec_path env n) (spec_text n) = None) names \<and>
       files' = files @ map (spec_path env) names \<and>
       ws' = ws @ map (\<lambda>n. (spec_path env n, spec_text n)) names"
proof (induction names arbitrary: gen files ws)
  case (Cons n ns)
  have tx: "fst (Generate (spec_of n) gen) = spec_text n"
    unfolding spec_text_def by (rule Generate_resets)
  obtain gen' where g: "Generate (spec_of n) gen = (spec_text n, gen')"
    using tx by (metis prod.collapse)
  show ?case
    using Cons.IH [where gen = gen' and files = "files @ [spec_path env n]" and
        ws = "ws @ [(spec_path env n, spec_text n)]"]
    by (cases "ev_Write env (spec_path env n) (spec_text n)")
      (auto simp: g spec_path_def [symmetric] split: sum.splits prod.splits)
qed simp

lemma GenerateSpecs_result:
  "case GenerateSpecs env (DefaultConfig env) of
     (Inl err, ws) \<Rightarrow> \<not> generation_ok env
   | (Inr files, ws) \<Rightarrow> generation_ok env \<and> files = map (spec_path env) spec_names \<and>
       ws = map (\<lambda>n. (spec_path env n, spec_text n)) spec_names"
  using generate_loop_result [where env = env and gen = formal_New and files = "[]" and ws = "[]" and names = spec_names]
  by (cases "ev_Mkdir env (cf_OutputDir (DefaultConfig env))")
    (auto simp: GenerateSpecs_def generation_ok_def split: sum.splits prod.splits)

lemma spec_path_Base: "n \<in> set spec_names \<Longrightarrow> path_Base (spec_path env n) = n @ ''.tla''"
  unfolding spec_path_def by (rule path_Base_Join) (auto simp: spec_names_def file_name_def)

text \<open>The report on one specification: nothing but whether the first branch of the \<open>select\<close>
  received an error.\<close>

lemma RunModelChecker_spec:
  assumes "n \<in> set spec_names"
  shows "\<exists>r. RunModelChecker env tlc (spec_path env n) t = Inr (r, None) \<and> sr_SpecName r = n \<and>
    sr_ViolatedInvariants r = [] \<and> sr_ModelCheckedSteps r = 0 \<and>
    (sr_InvariantsSatisfied r \<longleftrightarrow> ev_Pick env (spec_path env n) \<longrightarrow>
       ev_Run env (tlc_args tlc (spec_path env n)) (path_Dir (spec_path env n)) = None)"
  using spec_path_Base [OF assms, of env] by (auto simp: RunModelChecker_def Let_def)

lemma check_specs_result:
  assumes "set ns \<subseteq> set spec_names"
  shows "\<exists>more. check_specs env cfg passed results (map (spec_path env) ns) = Inr (passed, results @ more) \<and>
    map sr_SpecName more = takeWhile (\<lambda>n. ev_LookPath env (cf_TLCPath cfg) (spec_path env n)) ns \<and>
    concat (map sr_ViolatedInvariants more) = []"
  using assms
proof (induction ns arbitrary: results)
  case (Cons n ns)
  then obtain r where r: "RunModelChecker env (cf_TLCPath cfg) (spec_path env n) 120 = Inr (r, None)"
      "sr_SpecName r = n" "sr_ViolatedInvariants r = []"
    using RunModelChecker_spec [of n env "cf_TLCPath cfg" 120] by auto
  obtain more where "check_specs env cfg passed (results @ [r]) (map (spec_path env) ns) =
        Inr (passed, (results @ [r]) @ more)"
      "map sr_SpecName more = takeWhile (\<lambda>n. ev_LookPath env (cf_TLCPath cfg) (spec_path env n)) ns"
      "concat (map sr_ViolatedInvariants more) = []"
    using Cons.IH [of "results @ [r]"] Cons.prems by auto
  then show ?case
    using r by (cases "ev_LookPath env (cf_TLCPath cfg) (spec_path env n)")
      (auto intro!: exI [of _ "r # more"])
qed simp

lemma RunFullPipeline_result:
  "case RunFullPipeline fl env of
     Inl p \<Rightarrow> False
   | Inr (Inl err, ws) \<Rightarrow> \<not> generation_ok env
   | Inr (Inr report, ws) \<Rightarrow> generation_ok env \<and>
       rp_Specs report = map (spec_path env) spec_names \<and>
       map sr_SpecName (rp_Results report) =
         takeWhile (\<lambda>n. ev_LookPath env ''tlc'' (spec_path env n)) spec_names \<and>
       concat (map sr_ViolatedInvariants (rp_Results report)) = [] \<and>
       (rp_Passed report \<longleftrightarrow> snd (ev_GoTest env (path_Dir (ev_PWD env))) = None)"
proof (cases "GenerateSpecs env (DefaultConfig env)")
  case (Pair res ws)
  show ?thesis
  proof (cases res)
    case (Inl err)
    then show ?thesis using Pair GenerateSpecs_result [of env] by (simp add: RunFullPipeline_def)
  next
    case (Inr files)
    have f: "generation_ok env" "files = map (spec_path env) spec_names"
      using Pair Inr GenerateSpecs_result [of env] by auto
    have tlc: "cf_TLCPath (DefaultConfig env) = ''tlc''" by (simp add: DefaultConfig_def)
    have v: "snd (ValidateInvariants env) = snd (ev_GoTest env (path_Dir (ev_PWD env)))"
      by (simp add: ValidateInvariants_def case_prod_beta)
    obtain more where m: "check_specs env (DefaultConfig env) True [] files = Inr (True, more)"
        "map sr_SpecName more = takeWhile (\<lambda>n. ev_LookPath env ''tlc'' (spec_path env n)) spec_names"
        "concat (map sr_ViolatedInvariants more) = []"
      using check_specs_result [of spec_names env "DefaultConfig env" True "[]"] f tlc by auto
    show ?thesis
      using Pair Inr f m by (simp add: RunFullPipeline_def Let_def v)
  qed
qed

text \<open>C40: The gate never looks at the verdict of the external model checker.  A run of the
  pipeline returns an error exactly if a specification could not be written; otherwise it reports
  on the specifications up to the first for which the checker is not found, with no violated
  invariant ever named, and \<open>Passed\<close> says only whether the Go tests passed.  So the gate
  panics exactly if generation or the Go tests fail, whatever TLC finds.\<close>

theorem ci_gate_ignores_model_checker:
  "(case RunFullPipeline fl env of
      Inl p \<Rightarrow> False
    | Inr (Inl err, ws) \<Rightarrow> \<not> generation_ok env
    | Inr (Inr report, ws) \<Rightarrow> generation_ok env \<and>
        rp_Specs report = map (spec_path env) spec_names \<and>
        map sr_SpecName (rp_Results report) =
          takeWhile (\<lambda>n. ev_LookPath env ''tlc'' (spec_path env n)) spec_names \<and>
        concat (map sr_ViolatedInvariants (rp_Results report)) = [] \<and>
        (rp_Passed report \<longleftrightarrow> snd (ev_GoTest env (path_Dir (ev_PWD env))) = None)) \<and>
   (MustRunPipeline fl env = None \<longleftrightarrow>
      generation_ok env \<and> snd (ev_GoTest env (path_Dir (ev_PWD env))) = None)"
  using RunFullPipeline_result [where fl = fl and env = env]
  by (auto simp: MustRunPipeline_def split: sum.splits prod.splits)

end
