(* ===== verification/JsonGrammar.thy ===== *)
theory JsonGrammar
  imports TraceJson Ci
begin

text \<open>
  The grammar of JSON (RFC 8259) over byte strings, and the proof that what the program writes
  as JSON, the form of a recorded trace (\<open>JSON\<close> of \<open>pkg/trace/recorder.go\<close>) and the report file
  of the gate (\<open>RunFullPipeline\<close> of \<open>pkg/ci/ci.go\<close>), belongs to it whatever bytes the recorded
  strings hold.
\<close>

section \<open>The grammar\<close>

definition blanks :: "string \<Rightarrow> bool" where
  "blanks w \<longleftrightarrow> set w \<subseteq> {CHR '' '', CHR 0x09, CHR 0x0A, CHR 0x0D}"

definition json_number :: "string \<Rightarrow> bool" where
  "json_number s \<longleftrightarrow> s \<noteq> [] \<and> (\<forall>c \<in> set s. is_digit c) \<and> (hd s = CHR ''0'' \<longrightarrow> length s = 1)"

definition is_hex :: "char \<Rightarrow> bool" where
  "is_hex c \<longleftrightarrow> c \<in> set ''0123456789abcdefABCDEF''"

text \<open>The inside of a string: bytes from 32 on other than the quote and the backslash, and
  escapes.\<close>

inductive json_chars :: "string \<Rightarrow> bool" where
  chars_Nil: "json_chars []"
| chars_plain: "json_chars s \<Longrightarrow> (32 :: nat) \<le> of_char c \<Longrightarrow> c \<noteq> dquote \<Longrightarrow> c \<noteq> backslash \<Longrightarrow> json_chars (c # s)"
| chars_escape: "json_chars s \<Longrightarrow> c \<in> {dquote, backslash} \<or> c \<in> set ''/bfnrt'' \<Longrightarrow> json_chars (backslash # c # s)"
| chars_unicode: "json_chars s \<Longrightarrow> list_all is_hex [a, b, c, d] \<Longrightarrow>
    json_chars (backslash # CHR ''u'' # a # b # c # d # s)"

inductive json_text :: "string \<Rightarrow> bool"
  and json_elem :: "string \<Rightarrow> bool"
  and json_member :: "string \<Rightarrow> bool" where
  text_null: "json_text ''null''"
| text_true: "json_text ''true''"
| text_false: "json_text ''false''"
| text_nat: "json_number s \<Longrightarrow> json_text s"
| text_negative: "json_number s \<Longrightarrow> json_text (''-'' @ s)"
| text_string: "json_chars s \<Longrightarrow> json_text ([dquote] @ s @ [dquote])"
| text_empty_array: "blanks w \<Longrightarrow> json_text (''['' @ w @ '']'')"
| text_array: "xs \<noteq> [] \<Longrightarrow> (\<forall>x \<in> set xs. json_elem x) \<Longrightarrow> json_text (''['' @ join_with '','' xs @ '']'')"
| text_empty_object: "blanks w \<Longrightarrow> json_text (''{'' @ w @ ''}'')"
| text_object: "xs \<noteq> [] \<Longrightarrow> (\<forall>x \<in> set xs. json_member x) \<Longrightarrow> json_text (''{'' @ join_with '','' xs @ ''}'')"
| elem: "blanks a \<Longrightarrow> json_text v \<Longrightarrow> blanks b \<Longrightarrow> json_elem (a @ v @ b)"
| member: "blanks a \<Longrightarrow> json_chars k \<Longrightarrow> blanks b \<Longrightarrow> json_elem e \<Longrightarrow>
    json_member (a @ [dquote] @ k @ [dquote] @ b @ '':'' @ e)"

section \<open>The parts\<close>

lemma blanks_simps [simp]:
  "blanks []" "blanks '' ''" "blanks (indent n)" "blanks (v @ w) \<longleftrightarrow> blanks v \<and> blanks w"
  by (auto simp: blanks_def indent_def newline_def)

lemma dec_of_nat_hd: "hd (dec_of_nat n) = CHR ''0'' \<longleftrightarrow> n = 0"
proof (induction n rule: dec_of_nat.induct)
  case (1 n)
  show ?case
  proof (cases "n < 10")
    case True
    then have "hd (dec_of_nat n) = digit_char n" by (subst dec_of_nat.simps) simp
    moreover have "\<forall>n \<in> set [0..<10]. digit_char n = CHR ''0'' \<longleftrightarrow> n = 0" by code_simp
    then have "digit_char n = CHR ''0'' \<longleftrightarrow> n = 0" using True by simp
    ultimately show ?thesis by simp
  next
    case False
    then have "hd (dec_of_nat n) = hd (dec_of_nat (n div 10))"
      by (subst dec_of_nat.simps) simp
    with 1 False show ?thesis by simp
  qed
qed

lemma json_number_dec: "json_number (dec_of_nat n)"
  unfolding json_number_def dec_of_nat_hd
  using dec_of_nat_digits [of n] by (auto simp: dec_of_nat.simps [of 0])

lemma text_u64 [simp]: "json_text (fmt_u64 v)"
  by (simp add: fmt_u64_def text_nat json_number_dec)

lemma text_int [simp]: "json_text (fmt_int i)"
  unfolding fmt_int_def using text_negative [OF json_number_dec] text_nat [OF json_number_dec] by simp

lemma text_bool [simp]: "json_text (json_bool b)"
  by (simp add: json_bool_def text_true text_false)

lemma is_hex_char: "d < 16 \<Longrightarrow> is_hex (hex_char d)"
proof -
  have "\<forall>d \<in> set [0..<16]. is_hex (hex_char d)" by code_simp
  then show "d < 16 \<Longrightarrow> is_hex (hex_char d)" by simp
qed

lemma hex_of_byte_hex: "\<exists>a b. hex_of_byte x = [a, b] \<and> is_hex a \<and> is_hex b"
proof -
  have "unat x div 16 < 16" using unat_byte_less [of x] by linarith
  moreover have "unat x mod 16 < 16" by simp
  ultimately show ?thesis by (simp add: hex_of_byte_def is_hex_char)
qed

lemma chars_escape_ascii:
  assumes "json_chars s"
  shows "json_chars (escape_ascii c @ s)"
proof -
  obtain a b where h: "hex_of_byte (byte_of_char c) = [a, b]" "is_hex a" "is_hex b"
    using hex_of_byte_hex by blast
  have "is_hex (CHR ''0'')" by (simp add: is_hex_def)
  then have u: "json_chars (backslash # ''u00'' @ [a, b] @ s)"
    using chars_unicode [OF assms, of "CHR ''0''" "CHR ''0''" a b] h by simp
  show ?thesis
    using u chars_escape [OF assms] chars_plain [OF assms, of c] h(1)
    by (auto simp: escape_ascii_def not_less)
qed

lemma chars_plain_append:
  "json_chars s \<Longrightarrow> \<forall>c \<in> set r. (128 :: nat) \<le> of_char c \<Longrightarrow> json_chars (r @ s)"
proof (induction r)
  case (Cons c r)
  then have "(128 :: nat) \<le> of_char c" by simp
  moreover from this have "c \<noteq> dquote" "c \<noteq> backslash" by (auto simp: dquote_def backslash_def)
  ultimately show ?case using Cons by (auto intro!: chars_plain)
qed simp

lemma utf8_len_high:
  "(128 :: nat) \<le> bs ! 0 \<Longrightarrow> i < utf8_len bs \<Longrightarrow> i < length bs \<and> 128 \<le> bs ! i"
  unfolding utf8_len_def code_in_def Let_def
  by (auto simp: less_Suc_eq numeral_eq_Suc split: if_splits)

lemma rune_high:
  assumes "(128 :: nat) \<le> of_char c"
  shows "\<forall>x \<in> set (take (utf8_len (map of_char (c # s))) (c # s)). (128 :: nat) \<le> of_char x"
proof
  fix x assume "x \<in> set (take (utf8_len (map of_char (c # s))) (c # s))"
  then obtain i where i: "i < utf8_len (map of_char (c # s))" "i < length (c # s)" "x = (c # s) ! i"
    by (auto simp: in_set_conv_nth)
  have "(128 :: nat) \<le> map of_char (c # s) ! 0" using assms by simp
  from utf8_len_high [OF this i(1)] i(2,3) show "(128 :: nat) \<le> of_char x"
    using nth_map [of i "c # s" "of_char :: char \<Rightarrow> nat"] by metis
qed

lemma chars_json_escape: "json_chars (json_escape s)"
proof (induction s rule: json_escape.induct)
  case 1
  show ?case by (simp add: chars_Nil)
next
  case (2 c s)
  let ?k = "utf8_len (map of_char (c # s))" and ?rune = "take (utf8_len (map of_char (c # s))) (c # s)"
  show ?case
  proof (cases "of_char c < (128 :: nat)")
    case True
    with chars_escape_ascii [OF 2(1) [OF refl refl True]] show ?thesis by simp
  next
    case False
    note tail = 2(3) [OF refl refl False] and bad = 2(2) [OF refl refl False]
    have u: "json_chars (backslash # ''u2028'' @ r)" "json_chars (backslash # ''u2029'' @ r)"
      "json_chars (backslash # ''ufffd'' @ r)" if "json_chars r" for r
      using chars_unicode [OF that] by (simp_all add: is_hex_def)
    show ?thesis
    proof (cases "?k = 0")
      case True
      with False u(3) [OF bad [OF True]] show ?thesis by simp
    next
      case k: False
      have "json_chars (?rune @ json_escape (drop (?k - 1) s))"
        by (rule chars_plain_append [OF tail [OF k] rune_high]) (use False in simp)
      with False k u(1,2) [OF tail [OF k]] show ?thesis
        unfolding json_escape.simps Let_def by (simp del: list.map take_Suc_Cons)
    qed
  qed
qed

lemma text_json_string [simp]: "json_text (json_string s)"
  unfolding json_string_def by (rule text_string [OF chars_json_escape])

text \<open>Base 64 writes letters, digits, and three signs.\<close>

definition plain_char :: "char \<Rightarrow> bool" where
  "plain_char c \<longleftrightarrow> (32 :: nat) \<le> of_char c \<and> c \<noteq> dquote \<and> c \<noteq> backslash"

lemma b64_char_plain: "d < 64 \<Longrightarrow> plain_char (b64_char d)"
proof -
  have "\<forall>d \<in> set [0..<64]. plain_char (b64_char d)" by code_simp
  then show "d < 64 \<Longrightarrow> plain_char (b64_char d)" by simp
qed

lemma b64_bounds:
  fixes x y z :: nat
  assumes "x < 256" and "y < 256"
  shows "((x * 256 + y) * 4) div 4096 < 64"
    and "z < 256 \<Longrightarrow> ((x * 256 + y) * 256 + z) div 262144 < 64"
proof -
  have w: "x * 256 + y < 65536" using assms by simp
  then have "(x * 256 + y) * 4 < 64 * 4096" by simp
  then show "((x * 256 + y) * 4) div 4096 < 64" by (rule less_mult_imp_div_less)
  assume "z < 256"
  with w have "(x * 256 + y) * 256 + z < 64 * 262144" by simp
  then show "((x * 256 + y) * 256 + z) div 262144 < 64" by (rule less_mult_imp_div_less)
qed

lemma base64_plain: "list_all plain_char (base64 bs)"
proof (induction bs rule: base64.induct)
  case (2 a)
  have "plain_char (CHR ''='')" by (simp add: plain_char_def dquote_def backslash_def)
  moreover have "unat a div 4 < 64" using unat_byte_less [of a] by linarith
  ultimately show ?case by (simp add: Let_def b64_char_plain)
next
  case (3 a b)
  have "plain_char (CHR ''='')" by (simp add: plain_char_def dquote_def backslash_def)
  moreover have "((unat a * 256 + unat b) * 4) div 4096 < 64"
    by (rule b64_bounds(1)) simp_all
  ultimately show ?case by (simp add: Let_def b64_char_plain del: div_mult_self4)
next
  case (4 a b c r)
  have "((unat a * 256 + unat b) * 256 + unat c) div 262144 < 64"
    by (rule b64_bounds(2)) simp_all
  with 4 show ?case by (simp add: Let_def b64_char_plain)
qed simp

lemma text_base64 [simp]: "json_text ([dquote] @ base64 bs @ [dquote])"
proof (rule text_string)
  have "list_all plain_char s \<Longrightarrow> json_chars s" for s
    by (induction s) (auto simp: plain_char_def intro: chars_Nil chars_plain)
  then show "json_chars (base64 bs)" using base64_plain by blast
qed

section \<open>Arrays and objects\<close>

lemma join_map_last:
  "xs \<noteq> [] \<Longrightarrow> join_with sep (map f xs) @ w = join_with sep (map f (butlast xs) @ [f (last xs) @ w])"
proof -
  assume "xs \<noteq> []"
  then obtain ys y where xs: "xs = ys @ [y]" by (metis append_butlast_last_id)
  show ?thesis
  proof (cases "ys = []")
    case False
    then show ?thesis unfolding xs by (simp add: join_with_snoc)
  qed (simp add: xs)
qed

lemma text_json_array [simp]:
  assumes "list_all json_text xs"
  shows "json_text (json_array n xs)"
proof (cases "xs = []")
  case True
  then show ?thesis using text_empty_array [of "[]"] by (simp add: json_array_def)
next
  case False
  let ?f = "\<lambda>x. indent (n + 1) @ x"
  have el: "json_elem (?f x)" "json_elem (?f x @ indent n)" if "x \<in> set xs" for x
    using that assms elem [of "indent (n + 1)" x "[]"] elem [of "indent (n + 1)" x "indent n"]
    by (simp_all add: list_all_iff)
  have "json_text (''['' @ join_with '','' (map ?f (butlast xs) @ [?f (last xs) @ indent n]) @ '']'')"
    by (rule text_array) (use el False in \<open>auto dest: in_set_butlastD\<close>)
  then show ?thesis
    using False join_map_last [OF False, of "'',''" ?f "indent n", symmetric]
    by (simp add: json_array_def)
qed

lemma text_json_object [simp]:
  assumes "list_all (\<lambda>(k, v). json_text v) kvs" and "kvs \<noteq> []"
  shows "json_text (json_object n kvs)"
proof -
  let ?f = "\<lambda>(k, v). indent (n + 1) @ json_string k @ '': '' @ v"
  have el: "json_member (?f x)" "json_member (?f x @ indent n)" if "x \<in> set kvs" for x
  proof -
    obtain k v where x: "x = (k, v)" by fastforce
    then have "json_text v" using that assms(1) by (auto simp: list_all_iff)
    then have "json_elem ('' '' @ v @ [])" "json_elem ('' '' @ v @ indent n)" 
      using elem [of "'' ''" v "[]"] elem [of "'' ''" v "indent n"] by (simp_all del: append.simps)
    from this [THEN member [rotated 3, where a = "indent (n + 1)" and k = "json_escape k" and b = "[]"]]
    show "json_member (?f x)" "json_member (?f x @ indent n)"
      by (simp_all add: x json_string_def chars_json_escape)
  qed
  have "json_text (''{'' @ join_with '','' (map ?f (butlast kvs) @ [?f (last kvs) @ indent n]) @ ''}'')"
    by (rule text_object) (use el assms(2) in \<open>auto dest: in_set_butlastD\<close>)
  then show ?thesis
    using join_map_last [OF assms(2), of "'',''" ?f "indent n", symmetric] by (simp add: json_object_def)
qed

section \<open>What the program writes\<close>

lemma text_trace: "json_text (trace_JSON t)"
proof -
  have f: "list_all (\<lambda>(k, v). json_text v) (string_field k s)" for k s
    by (simp add: string_field_def)
  have p: "json_text (dquote # base64 bs @ [dquote])" for bs using text_base64 [of bs] by simp
  have "list_all (\<lambda>(k, v). json_text v) (entry_fields e)" "entry_fields e \<noteq> []" for e
    by (simp_all add: entry_fields_def f p)
  then show ?thesis by (simp add: trace_JSON_def list_all_iff del: text_json_object)
      (simp add: text_json_object list_all_iff)
qed

lemma text_report:
  assumes "\<And>x. json_text (fl x)"
  shows "json_text (json_report fl r)"
proof -
  have "json_text (json_spec_report fl s)" for s
    unfolding json_spec_report_def by (rule text_json_object) (simp_all add: list_all_iff assms)
  then show ?thesis
    unfolding json_report_def by (intro text_json_object) (simp_all add: list_all_iff text_null)
qed

text \<open>What the program writes as JSON is JSON (RFC 8259): the form of any recorded trace,
  whatever bytes its strings and payloads hold, and the report file of the gate, for any
  printing of floating point numbers that is JSON.\<close>

lemma json_output_well_formed:
  assumes "\<And>x. json_text (fl x)"
  shows "json_text (trace_JSON t) \<and> json_text (json_report fl r)"
  by (simp only: text_trace text_report [of fl, OF assms])

end
