(* ===== verification/JsonRead.thy ===== *)
theory JsonRead
  imports JsonGrammar ContractUnique
begin

text \<open>
  A reader of JSON, and what \<open>json.Unmarshal\<close> makes of the JSON form of a trace: a list of entries
  whose fields are found under the tags of \<open>Entry\<close> (\<open>pkg/trace/recorder.go\<close>).  The reader is
  independent of the printer; the printed trace is read back exactly.
\<close>

section \<open>The reader\<close>

datatype json = JNull | JBool bool | JNum nat | JStr string | JArr "json list" | JObj "(string \<times> json) list"

definition skip_blanks :: "string \<Rightarrow> string" where
  "skip_blanks s = dropWhile (\<lambda>c. blanks [c]) s"

definition hex_val :: "char \<Rightarrow> nat" where
  "hex_val c =
     (let n = of_char c in if n < 58 then n - 48 else if n < 71 then n - 55 else n - 87)"

definition push_char :: "char \<Rightarrow> (string \<times> string) option \<Rightarrow> (string \<times> string) option" where
  "push_char c x = map_option (\<lambda>(t, r). (c # t, r)) x"

text \<open>The rest of a string after its opening quote, and what follows its closing quote.  Escapes of
  code points from 128 on, which stand for several bytes, are not read.\<close>

fun read_chars :: "string \<Rightarrow> (string \<times> string) option" where
  "read_chars [] = None"
| "read_chars (c # s) =
     (if c = dquote then Some ([], s)
      else if c = backslash then
        (case s of
           [] \<Rightarrow> None
         | e # s1 \<Rightarrow>
             if e = CHR ''u'' then
               (case s1 of
                  h1 # h2 # h3 # h4 # s2 \<Rightarrow>
                    let n = ((hex_val h1 * 16 + hex_val h2) * 16 + hex_val h3) * 16 + hex_val h4
                    in if list_all is_hex [h1, h2, h3, h4] \<and> n < 128
                       then push_char (char_of n) (read_chars s2) else None
                | _ \<Rightarrow> None)
             else if e = CHR ''b'' then push_char (CHR 0x08) (read_chars s1)
             else if e = CHR ''f'' then push_char (CHR 0x0C) (read_chars s1)
             else if e = CHR ''n'' then push_char (CHR 0x0A) (read_chars s1)
             else if e = CHR ''r'' then push_char (CHR 0x0D) (read_chars s1)
             else if e = CHR ''t'' then push_char (CHR 0x09) (read_chars s1)
             else if e \<in> {dquote, backslash, CHR ''/''} then push_char e (read_chars s1)
             else None)
      else if of_char c < (32 :: nat) then None
      else push_char c (read_chars s))"

datatype reading = Value | Elements | Members

fun cons_elem :: "json \<Rightarrow> json \<times> string \<Rightarrow> (json \<times> string) option" where
  "cons_elem v (JArr vs, r) = Some (JArr (v # vs), r)"
| "cons_elem v _ = None"

fun cons_member :: "string \<times> json \<Rightarrow> json \<times> string \<Rightarrow> (json \<times> string) option" where
  "cons_member kv (JObj kvs, r) = Some (JObj (kv # kvs), r)"
| "cons_member kv _ = None"

text \<open>One value, or the elements of an array or the members of an object up to the closing
  bracket.\<close>

partial_function (option) json_read :: "reading \<Rightarrow> string \<Rightarrow> (json \<times> string) option" where
  "json_read m s =
     (case skip_blanks s of
        [] \<Rightarrow> None
      | c # r \<Rightarrow>
          (case m of
             Value \<Rightarrow>
               if c = dquote then map_option (\<lambda>(t, r'). (JStr t, r')) (read_chars r)
               else if c = CHR ''['' then
                 (case skip_blanks r of
                    [] \<Rightarrow> None
                  | d # r' \<Rightarrow> if d = CHR '']'' then Some (JArr [], r') else json_read Elements r)
               else if c = CHR ''{'' then
                 (case skip_blanks r of
                    [] \<Rightarrow> None
                  | d # r' \<Rightarrow> if d = CHR ''}'' then Some (JObj [], r') else json_read Members r)
               else if is_digit c then
                 (if json_number (takeWhile is_digit (c # r))
                  then Some (JNum (dec_val (takeWhile is_digit (c # r))), dropWhile is_digit (c # r))
                  else None)
               else if take 4 (c # r) = ''null'' then Some (JNull, drop 4 (c # r))
               else if take 4 (c # r) = ''true'' then Some (JBool True, drop 4 (c # r))
               else if take 5 (c # r) = ''false'' then Some (JBool False, drop 5 (c # r))
               else None
           | Elements \<Rightarrow>
               Option.bind (json_read Value (c # r)) (\<lambda>(v, r1).
                 case skip_blanks r1 of
                   [] \<Rightarrow> None
                 | d # r2 \<Rightarrow>
                     if d = CHR '','' then Option.bind (json_read Elements r2) (cons_elem v)
                     else if d = CHR '']'' then Some (JArr [v], r2) else None)
           | Members \<Rightarrow>
               if c \<noteq> dquote then None
               else Option.bind (read_chars r) (\<lambda>(k, r1).
                 case skip_blanks r1 of
                   [] \<Rightarrow> None
                 | d # r2 \<Rightarrow>
                     if d \<noteq> CHR '':'' then None
                     else Option.bind (json_read Value r2) (\<lambda>(v, r3).
                       case skip_blanks r3 of
                         [] \<Rightarrow> None
                       | d' # r4 \<Rightarrow>
                           if d' = CHR '','' then Option.bind (json_read Members r4) (cons_member (k, v))
                           else if d' = CHR ''}'' then Some (JObj [(k, v)], r4) else None))))"

definition json_parse :: "string \<Rightarrow> json option" where
  "json_parse s =
     Option.bind (json_read Value s) (\<lambda>(v, r). if skip_blanks r = [] then Some v else None)"

section \<open>Unmarshalling a list of entries\<close>

text \<open>A field that is absent or null has its zero value; of two fields with one name the last
  counts; a value of another type is an error.\<close>

definition field :: "(string \<times> json) list \<Rightarrow> string \<Rightarrow> json" where
  "field kvs k = (case map_of (rev kvs) k of None \<Rightarrow> JNull | Some v \<Rightarrow> v)"

fun as_string :: "json \<Rightarrow> string option" where
  "as_string JNull = Some []"
| "as_string (JStr s) = Some s"
| "as_string _ = None"

fun as_u64 :: "json \<Rightarrow> u64 option" where
  "as_u64 JNull = Some 0"
| "as_u64 (JNum n) = (if n < 2 ^ 64 then Some (of_nat n) else None)"
| "as_u64 _ = None"

definition b64_val :: "char \<Rightarrow> nat option" where
  "b64_val c = find (\<lambda>d. b64_char d = c) [0..<64]"

text \<open>Four characters are 24 bits; the last four may end in one or two equality signs.\<close>

fun unbase64 :: "string \<Rightarrow> byte list option" where
  "unbase64 [] = Some []"
| "unbase64 (a # b # c # d # s) =
     Option.bind (b64_val a) (\<lambda>x. Option.bind (b64_val b) (\<lambda>y.
       if c = CHR ''='' \<and> d = CHR ''='' \<and> s = [] then Some [of_nat ((x * 64 + y) div 16)]
       else Option.bind (b64_val c) (\<lambda>z.
         if d = CHR ''='' \<and> s = [] then
           (let v = ((x * 64 + y) * 64 + z) div 4 in Some [of_nat (v div 256), of_nat v])
         else Option.bind (b64_val d) (\<lambda>w.
           let v = ((x * 64 + y) * 64 + z) * 64 + w
           in map_option (\<lambda>bs. of_nat (v div 65536) # of_nat (v div 256) # of_nat v # bs) (unbase64 s)))))"
| "unbase64 _ = None"

fun as_bytes :: "json \<Rightarrow> byte list option" where
  "as_bytes JNull = Some []"
| "as_bytes (JStr s) = unbase64 s"
| "as_bytes _ = None"

text \<open>The tags of \<open>Entry\<close>.\<close>

fun as_entry :: "json \<Rightarrow> trace_Entry option" where
  "as_entry (JObj kvs) =
     Option.bind (as_string (field kvs ''trace_id'')) (\<lambda>traceID.
     Option.bind (as_u64 (field kvs ''tick'')) (\<lambda>tick.
     Option.bind (as_string (field kvs ''event'')) (\<lambda>event.
     Option.bind (as_string (field kvs ''prev_hash'')) (\<lambda>prevHash.
     Option.bind (as_string (field kvs ''event_hash'')) (\<lambda>eventHash.
     Option.bind (as_string (field kvs ''node'')) (\<lambda>nodeID.
     Option.bind (as_u64 (field kvs ''seq'')) (\<lambda>seq.
     Option.bind (as_string (field kvs ''schema_id'')) (\<lambda>schemaID.
     Option.bind (as_bytes (field kvs ''payload'')) (\<lambda>payload.
       Some \<lparr>te_TraceID = traceID, te_Tick = tick, te_Event = event, te_PrevHash = prevHash,
             te_EventHash = eventHash, te_NodeID = nodeID, te_Seq = seq, te_SchemaID = schemaID,
             te_Payload = payload\<rparr>)))))))))"
| "as_entry _ = None"

fun as_entries :: "json \<Rightarrow> trace_Entry list option" where
  "as_entries (JArr vs) = those (map as_entry vs)"
| "as_entries _ = None"

section \<open>Strings, numbers and base 64 are read back\<close>

lemma hex_val_char: "d < 16 \<Longrightarrow> hex_val (hex_char d) = d"
  by (auto simp: hex_val_def of_char_hex_char Let_def)

lemma read_unicode:
  assumes "of_char c < (128 :: nat)"
  shows "read_chars (backslash # ''u00'' @ hex_of_byte (byte_of_char c) @ x) = push_char c (read_chars x)"
proof -
  have u: "unat (byte_of_char c) = of_char c" using assms by (simp add: byte_of_char_def unat_of_nat)
  have d: "(of_char c :: nat) div 16 < 16" "(of_char c :: nat) mod 16 < 16" using assms by linarith+
  note hx = is_hex_char [OF d(1)] is_hex_char [OF d(2)] hex_val_char [OF d(1)] hex_val_char [OF d(2)]
  have z: "is_hex (CHR ''0'')" "hex_val (CHR ''0'') = 0" by (simp_all add: is_hex_def hex_val_def)
  have "of_char c div 16 * 16 + of_char c mod 16 = (of_char c :: nat)" by simp
  then show ?thesis
    using assms hx z by (simp add: hex_of_byte_def u dquote_def backslash_def Let_def)
qed

lemma read_escape_ascii:
  assumes "of_char c < (128 :: nat)"
  shows "read_chars (escape_ascii c @ x) = push_char c (read_chars x)"
  using read_unicode [OF assms, of x]
  by (auto simp: escape_ascii_def dquote_def backslash_def not_less)

lemma read_json_escape: "ascii s \<Longrightarrow> read_chars (json_escape s @ dquote # r) = Some (s, r)"
proof (induction s)
  case (Cons c s)
  then show ?case
    by (simp add: ascii_def json_escape_ascii read_escape_ascii push_char_def del: json_escape.simps(2))
qed simp

lemma read_plain: "list_all plain_char s \<Longrightarrow> read_chars (s @ dquote # r) = Some (s, r)"
  by (induction s) (auto simp: plain_char_def push_char_def)

lemma b64_val_char: "d < 64 \<Longrightarrow> b64_val (b64_char d) = Some d"
proof -
  have "\<forall>d \<in> set [0..<64]. b64_val (b64_char d) = Some d" by code_simp
  then show "d < 64 \<Longrightarrow> b64_val (b64_char d) = Some d" by simp
qed

lemma b64_not_pad: "d < 64 \<Longrightarrow> b64_char d \<noteq> CHR ''=''"
proof -
  have "\<forall>d \<in> set [0..<64]. b64_char d \<noteq> CHR ''=''" by code_simp
  then show "d < 64 \<Longrightarrow> b64_char d \<noteq> CHR ''=''" by simp
qed

lemma join_digits: "v div 64 * 64 + v mod 64 = (v :: nat)"
  "v div 4096 * 64 + v div 64 mod 64 = v div 64"
  "v div 262144 * 64 + v div 4096 mod 64 = v div 4096"
proof -
  show "v div 64 * 64 + v mod 64 = v" by simp
  have "v div 4096 = v div 64 div 64" "v div 262144 = v div 4096 div 64" by (simp_all flip: div_mult2_eq)
  then show "v div 4096 * 64 + v div 64 mod 64 = v div 64"
    "v div 262144 * 64 + v div 4096 mod 64 = v div 4096" by simp_all
qed

lemma byte_times_256 [simp]: "x * 256 = (0 :: byte)"
proof -
  have "(256 :: byte) = of_nat (2 ^ LENGTH(8))" by simp
  also have "\<dots> = 0" by (simp only: word_of_nat_eq_0_iff) simp
  finally have z: "(256 :: byte) = 0" .
  show ?thesis by (simp only: z mult_zero_right)
qed

lemma div_256: "(k * 256 + unat (b :: byte)) div 256 = k"
  using unat_byte_less [of b] by simp

lemma byte_of_sum: "(of_nat (k * 256 + unat b) :: byte) = b"
  by simp

lemma unbase64_group:
  assumes "x < 64" "y < 64" "z < 64" "w < 64" and v: "((x * 64 + y) * 64 + z) * 64 + w = v"
  shows "unbase64 (b64_char x # b64_char y # b64_char z # b64_char w # s) =
    map_option (\<lambda>bs. of_nat (v div 65536) # of_nat (v div 256) # of_nat v # bs) (unbase64 s)"
  unfolding v [symmetric] using assms(1-4) by (simp add: b64_val_char b64_not_pad Let_def)

lemma unbase64_base64: "unbase64 (base64 bs) = Some bs"
proof (induction bs rule: base64.induct)
  case (2 a)
  define v where "v = unat a * 16"
  have v: "v div 64 < 64" "v mod 64 < 64" "v div 16 = unat a"
    using unat_byte_less [of a] unfolding v_def by (simp, linarith) simp_all
  have "unbase64 [b64_char (v div 64), b64_char (v mod 64), CHR ''='', CHR ''=''] = Some [a]"
    using v by (simp add: b64_val_char join_digits(1))
  then show ?case by (simp add: v_def Let_def)
next
  case (3 a b)
  define v where "v = (unat a * 256 + unat b) * 4"
  have v: "v div 4096 < 64" "v div 64 mod 64 < 64" "v mod 64 < 64" "v div 4 = unat a * 256 + unat b"
    unfolding v_def by (rule b64_bounds(1)) simp_all
  have "(unat a * 256 + unat b) div 256 = unat a" by simp
  then have "unbase64 [b64_char (v div 4096), b64_char (v div 64 mod 64), b64_char (v mod 64), CHR ''=''] = Some [a, b]"
    using v by (simp add: b64_val_char b64_not_pad join_digits byte_of_sum Let_def del: distrib_right_numeral)
  then show ?case by (simp add: v_def Let_def)
next
  case (4 a b c r)
  define v where "v = (unat a * 256 + unat b) * 256 + unat c"
  have v: "v div 262144 < 64" "v div 4096 mod 64 < 64" "v div 64 mod 64 < 64" "v mod 64 < 64"
    unfolding v_def by (rule b64_bounds(2)) simp_all
  have "v div 256 = unat a * 256 + unat b" unfolding v_def by (rule div_256)
  moreover have "v div 65536 = v div 256 div 256" by (simp flip: div_mult2_eq)
  ultimately have "(of_nat (v div 65536) :: byte) = a" "(of_nat (v div 256) :: byte) = b"
    by (simp_all add: byte_of_sum)
  moreover have "(of_nat v :: byte) = c" unfolding v_def by (rule byte_of_sum)
  moreover have "((v div 262144 * 64 + v div 4096 mod 64) * 64 + v div 64 mod 64) * 64 + v mod 64 = v"
    by (simp only: join_digits)
  note unbase64_group [OF v this, of "base64 r"]
  ultimately show ?case
    unfolding base64.simps Let_def v_def [symmetric] append.simps using 4 by (simp del: unbase64.simps)
qed simp

section \<open>The printed values are read back\<close>

lemma skip_blanks_append: "blanks w \<Longrightarrow> skip_blanks (w @ s) = skip_blanks s"
  by (induction w) (auto simp: skip_blanks_def blanks_def)

lemma skip_blanks_Cons: "skip_blanks (c # s) = (if blanks [c] then skip_blanks s else c # s)"
  by (simp add: skip_blanks_def)

lemma skip_blanks_idem [simp]: "skip_blanks (skip_blanks s) = skip_blanks s"
  by (induction s) (simp_all add: skip_blanks_def)

lemma json_read_blanks: "blanks w \<Longrightarrow> json_read m (w @ s) = json_read m s"
  by (subst (1 2) json_read.simps) (simp add: skip_blanks_append)

text \<open>\<open>reads x v\<close>: the text \<open>x\<close> is read as \<open>v\<close> wherever no digit follows it, and does not begin
  like the end of an array or object.\<close>

definition reads :: "string \<Rightarrow> json \<Rightarrow> bool" where
  "reads x v \<longleftrightarrow> (\<exists>c s. x = c # s \<and> \<not> blanks [c] \<and> c \<noteq> CHR '']'' \<and> c \<noteq> CHR ''}'') \<and>
     (\<forall>r. (r = [] \<or> \<not> is_digit (hd r)) \<longrightarrow> json_read Value (x @ r) = Some (v, r))"

lemma readsD: "reads x v \<Longrightarrow> r = [] \<or> \<not> is_digit (hd r) \<Longrightarrow> json_read Value (x @ r) = Some (v, r)"
  unfolding reads_def by blast

lemma blank_char: "blanks [c] \<longleftrightarrow> c \<in> {CHR '' '', CHR 0x09, CHR 0x0A, CHR 0x0D}"
  by (simp add: blanks_def)

lemma reads_quoted:
  assumes "\<And>r. read_chars (s @ dquote # r) = Some (t, r)"
  shows "reads ([dquote] @ s @ [dquote]) (JStr t)"
proof -
  have "\<not> blanks [dquote]" by (simp add: blank_char dquote_def)
  moreover have "json_read Value (dquote # s @ dquote # r) = Some (JStr t, r)" for r
    using calculation by (subst json_read.simps) (simp add: skip_blanks_Cons assms)
  ultimately show ?thesis by (simp add: reads_def dquote_def)
qed

lemma reads_string: "ascii s \<Longrightarrow> reads (json_string s) (JStr s)"
  unfolding json_string_def by (rule reads_quoted) (rule read_json_escape)

lemma reads_base64: "reads ([dquote] @ base64 bs @ [dquote]) (JStr (base64 bs))"
  by (rule reads_quoted) (rule read_plain [OF base64_plain])

lemma reads_u64: "reads (fmt_u64 v) (JNum (unat v))"
proof -
  obtain c s where f: "fmt_u64 v = c # s" using dec_of_nat_not_Nil by (cases "fmt_u64 v") (auto simp: fmt_u64_def)
  have digits: "\<forall>c \<in> set (fmt_u64 v). is_digit c" unfolding fmt_u64_def by (rule dec_of_nat_digits)
  then have c: "is_digit c" by (simp add: f)
  then have nc: "\<not> blanks [c]" "c \<noteq> dquote" "c \<noteq> CHR ''[''" "c \<noteq> CHR ''{''" "c \<noteq> CHR '']''" "c \<noteq> CHR ''}''"
    by (auto simp: blank_char is_digit_def dquote_def)
  have "json_read Value (fmt_u64 v @ r) = Some (JNum (unat v), r)" if "r = [] \<or> \<not> is_digit (hd r)" for r
  proof -
    have tw: "takeWhile is_digit (fmt_u64 v @ r) = fmt_u64 v" "dropWhile is_digit (fmt_u64 v @ r) = r"
      using digits that by (cases r; simp add: takeWhile_append2 dropWhile_append2)+
    have "skip_blanks (fmt_u64 v @ r) = c # (s @ r)" using nc by (simp add: f skip_blanks_Cons)
    moreover have "json_number (fmt_u64 v)" "dec_val (fmt_u64 v) = unat v"
      by (simp_all add: fmt_u64_def json_number_dec)
    ultimately show ?thesis
      using nc c tw by (subst json_read.simps) (simp add: f)
  qed
  with nc f show ?thesis by (auto simp: reads_def)
qed

lemma blanks_newline: "blanks (indent n)" "skip_blanks (indent n @ s) = skip_blanks s"
  by (simp_all add: skip_blanks_append)

lemma indent_no_digit: "\<not> is_digit (hd (indent n @ s))"
  by (simp add: indent_def newline_def is_digit_def)

lemma reads_start:
  assumes "reads x v"
  shows "\<exists>c s. skip_blanks (x @ r) = c # s \<and> x @ r = c # s \<and> c \<noteq> CHR '']'' \<and> c \<noteq> CHR ''}''"
  using assms by (auto simp: reads_def skip_blanks_Cons)

lemma json_read_Elements:
  assumes "skip_blanks s \<noteq> []"
  shows "json_read Elements s =
    Option.bind (json_read Value (skip_blanks s)) (\<lambda>(v, r1).
      case skip_blanks r1 of
        [] \<Rightarrow> None
      | d # r2 \<Rightarrow>
          if d = CHR '','' then Option.bind (json_read Elements r2) (cons_elem v)
          else if d = CHR '']'' then Some (JArr [v], r2) else None)"
  using assms by (subst json_read.simps) (cases "skip_blanks s"; simp)

lemma read_elements:
  "xs \<noteq> [] \<Longrightarrow> list_all2 reads xs vs \<Longrightarrow>
   json_read Elements (join_with '','' (map (\<lambda>x. indent k @ x) xs) @ indent n @ '']'' @ r) = Some (JArr vs, r)"
proof (induction xs arbitrary: vs)
  case (Cons x xs)
  then obtain v ws where vs: "vs = v # ws" "reads x v" "list_all2 reads xs ws" by (auto simp: list_all2_Cons1)
  show ?case
  proof (cases xs)
    case Nil
    let ?s = "indent k @ x @ indent n @ '']'' @ r"
    have sk: "skip_blanks ?s = x @ indent n @ '']'' @ r"
      using reads_start [OF vs(2), of "indent n @ '']'' @ r"] by (auto simp: blanks_newline)
    moreover have "json_read Value (x @ indent n @ '']'' @ r) = Some (v, indent n @ '']'' @ r)"
      using readsD [OF vs(2)] indent_no_digit by blast
    moreover have "skip_blanks (indent n @ '']'' @ r) = '']'' @ r"
      by (simp add: blanks_newline skip_blanks_Cons blank_char)
    moreover have "x \<noteq> []" using vs(2) by (auto simp: reads_def)
    ultimately have "json_read Elements ?s = Some (JArr [v], r)"
      by (subst json_read_Elements) simp_all
    then show ?thesis using Nil vs by simp
  next
    case (Cons y ys)
    let ?rest = "join_with '','' (map (\<lambda>x. indent k @ x) xs) @ indent n @ '']'' @ r"
    let ?s = "indent k @ x @ '','' @ ?rest"
    have sk: "skip_blanks ?s = x @ '','' @ ?rest"
      using reads_start [OF vs(2), of "'','' @ ?rest"] by (auto simp: blanks_newline)
    moreover have "json_read Value (x @ '','' @ ?rest) = Some (v, '','' @ ?rest)"
      by (rule readsD [OF vs(2)]) (simp add: is_digit_def)
    moreover have "skip_blanks ('','' @ ?rest) = '','' @ ?rest" by (simp add: skip_blanks_Cons blank_char)
    moreover have "json_read Elements ?rest = Some (JArr ws, r)"
      using Cons.IH [OF _ vs(3)] Cons by simp
    moreover have "x \<noteq> []" using vs(2) by (auto simp: reads_def)
    ultimately have "json_read Elements ?s = Some (JArr (v # ws), r)"
      by (subst json_read_Elements) simp_all
    then show ?thesis using Cons vs(1) by simp
  qed
qed simp

lemma reads_array:
  assumes "list_all2 reads xs vs"
  shows "reads (json_array n xs) (JArr vs)"
proof -
  have b: "\<not> blanks [CHR ''['']" "CHR ''['' \<noteq> dquote" by (simp_all add: blank_char dquote_def)
  have "json_read Value (json_array n xs @ r) = Some (JArr vs, r)" for r
  proof (cases "xs = []")
    case True
    then show ?thesis
      using assms b by (subst json_read.simps) (simp add: json_array_def skip_blanks_Cons blank_char)
  next
    case False
    let ?body = "join_with '','' (map (\<lambda>x. indent (n + 1) @ x) xs) @ indent n @ '']'' @ r"
    obtain x xs' v vs' where x: "xs = x # xs'" "reads x v" using assms False
      by (cases xs; cases vs) auto
    obtain t where "?body = indent (n + 1) @ x @ t" by (cases xs') (auto simp: x(1))
    then obtain c s where "skip_blanks ?body = c # s" "c \<noteq> CHR '']''"
      using reads_start [OF x(2), of t] by (auto simp: blanks_newline)
    moreover have "json_read Elements ?body = Some (JArr vs, r)" by (rule read_elements [OF False assms])
    ultimately have "json_read Value (CHR ''['' # ?body) = Some (JArr vs, r)"
      using b by (subst json_read.simps) (simp add: skip_blanks_Cons)
    then show ?thesis using False by (simp add: json_array_def)
  qed
  moreover have "\<exists>s. json_array n xs = CHR ''['' # s" by (simp add: json_array_def)
  ultimately show ?thesis using b by (auto simp: reads_def)
qed

definition reads_member :: "string \<times> string \<Rightarrow> string \<times> json \<Rightarrow> bool" where
  "reads_member kx kv \<longleftrightarrow> fst kx = fst kv \<and> ascii (fst kx) \<and> reads (snd kx) (snd kv)"

abbreviation print_member :: "nat \<Rightarrow> string \<times> string \<Rightarrow> string" where
  "print_member n kx \<equiv> (case kx of (k, v) \<Rightarrow> indent n @ json_string k @ '': '' @ v)"

text \<open>One member, followed by \<open>t\<close>.\<close>

lemma read_member:
  assumes "reads_member kx kv" and "\<not> is_digit (hd t)"
  shows "json_read Members (print_member n kx @ t) =
    (case skip_blanks t of
       [] \<Rightarrow> None
     | d # r \<Rightarrow>
         if d = CHR '','' then Option.bind (json_read Members r) (cons_member kv)
         else if d = CHR ''}'' then Some (JObj [kv], r) else None)"
proof -
  obtain k x v where k: "kx = (k, x)" "kv = (k, v)" "ascii k" "reads x v"
    using assms(1) by (cases kx; cases kv) (auto simp: reads_member_def)
  have nb: "\<not> blanks [dquote]" "\<not> blanks [CHR '':'']" by (simp_all add: blank_char dquote_def)
  have st: "skip_blanks (print_member n kx @ t) = dquote # json_escape k @ dquote # '':'' @ '' '' @ x @ t"
    using nb(1) by (simp add: k(1) json_string_def blanks_newline skip_blanks_Cons)
  have 2: "read_chars (json_escape k @ dquote # '':'' @ '' '' @ x @ t) = Some (k, '':'' @ '' '' @ x @ t)"
    by (rule read_json_escape [OF k(3)])
  have 3: "skip_blanks ('':'' @ '' '' @ x @ t) = '':'' @ '' '' @ x @ t" using nb(2) by (simp add: skip_blanks_Cons)
  have "json_read Value (x @ t) = Some (v, t)" using readsD [OF k(4)] assms(2) by blast
  then have 4: "json_read Value ('' '' @ x @ t) = Some (v, t)" by (subst json_read_blanks) simp_all
  show ?thesis
    unfolding k(2) using 2 3 4 by (subst json_read.simps, subst st) simp
qed

lemma read_members:
  "kxs \<noteq> [] \<Longrightarrow> list_all2 reads_member kxs kvs \<Longrightarrow>
   json_read Members (join_with '','' (map (print_member k) kxs) @ indent n @ ''}'' @ r) = Some (JObj kvs, r)"
proof (induction kxs arbitrary: kvs)
  case (Cons x xs)
  then obtain v ws where vs: "kvs = v # ws" "reads_member x v" "list_all2 reads_member xs ws"
    by (auto simp: list_all2_Cons1)
  show ?case
  proof (cases xs)
    case Nil
    have "skip_blanks (indent n @ ''}'' @ r) = ''}'' @ r"
      by (simp add: blanks_newline skip_blanks_Cons blank_char)
    then show ?thesis
      using read_member [OF vs(2) indent_no_digit, of k n "''}'' @ r"] Nil vs by simp
  next
    case (Cons y ys)
    let ?rest = "join_with '','' (map (print_member k) xs) @ indent n @ ''}'' @ r"
    have "json_read Members ?rest = Some (JObj ws, r)" using Cons.IH [OF _ vs(3)] Cons by simp
    moreover have "skip_blanks ('','' @ ?rest) = '','' @ ?rest" by (simp add: skip_blanks_Cons blank_char)
    moreover have "\<not> is_digit (hd ('','' @ ?rest))" by (simp add: is_digit_def)
    ultimately show ?thesis
      using read_member [OF vs(2), of "'','' @ ?rest" k] Cons vs(1) by simp
  qed
qed simp

lemma reads_object:
  assumes "list_all2 reads_member kxs kvs" and "kxs \<noteq> []"
  shows "reads (json_object n kxs) (JObj kvs)"
proof -
  have b: "\<not> blanks [CHR ''{'']" "CHR ''{'' \<noteq> dquote" by (simp_all add: blank_char dquote_def)
  have "json_read Value (json_object n kxs @ r) = Some (JObj kvs, r)" for r
  proof -
    let ?body = "join_with '','' (map (print_member (n + 1)) kxs) @ indent n @ ''}'' @ r"
    obtain k x xs' where x: "kxs = (k, x) # xs'" using assms(2) by (cases kxs) auto
    obtain t where "?body = indent (n + 1) @ json_string k @ t" by (cases xs') (auto simp: x)
    then have "\<exists>s. skip_blanks ?body = dquote # s"
      by (simp add: blanks_newline json_string_def skip_blanks_Cons blank_char dquote_def)
    moreover have "json_read Members ?body = Some (JObj kvs, r)" by (rule read_members [OF assms(2,1)])
    ultimately have "json_read Value (CHR ''{'' # ?body) = Some (JObj kvs, r)"
      using b by (subst json_read.simps) (auto simp: skip_blanks_Cons dquote_def)
    then show ?thesis by (simp add: json_object_def)
  qed
  moreover have "\<exists>s. json_object n kxs = CHR ''{'' # s" by (simp add: json_object_def)
  ultimately show ?thesis using b by (auto simp: reads_def)
qed

section \<open>The form of a trace is read back\<close>

definition ascii_entry :: "trace_Entry \<Rightarrow> bool" where
  "ascii_entry e \<longleftrightarrow> ascii (te_TraceID e) \<and> ascii (te_Event e) \<and> ascii (te_PrevHash e) \<and>
     ascii (te_EventHash e) \<and> ascii (te_NodeID e) \<and> ascii (te_SchemaID e)"

text \<open>The value of an entry, with the fields that are left out when empty.\<close>

definition string_member :: "string \<Rightarrow> string \<Rightarrow> (string \<times> json) list" where
  "string_member k v = (if v = [] then [] else [(k, JStr v)])"

definition entry_members :: "trace_Entry \<Rightarrow> (string \<times> json) list" where
  "entry_members e =
     [(''trace_id'', JStr (te_TraceID e)), (''tick'', JNum (unat (te_Tick e))), (''event'', JStr (te_Event e))] @
     string_member ''prev_hash'' (te_PrevHash e) @ string_member ''event_hash'' (te_EventHash e) @
     string_member ''node'' (te_NodeID e) @
     (if te_Seq e = 0 then [] else [(''seq'', JNum (unat (te_Seq e)))]) @
     string_member ''schema_id'' (te_SchemaID e) @
     (if te_Payload e = [] then [] else [(''payload'', JStr (base64 (te_Payload e)))])"

lemma reads_string_field:
  "ascii k \<Longrightarrow> ascii v \<Longrightarrow> list_all2 reads_member (string_field k v) (string_member k v)"
  by (simp add: string_field_def string_member_def reads_member_def reads_string)

lemma reads_entry:
  assumes "ascii_entry e"
  shows "reads (json_object n (entry_fields e)) (JObj (entry_members e))"
proof (rule reads_object)
  have keys: "ascii ''trace_id''" "ascii ''tick''" "ascii ''event''" "ascii ''prev_hash''" "ascii ''event_hash''"
    "ascii ''node''" "ascii ''seq''" "ascii ''schema_id''" "ascii ''payload''"
    by (simp_all add: ascii_def)
  show "list_all2 reads_member (entry_fields e) (entry_members e)"
    unfolding entry_fields_def entry_members_def
    using assms reads_base64 [of "te_Payload e"]
    by (intro list_all2_appendI reads_string_field keys)
      (simp_all add: ascii_entry_def reads_member_def reads_string reads_u64 keys)
qed (simp add: entry_fields_def)

lemma base64_Nil_iff: "base64 bs = [] \<longleftrightarrow> bs = []"
  by (cases bs rule: base64.cases) (simp_all add: Let_def)

lemma as_entry_members: "as_entry (JObj (entry_members e)) = Some e"
proof -
  have n: "unat w < 2 ^ 64" for w :: u64 using unat_u64_less [of w] by simp
  show ?thesis
    using n [of "te_Tick e"] n [of "te_Seq e"]
    by (simp add: entry_members_def string_member_def field_def unbase64_base64)
qed

lemma entry_members_fields:
  "distinct (map fst (entry_members e)) \<and>
   (\<forall>(k, v) \<in> set (entry_members e). k \<in> {''trace_id'', ''tick'', ''event''} \<or> v \<notin> {JStr [], JNum 0})"
  by (auto simp: entry_members_def string_member_def base64_Nil_iff unat_eq_0)

lemma those_map_Some: "(\<And>x. f (g x) = Some x) \<Longrightarrow> those (map f (map g xs)) = Some xs"
  by (induction xs) simp_all

text \<open>C30: The JSON form of a trace can be read back.  For any trace whose strings are ASCII (the
  payloads are any bytes), the text \<open>JSON\<close> returns is one JSON array of objects without duplicate
  fields, and unmarshalling it by the tags of \<open>Entry\<close> gives exactly the recorded entries, in
  order; and of the fields marked \<open>omitempty\<close> none is written that is empty or zero.\<close>

theorem trace_json_read_back:
  assumes "list_all ascii_entry (tc_steps t)"
  shows "\<exists>objs. json_parse (trace_JSON t) = Some (JArr (map JObj objs)) \<and>
    as_entries (JArr (map JObj objs)) = Some (tc_steps t) \<and>
    (\<forall>kvs \<in> set objs. distinct (map fst kvs) \<and>
       (\<forall>(k, v) \<in> set kvs. k \<in> {''trace_id'', ''tick'', ''event''} \<or> v \<notin> {JStr [], JNum 0}))"
proof -
  let ?objs = "map entry_members (tc_steps t)"
  have "list_all2 reads (map (\<lambda>e. json_object 1 (entry_fields e)) (tc_steps t)) (map JObj ?objs)"
    using assms by (auto simp: list_all2_conv_all_nth list_all_length intro: reads_entry)
  then have "reads (trace_JSON t) (JArr (map JObj ?objs))"
    unfolding trace_JSON_def by (rule reads_array)
  from readsD [OF this, of "[]"] have "json_parse (trace_JSON t) = Some (JArr (map JObj ?objs))"
    by (simp add: json_parse_def skip_blanks_def)
  moreover have "as_entries (JArr (map JObj ?objs)) = Some (tc_steps t)"
    using those_map_Some [of as_entry "\<lambda>e. JObj (entry_members e)" "tc_steps t", OF as_entry_members]
    by (simp add: comp_def)
  ultimately show ?thesis
    using entry_members_fields by (intro exI [of _ ?objs]) auto
qed

theorem trace_json_read_back_witness:
  "\<exists>v. json_parse (trace_JSON (RecordAppend (trace_New ''t'') [dquote] 3 0 [] ''h'' ''n'')) = Some v \<and>
     (case as_entries v of
        Some [e] \<Rightarrow> te_TraceID e = [dquote] \<and> te_Tick e = 3 \<and> te_EventHash e = ''h'' \<and> te_NodeID e = ''n''
      | _ \<Rightarrow> False)"
proof -
  let ?t = "RecordAppend (trace_New ''t'') [dquote] 3 0 [] ''h'' ''n''"
  have "\<exists>e. tc_steps ?t = [e] \<and> ascii_entry e \<and> te_TraceID e = [dquote] \<and> te_Tick e = 3 \<and>
      te_EventHash e = ''h'' \<and> te_NodeID e = ''n''"
    by (simp add: RecordAppend_def trace_New_def trace_Record_def ascii_entry_def ascii_def dquote_def)
  with trace_json_read_back [of ?t] show ?thesis by auto
qed

end
