(* ===== verification/Rng.thy ===== *)
theory Rng
  imports Float64 Sha256
begin

text \<open>
  The deterministic random numbers (\<open>pkg/rng/rng.go\<close>): a generator is a seed, a sample is a
  hash of its inputs read as the fraction of a double.
\<close>

record DeterministicRNG =
  rng_seed :: u64

definition rng_New :: "u64 \<Rightarrow> DeterministicRNG" where
  "rng_New seed = \<lparr>rng_seed = seed\<rparr>"

definition rng_FromClock :: "u64 \<Rightarrow> u64 \<Rightarrow> DeterministicRNG" where
  "rng_FromClock tick baseSeed = rng_New (baseSeed XOR tick)"

text \<open>The bytes written to the FNV hash.\<close>

definition rng_input :: "DeterministicRNG \<Rightarrow> string \<Rightarrow> u64 \<Rightarrow> string \<Rightarrow> byte list" where
  "rng_input r traceID tick modelID =
     put_u64_le tick @ put_u64_le (of_nat (length traceID)) @ bytes_of_string traceID @
     put_u64_le (of_nat (length modelID)) @ bytes_of_string modelID @ put_u64_le (rng_seed r)"

definition rng_word :: "DeterministicRNG \<Rightarrow> string \<Rightarrow> u64 \<Rightarrow> string \<Rightarrow> u64" where
  "rng_word r traceID tick modelID =
     (let entropy = put_u64_be (fnv64a (rng_input r traceID tick modelID));
          counter = entropy @ put_u64_le 0 @ replicate 24 0;
          h1 = sha256 counter
      in get_u64_le (take 8 h1))"

definition fraction_bits :: "u64 \<Rightarrow> u64" where
  "fraction_bits v = (v AND 0x000FFFFFFFFFFFFF) OR 0x3FF0000000000000"

text \<open>The literal \<open>0.9999999999999999\<close> is the double 1 - 2 to the -53.\<close>

definition rng_clamp :: "f64 \<Rightarrow> f64" where
  "rng_clamp f =
     (let f1 = (if f64_less f (Finite 0) then Finite 0 else f)
      in if f64_ge f1 (Finite 1) then Finite (9007199254740991 / 9007199254740992) else f1)"

definition rng_Sample :: "DeterministicRNG \<Rightarrow> string \<Rightarrow> u64 \<Rightarrow> string \<Rightarrow> f64" where
  "rng_Sample r traceID tick modelID =
     rng_clamp (f64_minus (f64_from_bits (fraction_bits (rng_word r traceID tick modelID))) (Finite 1))"

section \<open>The sample is a 52-bit fraction\<close>

lemma and_mask_52: "unat (v AND 0x000FFFFFFFFFFFFF :: u64) = unat v mod 2 ^ 52"
proof -
  have "(0x000FFFFFFFFFFFFF :: u64) = mask 52" by (simp add: mask_eq_exp_minus_1)
  then have "v AND 0x000FFFFFFFFFFFFF = take_bit 52 v" by (simp add: take_bit_eq_mask)
  then show ?thesis by (simp add: take_bit_eq_mod unat_mod)
qed

lemma unat_fraction_bits: "unat (fraction_bits v) = 1023 * 2 ^ 52 + unat v mod 2 ^ 52"
proof -
  have disj: "(v AND 0x000FFFFFFFFFFFFF) AND 0x3FF0000000000000 = (0 :: u64)"
    by (simp add: and.assoc)
  have "fraction_bits v = (v AND 0x000FFFFFFFFFFFFF) + 0x3FF0000000000000"
    unfolding fraction_bits_def by (rule disjunctive_add_eq_or [OF disj, symmetric])
  moreover have "unat (v AND 0x000FFFFFFFFFFFFF) < 2 ^ 52" unfolding and_mask_52 by simp
  ultimately show ?thesis
    using and_mask_52 [of v] by (simp add: unat_word_ariths)
qed

lemma f64_from_fraction_bits:
  "f64_from_bits (fraction_bits v) = Finite (1 + of_nat (unat v mod 2 ^ 52) / 2 ^ 52)"
proof -
  define m where "m = unat v mod 2 ^ 52"
  have m: "m < 2 ^ 52" by (simp add: m_def)
  have u: "unat (fraction_bits v) = 1023 * 2 ^ 52 + m" by (simp only: unat_fraction_bits m_def)
  have e: "unat (fraction_bits v) div 2 ^ 52 mod 2 ^ 11 = 1023" and f: "unat (fraction_bits v) mod 2 ^ 52 = m"
    and neg: "\<not> 2 ^ 63 \<le> unat (fraction_bits v)"
    using m unfolding u by (simp_all only: div_mult_self3 mod_mult_self3 mod_less div_less) simp_all
  have p: "(2 :: rat) ^ min_exp = 2 ^ 1022 * 2 ^ 52" by (simp add: min_exp_def flip: power_add)
  have "of_nat (2 ^ 52 + m) * 2 ^ (1023 - 1) / (2 :: rat) ^ min_exp = of_nat (2 ^ 52 + m) / 2 ^ 52"
    unfolding p by simp
  also have "\<dots> = 1 + of_nat m / 2 ^ 52" by (simp add: add_divide_distrib)
  finally have x: "of_nat (2 ^ 52 + m) * 2 ^ (1023 - 1) / (2 :: rat) ^ min_exp = 1 + of_nat m / 2 ^ 52" .
  show ?thesis
    unfolding f64_from_bits_def Let_def e f using neg x by (simp add: m_def)
qed

lemma fraction_minus_one:
  "f64_minus (f64_from_bits (fraction_bits v)) (Finite 1) = Finite (of_nat (unat v mod 2 ^ 52) / 2 ^ 52)"
proof -
  have "unat v mod 2 ^ 52 < 2 ^ 52" by simp
  then have "round64 (of_nat (unat v mod 2 ^ 52) / 2 ^ 52) = of_nat (unat v mod 2 ^ 52) / 2 ^ 52"
    by (intro round64_frac) (simp_all add: min_exp_def)
  then show ?thesis by (simp add: f64_from_fraction_bits f64_minus_def)
qed

lemma fraction_range: "0 \<le> of_nat (k mod 2 ^ 52) / (2 ^ 52 :: rat)" "of_nat (k mod 2 ^ 52) / (2 ^ 52 :: rat) < 1"
proof -
  have "of_nat (k mod 2 ^ 52) < (of_nat (2 ^ 52) :: rat)" by (simp only: of_nat_less_iff) simp
  then show "of_nat (k mod 2 ^ 52) / (2 ^ 52 :: rat) < 1" by simp
qed simp

lemma clamp_range: "0 \<le> x \<Longrightarrow> x < 1 \<Longrightarrow> rng_clamp (Finite x) = Finite x"
  by (simp add: rng_clamp_def f64_ge_def not_less)

lemma rng_Sample_value:
  "rng_Sample r traceID tick modelID =
     Finite (of_nat (unat (rng_word r traceID tick modelID) mod 2 ^ 52) / 2 ^ 52)"
  unfolding rng_Sample_def fraction_minus_one by (rule clamp_range) (rule fraction_range)+

text \<open>C34: A sample is exactly the low 52 bits of the hash word, read as a fraction: the bits set as
  the exponent give a double in [1, 2), subtracting 1 is exact, and neither of the two clamps
  changes the result, which lies in [0, 1).\<close>

theorem rng_sample_exact:
  "let v = rng_word r traceID tick modelID; x = of_nat (unat v mod 2 ^ 52) / 2 ^ 52;
       f = f64_minus (f64_from_bits (fraction_bits v)) (Finite 1)
   in f64_from_bits (fraction_bits v) = Finite (1 + x) \<and> f = Finite x \<and> rng_clamp f = f \<and>
      rng_Sample r traceID tick modelID = Finite x \<and> 0 \<le> x \<and> x < 1"
  unfolding Let_def fraction_minus_one rng_Sample_value
  by (intro conjI f64_from_fraction_bits refl clamp_range fraction_range)

text \<open>The bytes that are hashed determine the inputs (for strings shorter than 2 to the 64), so
  different inputs never feed the same bytes to the hash.\<close>

lemma rng_input_injective:
  assumes eq: "rng_input r traceID tick modelID = rng_input r' traceID' tick' modelID'"
    and len: "length traceID < 2 ^ 64" "length traceID' < 2 ^ 64"
      "length modelID < 2 ^ 64" "length modelID' < 2 ^ 64"
  shows "r = r' \<and> traceID = traceID' \<and> tick = tick' \<and> modelID = modelID'"
proof -
  have w: "x = y" if "(of_nat x :: u64) = of_nat y" "x < 2 ^ 64" "y < 2 ^ 64" for x y
    using unat_of_nat_u64 [OF that(2)] unat_of_nat_u64 [OF that(3)] that(1) by metis
  have inj: "put_u64_le a @ x = put_u64_le b @ y \<longleftrightarrow> a = b \<and> x = y" for a b x y
    by (metis append_eq_append_conv get_put_u64_le length_put(2))
  from eq have t: "tick = tick'" and e1: "(of_nat (length traceID) :: u64) = of_nat (length traceID')"
    and r1: "bytes_of_string traceID @ put_u64_le (of_nat (length modelID)) @ bytes_of_string modelID @ put_u64_le (rng_seed r)
      = bytes_of_string traceID' @ put_u64_le (of_nat (length modelID')) @ bytes_of_string modelID' @ put_u64_le (rng_seed r')"
    by (simp_all only: rng_input_def inj)
  from w [OF e1 len(1,2)] r1 have tr: "traceID = traceID'"
    and e2: "(of_nat (length modelID) :: u64) = of_nat (length modelID')"
    and r2: "bytes_of_string modelID @ put_u64_le (rng_seed r) = bytes_of_string modelID' @ put_u64_le (rng_seed r')"
    by (simp_all add: inj)
  from w [OF e2 len(3,4)] r2 have mo: "modelID = modelID'" and "put_u64_le (rng_seed r) @ [] = put_u64_le (rng_seed r') @ []"
    by simp_all
  then have "rng_seed r = rng_seed r'" by (simp only: inj)
  with t tr mo show ?thesis by simp
qed

end
