(* ===== verification/Byzantine.thy ===== *)
theory Byzantine
  imports Rng
begin

text \<open>
  The Byzantine network (\<open>pkg/byzantine/network.go\<close>).  Events are abstract; \<open>show_e\<close> is the
  text \<open>%v\<close> prints for one.  A panic is a value.  The nodes' mutexes guard single appends, so a
  broadcast is one step.
\<close>

section \<open>The network\<close>

record 'e byz_Node =
  bn_ID :: string
  bn_Events :: "'e list"

record 'e byz_Network =
  bz_Nodes :: "'e byz_Node list"
  bz_DropRate :: f64
  bz_Shuffle :: bool
  bz_seed :: u64
  bz_rng :: DeterministicRNG

definition byz_network :: "nat \<Rightarrow> f64 \<Rightarrow> bool \<Rightarrow> u64 \<Rightarrow> 'e byz_Network" where
  "byz_network n dropRate shuffle seed =
     \<lparr>bz_Nodes = map (\<lambda>i. \<lparr>bn_ID = ''node-'' @ dec_of_nat i, bn_Events = []\<rparr>) [0..<n],
      bz_DropRate = dropRate, bz_Shuffle = shuffle, bz_seed = seed, bz_rng = rng_New seed\<rparr>"

text \<open>A \<open>Node\<close> takes 48 bytes: a string, a slice and a mutex.\<close>

definition NewNetwork :: "i64 \<Rightarrow> f64 \<Rightarrow> bool \<Rightarrow> u64 \<Rightarrow> string + 'e byz_Network" where
  "NewNetwork n dropRate shuffle seed =
     (if make_panics 48 n then Inl makeslice_panic else Inr (byz_network (nat (sint n)) dropRate shuffle seed))"

definition shouldDeliver :: "'e byz_Network \<Rightarrow> nat \<Rightarrow> u64 \<Rightarrow> bool" where
  "shouldDeliver n nodeIndex tick =
     f64_ge (rng_Sample (bz_rng n) (bn_ID (bz_Nodes n ! nodeIndex)) tick ''delivery'') (bz_DropRate n)"

text \<open>\<open>None\<close> is the panic of an index outside the slice.\<close>

fun shuffle_loop :: "DeterministicRNG \<Rightarrow> nat \<Rightarrow> 'a list \<Rightarrow> 'a list option" where
  "shuffle_loop r 0 result = Some result"
| "shuffle_loop r (Suc i') result =
     (let i = Suc i';
          key = ''swap-'' @ dec_of_nat i;
          x = rng_Sample r key (of_nat i) ''shuffle'';
          j = f64_to_nat (f64_times (f64_of_nat i) x)
      in if i < length result \<and> j < length result then shuffle_loop r i' (list_swap result i j)
         else None)"

definition deterministicShuffle :: "DeterministicRNG \<Rightarrow> 'a list \<Rightarrow> 'a list option" where
  "deterministicShuffle r indices = shuffle_loop r (length indices - 1) indices"

fun deliver_loop :: "'e byz_Network \<Rightarrow> 'e \<Rightarrow> nat list \<Rightarrow> nat list \<Rightarrow> 'e byz_Network \<times> nat list" where
  "deliver_loop n event recipients [] = (n, recipients)"
| "deliver_loop n event recipients (i # is) =
     (if shouldDeliver n i (of_nat i) then
        let node = bz_Nodes n ! i;
            n' = n\<lparr>bz_Nodes := (bz_Nodes n)[i := node\<lparr>bn_Events := bn_Events node @ [event]\<rparr>]\<rparr>
        in deliver_loop n' event (recipients @ [i]) is
      else deliver_loop n event recipients is)"

definition deliverToNodes :: "'e byz_Network \<Rightarrow> 'e \<Rightarrow> nat list option \<times> 'e byz_Network" where
  "deliverToNodes n event =
     (let (n', recipients) = deliver_loop n event [] [0..<length (bz_Nodes n)]
      in if bz_Shuffle n' \<and> length recipients > 1 then (deterministicShuffle (bz_rng n') recipients, n')
         else (Some recipients, n'))"

definition byz_Broadcast :: "'e byz_Network \<Rightarrow> 'e \<Rightarrow> string option \<times> 'e byz_Network" where
  "byz_Broadcast n event =
     (case deliverToNodes n event of
        (None, n') \<Rightarrow> (Some ''index out of range'', n')
      | (Some delivered, n') \<Rightarrow>
          if length delivered = 0 then (Some ''byzantine: broadcast delivered to zero nodes'', n')
          else (None, n'))"

definition eventEqual :: "('e \<Rightarrow> string) \<Rightarrow> 'e \<Rightarrow> 'e \<Rightarrow> bool" where
  "eventEqual show_e a b \<longleftrightarrow> show_e a = show_e b"

text \<open>Go's sort is not stable; the order of nodes with equal ids plays no part in the result
  (see below).\<close>

definition byz_CheckConvergence :: "('e \<Rightarrow> string) \<Rightarrow> 'e byz_Node list \<Rightarrow> bool" where
  "byz_CheckConvergence show_e nodes \<longleftrightarrow>
     (if length nodes < 2 then True
      else
        let sorted = sort_key bn_ID nodes; refEvents = bn_Events (sorted ! 0)
        in list_all (\<lambda>i.
             let events = bn_Events (sorted ! i)
             in if length events \<noteq> length refEvents then False
                else list_all (\<lambda>j. eventEqual show_e (refEvents ! j) (events ! j)) [0..<length refEvents])
           [1..<length sorted])"

definition byz_Stats :: "'e byz_Network \<Rightarrow> (string \<rightharpoonup> nat)" where
  "byz_Stats n = foldl (\<lambda>stats node. stats(bn_ID node \<mapsto> length (bn_Events node))) Map.empty (bz_Nodes n)"

section \<open>The shuffle\<close>

lemma swap_partner_below:
  assumes "0 < i" and "i < 2 ^ 53"
  shows "f64_to_nat (f64_times (f64_of_nat i) (rng_Sample r key tick modelID)) < i"
proof -
  define m where "m = unat (rng_word r key tick modelID) mod 2 ^ 52"
  have v: "rng_Sample r key tick modelID = Finite (of_nat m / 2 ^ 52)"
    by (simp add: m_def rng_Sample_value)
  have "m < 2 ^ 52" by (simp add: m_def)
  then have "round64 (of_nat i * (of_nat m / 2 ^ 52)) < of_nat i"
    by (rule round64_scaled [OF assms(2,1)])
  then have "\<lfloor>round64 (of_nat i * (of_nat m / 2 ^ 52))\<rfloor> < int i"
    by (simp add: floor_less_iff)
  then show ?thesis
    using assms(1) by (simp add: v f64_of_nat_def f64_times_def f64_to_nat_def round64_nat [OF assms(2)])
qed

lemma shuffle_loop_permutes:
  "i < length xs \<or> i = 0 \<Longrightarrow> length xs < 2 ^ 53 \<Longrightarrow>
     \<exists>ys. shuffle_loop r i xs = Some ys \<and> mset ys = mset xs \<and> length ys = length xs \<and>
       (\<forall>k. i < k \<longrightarrow> ys ! k = xs ! k) \<and> (distinct xs \<longrightarrow> 0 < i \<longrightarrow> ys ! i \<noteq> xs ! i)"
proof (induction i arbitrary: xs)
  case (Suc i)
  define j where "j = f64_to_nat (f64_times (f64_of_nat (Suc i))
      (rng_Sample r (''swap-'' @ dec_of_nat (Suc i)) (of_nat (Suc i)) ''shuffle''))"
  have i: "Suc i < length xs" using Suc.prems by simp
  have j: "j < Suc i" unfolding j_def by (rule swap_partner_below) (use i Suc.prems in simp_all)
  let ?xs = "list_swap xs (Suc i) j"
  have step: "shuffle_loop r (Suc i) xs = shuffle_loop r i ?xs"
    using i j unfolding shuffle_loop.simps(2) Let_def j_def [symmetric] by simp
  have "i < length ?xs \<or> i = 0" "length ?xs < 2 ^ 53" using i Suc.prems by simp_all
  from Suc.IH [OF this] obtain ys where ys: "shuffle_loop r i ?xs = Some ys" "mset ys = mset ?xs"
    "length ys = length ?xs" "\<forall>k. i < k \<longrightarrow> ys ! k = ?xs ! k" by blast
  have "mset ys = mset xs" using ys(2) i j by simp
  moreover have "\<forall>k. Suc i < k \<longrightarrow> ys ! k = xs ! k"
    using ys(4) i j by (auto simp: list_swap_def nth_list_update)
  moreover have "distinct xs \<longrightarrow> ys ! Suc i \<noteq> xs ! Suc i"
    using ys(4) i j by (auto simp: list_swap_def nth_list_update nth_eq_iff_index_eq)
  ultimately show ?case using ys(1,3) step by simp
qed simp

text \<open>The shuffle never leaves its slice and returns a permutation of its input, for any
  slice of fewer than 2 to the 53 elements; the element in the last place never stays there, so
  not every permutation can come out.\<close>

lemma byz_shuffle_permutes:
  assumes "length xs < 2 ^ 53"
  shows "\<exists>ys. deterministicShuffle r xs = Some ys \<and> mset ys = mset xs \<and>
    (distinct xs \<longrightarrow> 2 \<le> length xs \<longrightarrow> last ys \<noteq> last xs)"
proof -
  have pre: "length xs - 1 < length xs \<or> length xs - 1 = 0" by linarith
  from shuffle_loop_permutes [OF this assms, of r] obtain ys where
    ys: "deterministicShuffle r xs = Some ys" "mset ys = mset xs" "length ys = length xs"
      "distinct xs \<longrightarrow> 0 < length xs - 1 \<longrightarrow> ys ! (length xs - 1) \<noteq> xs ! (length xs - 1)"
    by (auto simp: deterministicShuffle_def)
  have "last ys \<noteq> last xs" if "distinct xs" "2 \<le> length xs"
  proof -
    have "xs \<noteq> []" "ys \<noteq> []" using that(2) ys(3) by auto
    then show ?thesis using ys(3,4) that by (simp add: last_conv_nth)
  qed
  with ys(1,2) show ?thesis by blast
qed

section \<open>Delivery\<close>

definition receives :: "'e byz_Network \<Rightarrow> nat \<Rightarrow> bool" where
  "receives n i \<longleftrightarrow> shouldDeliver n i (of_nat i)"

definition receivers :: "'e byz_Network \<Rightarrow> nat list" where
  "receivers n = filter (receives n) [0..<length (bz_Nodes n)]"

text \<open>The network after the receivers got the events.\<close>

definition deliver_to :: "(nat \<Rightarrow> bool) \<Rightarrow> 'e list \<Rightarrow> 'e byz_Network \<Rightarrow> 'e byz_Network" where
  "deliver_to R es n = n\<lparr>bz_Nodes := map (\<lambda>i. let node = bz_Nodes n ! i
     in if R i then node\<lparr>bn_Events := bn_Events node @ es\<rparr> else node) [0..<length (bz_Nodes n)]\<rparr>"

lemma length_deliver_to [simp]: "length (bz_Nodes (deliver_to R es n)) = length (bz_Nodes n)"
  by (simp add: deliver_to_def)

lemma nth_deliver_to [simp]:
  "i < length (bz_Nodes n) \<Longrightarrow> bz_Nodes (deliver_to R es n) ! i =
     (if R i then (bz_Nodes n ! i)\<lparr>bn_Events := bn_Events (bz_Nodes n ! i) @ es\<rparr> else bz_Nodes n ! i)"
  by (simp add: deliver_to_def Let_def)

lemma receives_deliver_to [simp]:
  "i < length (bz_Nodes n) \<Longrightarrow> receives (deliver_to R es n) i \<longleftrightarrow> receives n i"
  by (simp add: receives_def shouldDeliver_def) (simp add: deliver_to_def)

lemma deliver_to_eqI:
  assumes "length X = length (bz_Nodes n)"
    and "\<And>i. i < length (bz_Nodes n) \<Longrightarrow>
      (if R i then (X ! i)\<lparr>bn_Events := bn_Events (X ! i) @ es\<rparr> else X ! i) =
      (if R' i then (bz_Nodes n ! i)\<lparr>bn_Events := bn_Events (bz_Nodes n ! i) @ es'\<rparr> else bz_Nodes n ! i)"
  shows "deliver_to R es (n\<lparr>bz_Nodes := X\<rparr>) = deliver_to R' es' n"
proof -
  have "map (\<lambda>i. let node = X ! i in if R i then node\<lparr>bn_Events := bn_Events node @ es\<rparr> else node)
      [0..<length X] =
    map (\<lambda>i. let node = bz_Nodes n ! i in if R' i then node\<lparr>bn_Events := bn_Events node @ es'\<rparr> else node)
      [0..<length (bz_Nodes n)]"
    unfolding assms(1) Let_def by (rule map_cong [OF refl]) (use assms(2) in simp)
  then show ?thesis by (simp add: deliver_to_def)
qed

lemma deliver_to_none:
  assumes "\<And>i. i < length (bz_Nodes n) \<Longrightarrow> \<not> R i \<or> es = []"
  shows "deliver_to R es n = n"
proof -
  have "map (\<lambda>i. let node = bz_Nodes n ! i in if R i then node\<lparr>bn_Events := bn_Events node @ es\<rparr> else node)
      [0..<length (bz_Nodes n)] = map (\<lambda>i. bz_Nodes n ! i) [0..<length (bz_Nodes n)]"
    by (rule map_cong [OF refl]) (use assms in \<open>auto simp: Let_def\<close>)
  then show ?thesis by (simp add: deliver_to_def map_nth)
qed

lemma deliver_loop_result:
  "js = [k..<length (bz_Nodes n)] \<Longrightarrow> deliver_loop n event rs js =
     (deliver_to (\<lambda>i. k \<le> i \<and> receives n i) [event] n, rs @ filter (receives n) js)"
proof (induction js arbitrary: n rs k)
  case Nil
  then have "length (bz_Nodes n) \<le> k" by (metis upt_eq_Nil_conv le0 le_zero_eq)
  then have "deliver_to (\<lambda>i. k \<le> i \<and> receives n i) [event] n = n"
    by (intro deliver_to_none) simp
  then show ?case by simp
next
  case (Cons j js)
  then have k: "k < length (bz_Nodes n)" "j = k" "js = [Suc k..<length (bz_Nodes n)]"
    using Cons.prems [symmetric] upt_eq_Cons_conv [of k "length (bz_Nodes n)" j js]
    unfolding Suc_eq_plus1 by blast+
  define X where "X = (bz_Nodes n)[k := (bz_Nodes n ! k)\<lparr>bn_Events := bn_Events (bz_Nodes n ! k) @ [event]\<rparr>]"
  let ?m = "n\<lparr>bz_Nodes := X\<rparr>"
  have X: "length X = length (bz_Nodes n)" by (simp add: X_def)
  have same: "receives ?m = receives n"
    using k(1) by (auto simp: fun_eq_iff receives_def shouldDeliver_def nth_list_update X_def)
  show ?case
  proof (cases "receives n k")
    case True
    have "deliver_to (\<lambda>i. Suc k \<le> i \<and> receives n i) [event] ?m = deliver_to (\<lambda>i. k \<le> i \<and> receives n i) [event] n"
    proof (rule deliver_to_eqI [OF X])
      fix i assume "i < length (bz_Nodes n)"
      then show "(if Suc k \<le> i \<and> receives n i then (X ! i)\<lparr>bn_Events := bn_Events (X ! i) @ [event]\<rparr> else X ! i) =
        (if k \<le> i \<and> receives n i then (bz_Nodes n ! i)\<lparr>bn_Events := bn_Events (bz_Nodes n ! i) @ [event]\<rparr>
         else bz_Nodes n ! i)"
        using True by (cases "i = k"; cases "k < i") (simp_all add: X_def)
    qed
    moreover have "deliver_loop n event rs (j # js) = deliver_loop ?m event (rs @ [k]) js"
      using True k by (simp add: receives_def Let_def X_def)
    ultimately show ?thesis
      using Cons.IH [of "Suc k" ?m "rs @ [k]"] True k X by (simp add: same)
  next
    case False
    have "(\<lambda>i. Suc k \<le> i \<and> receives n i) = (\<lambda>i. k \<le> i \<and> receives n i)"
      using False by (auto simp: fun_eq_iff le_eq_less_or_eq Suc_le_eq)
    moreover have "deliver_loop n event rs (j # js) = deliver_loop n event rs js"
      using False k by (simp add: receives_def)
    ultimately show ?thesis
      using Cons.IH [of "Suc k" n rs] False k by simp
  qed
qed

lemma deliverToNodes_result:
  assumes "length (bz_Nodes n) < 2 ^ 53"
  shows "\<exists>rs. deliverToNodes n event = (Some rs, deliver_to (receives n) [event] n) \<and> mset rs = mset (receivers n)"
proof -
  have loop: "deliver_loop n event [] [0..<length (bz_Nodes n)] = (deliver_to (receives n) [event] n, receivers n)"
    using deliver_loop_result [where n = n and k = 0 and event = event and rs = "[]", OF refl] by (simp add: receivers_def)
  have "length (receivers n) < 2 ^ 53"
    using assms length_filter_le [of "receives n" "[0..<length (bz_Nodes n)]"]
    by (simp add: receivers_def)
  from byz_shuffle_permutes [OF this] obtain ys where
    "deterministicShuffle (bz_rng (deliver_to (receives n) [event] n)) (receivers n) = Some ys"
    "mset ys = mset (receivers n)" by blast
  then show ?thesis by (simp add: deliverToNodes_def loop Let_def)
qed

lemma byz_Broadcast_result:
  assumes "length (bz_Nodes n) < 2 ^ 53"
  shows "byz_Broadcast n event =
    (if receivers n = [] then Some ''byzantine: broadcast delivered to zero nodes'' else None,
     deliver_to (receives n) [event] n)"
proof -
  from deliverToNodes_result [OF assms, of event] obtain rs where
    rs: "deliverToNodes n event = (Some rs, deliver_to (receives n) [event] n)" "mset rs = mset (receivers n)" by blast
  then have "length rs = length (receivers n)" by (metis size_mset)
  then show ?thesis using rs(1) by (auto simp: byz_Broadcast_def)
qed

fun broadcasts :: "'e byz_Network \<Rightarrow> 'e list \<Rightarrow> string option \<times> 'e byz_Network" where
  "broadcasts n [] = (None, n)"
| "broadcasts n (e # es) =
     (case byz_Broadcast n e of (Some p, n') \<Rightarrow> (Some p, n') | (None, n') \<Rightarrow> broadcasts n' es)"

lemma deliver_to_twice:
  "deliver_to (receives (deliver_to (receives n) [e] n)) es (deliver_to (receives n) [e] n) =
     deliver_to (receives n) (e # es) n"
proof -
  let ?m = "deliver_to (receives n) [e] n"
  have m: "?m = n\<lparr>bz_Nodes := bz_Nodes ?m\<rparr>" by (simp add: deliver_to_def)
  have "deliver_to (receives ?m) es (n\<lparr>bz_Nodes := bz_Nodes ?m\<rparr>) = deliver_to (receives n) (e # es) n"
    by (rule deliver_to_eqI) simp_all
  then show ?thesis by (simp only: m [symmetric])
qed

lemma deliver_nothing [simp]: "deliver_to R [] n = n"
  by (rule deliver_to_none) simp

lemma receivers_deliver_to [simp]: "receivers (deliver_to R es n) = receivers n"
  by (auto simp: receivers_def intro: filter_cong)

lemma broadcasts_result:
  "length (bz_Nodes n) < 2 ^ 53 \<Longrightarrow> receivers n \<noteq> [] \<Longrightarrow>
     broadcasts n es = (None, deliver_to (receives n) es n)"
proof (induction es arbitrary: n)
  case (Cons e es)
  then show ?case
    using Cons.IH [of "deliver_to (receives n) [e] n"]
    by (simp add: byz_Broadcast_result deliver_to_twice)
qed simp

section \<open>Convergence\<close>

lemma events_equal_loop:
  "(if length l \<noteq> length r then False else list_all (\<lambda>j. eventEqual f (r ! j) (l ! j)) [0..<length r]) \<longleftrightarrow>
     map f l = map f r"
proof
  assume h: "if length l \<noteq> length r then False else list_all (\<lambda>j. eventEqual f (r ! j) (l ! j)) [0..<length r]"
  then have len: "length l = length r" by (simp split: if_splits)
  with h have "\<forall>j < length r. f (r ! j) = f (l ! j)" by (simp add: list_all_iff eventEqual_def)
  with len show "map f l = map f r" by (intro nth_equalityI) simp_all
next
  assume eq: "map f l = map f r"
  then have len: "length l = length r" by (rule map_eq_imp_length_eq)
  moreover have "f (r ! j) = f (l ! j)" if "j < length r" for j
    using nth_map [of j l f] nth_map [of j r f] eq that len by simp
  ultimately show "if length l \<noteq> length r then False else list_all (\<lambda>j. eventEqual f (r ! j) (l ! j)) [0..<length r]"
    by (simp add: list_all_iff eventEqual_def)
qed

lemma byz_CheckConvergence_iff:
  "byz_CheckConvergence f nodes \<longleftrightarrow>
     (\<forall>a \<in> set nodes. \<forall>b \<in> set nodes. map f (bn_Events a) = map f (bn_Events b))"
proof (cases "length nodes < 2")
  case True
  then have "a = b" if "a \<in> set nodes" "b \<in> set nodes" for a b
    using that by (cases nodes rule: list.exhaust; cases "tl nodes") auto
  with True show ?thesis by (auto simp: byz_CheckConvergence_def)
next
  case False
  define s where "s = sort_key bn_ID nodes"
  define E where "E i = map f (bn_Events (s ! i))" for i
  have s: "set s = set nodes" "length s = length nodes" by (simp_all add: s_def)
  have "byz_CheckConvergence f nodes \<longleftrightarrow> (\<forall>i \<in> set [1..<length s]. E i = E 0)"
    using False unfolding byz_CheckConvergence_def s_def [symmetric] Let_def events_equal_loop E_def
    by (simp add: list_all_iff)
  also have "\<dots> \<longleftrightarrow> (\<forall>i < length s. E i = E 0)"
  proof (intro iffI allI impI ballI)
    fix i assume "\<forall>i \<in> set [1..<length s]. E i = E 0" "i < length s"
    then show "E i = E 0" by (cases "i = 0") simp_all
  qed simp
  also have "\<dots> \<longleftrightarrow> (\<forall>i < length s. \<forall>j < length s. E i = E j)"
  proof
    assume h: "\<forall>i < length s. E i = E 0"
    show "\<forall>i < length s. \<forall>j < length s. E i = E j"
    proof (intro allI impI)
      fix i j assume "i < length s" "j < length s"
      then have "E i = E 0" "E j = E 0" using h by blast+
      then show "E i = E j" by (rule trans [OF _ sym])
    qed
  next
    assume h: "\<forall>i < length s. \<forall>j < length s. E i = E j"
    have "0 < length s" using False s(2) by linarith
    with h show "\<forall>i < length s. E i = E 0" by blast
  qed
  also have "\<dots> \<longleftrightarrow> (\<forall>a \<in> set s. \<forall>b \<in> set s. map f (bn_Events a) = map f (bn_Events b))"
    unfolding all_set_conv_all_nth E_def ..
  finally show ?thesis by (simp only: s(1))
qed

lemma nodes_deliver_to:
  "set (bz_Nodes (deliver_to R es n)) =
     (\<lambda>i. if R i then (bz_Nodes n ! i)\<lparr>bn_Events := bn_Events (bz_Nodes n ! i) @ es\<rparr> else bz_Nodes n ! i)
       ` {..<length (bz_Nodes n)}"
  by (auto simp: deliver_to_def Let_def image_iff)

text \<open>C36: Whether a node receives a broadcast depends on the node alone, not on the event: a run
  of broadcasts panics at the first one when no node receives, and otherwise every node receives
  all of the events, in order, or none of them.  So a network of nodes without events that
  survives at least one broadcast converges exactly when every node receives.\<close>

theorem byz_all_or_nothing:
  assumes "length (bz_Nodes n) < 2 ^ 53" and "es \<noteq> []"
  shows "(\<forall>i < length (bz_Nodes n). \<not> receives n i) \<and>
      fst (broadcasts n es) = Some ''byzantine: broadcast delivered to zero nodes'' \<or>
    (\<exists>i < length (bz_Nodes n). receives n i) \<and> fst (broadcasts n es) = None \<and>
    (\<forall>i < length (bz_Nodes n). bn_Events (bz_Nodes (snd (broadcasts n es)) ! i) =
       bn_Events (bz_Nodes n ! i) @ (if receives n i then es else [])) \<and>
    ((\<forall>node \<in> set (bz_Nodes n). bn_Events node = []) \<longrightarrow>
       (byz_CheckConvergence show_e (bz_Nodes (snd (broadcasts n es))) \<longleftrightarrow>
          (\<forall>i < length (bz_Nodes n). receives n i)))"
proof (cases "receivers n = []")
  case True
  obtain e es' where es: "es = e # es'" using assms(2) by (cases es) auto
  have "\<forall>i < length (bz_Nodes n). \<not> receives n i" using True by (auto simp: receivers_def filter_empty_conv)
  moreover have "fst (broadcasts n es) = Some ''byzantine: broadcast delivered to zero nodes''"
    using True by (simp add: es byz_Broadcast_result [OF assms(1)])
  ultimately show ?thesis by blast
next
  case False
  then have some: "\<exists>i < length (bz_Nodes n). receives n i" by (auto simp: receivers_def filter_empty_conv)
  note run = broadcasts_result [OF assms(1) False, of es]
  have "byz_CheckConvergence show_e (bz_Nodes (deliver_to (receives n) es n)) \<longleftrightarrow>
      (\<forall>i < length (bz_Nodes n). receives n i)"
    if empty: "\<forall>node \<in> set (bz_Nodes n). bn_Events node = []"
  proof -
    have ev: "bn_Events (bz_Nodes (deliver_to (receives n) es n) ! i) = (if receives n i then es else [])"
      if "i < length (bz_Nodes n)" for i
      using that empty by simp
    show ?thesis
      unfolding byz_CheckConvergence_iff all_set_conv_all_nth length_deliver_to
      using some ev assms(2) by (smt (verit) Nil_is_map_conv)
  qed
  with run some show ?thesis by simp
qed

definition one_node :: "nat byz_Network" where
  "one_node = byz_network 1 (Finite 0) True 7"

theorem byz_all_or_nothing_witness:
  "fst (broadcasts one_node [5, 6]) = None \<and>
   bn_Events (bz_Nodes (snd (broadcasts one_node [5, 6])) ! 0) = [5, 6]"
proof -
  have len: "length (bz_Nodes one_node) = 1" by (simp add: one_node_def byz_network_def)
  then have small: "length (bz_Nodes one_node) < 2 ^ 53" by simp
  have r: "receives one_node 0"
    by (simp add: receives_def shouldDeliver_def rng_Sample_value f64_ge_def one_node_def byz_network_def)
  have start: "bn_Events (bz_Nodes one_node ! 0) = []" by (simp add: one_node_def byz_network_def)
  from byz_all_or_nothing [OF small, of "[5, 6]" dec_of_nat] r len start show ?thesis by auto
qed

end
