(* ===== verification/ByzantineSpec.thy ===== *)
theory ByzantineSpec
  imports Byzantine
begin

text \<open>
  The transition system that \<open>BuildByzantineSpec\<close> of \<open>pkg/formal/spec.go\<close> states for the
  Byzantine network, read literally, and its relation to the code of
  \<open>pkg/byzantine/network.go\<close>.  The nodes are the numbers below \<open>N\<close>.
\<close>

section \<open>The specification\<close>

record 'e AbsNet =
  an_nodes :: "nat \<Rightarrow> 'e list"
  an_delivered :: "nat \<Rightarrow> bool"

definition absnet_Init :: "'e AbsNet" where
  "absnet_Init = \<lparr>an_nodes = (\<lambda>_. []), an_delivered = (\<lambda>_. False)\<rparr>"

text \<open>The action \<open>Broadcast\<close>, conjunct by conjunct.  Taking away the empty set as a set of subsets
  takes away nothing, so the subset may be empty; the operator \<open>Delivered\<close> is declared nowhere and
  is a parameter; and every member of the subset asks for the next value of the whole function
  \<open>nodes\<close>.\<close>

definition absnet_Broadcast :: "(nat \<Rightarrow> bool) \<Rightarrow> nat \<Rightarrow> 'e \<Rightarrow> 'e AbsNet \<Rightarrow> 'e AbsNet \<Rightarrow> bool" where
  "absnet_Broadcast Delivered N e s s' \<longleftrightarrow>
     (\<exists>subset \<in> Pow {..<N}.
        let dropped = {..<N} - subset
        in (\<forall>n \<in> dropped. Delivered n = False) \<and>
           (\<forall>n \<in> subset. an_nodes s' = (an_nodes s)(n := an_nodes s n @ [e])) \<and>
           (\<forall>n < N. an_delivered s' n \<longleftrightarrow> n \<in> subset))"

inductive absnet_run :: "(nat \<Rightarrow> bool) \<Rightarrow> nat \<Rightarrow> 'e AbsNet \<Rightarrow> 'e list \<Rightarrow> 'e AbsNet \<Rightarrow> bool" for D N where
  start: "absnet_run D N s [] s"
| step: "absnet_Broadcast D N e s s1 \<Longrightarrow> absnet_run D N s1 es s2 \<Longrightarrow> absnet_run D N s (e # es) s2"

text \<open>\<open>INV_Convergence\<close>: nodes with equally many events have the same events.\<close>

definition INV_Convergence :: "nat \<Rightarrow> (nat \<Rightarrow> 'e list) \<Rightarrow> bool" where
  "INV_Convergence N ns \<longleftrightarrow> (\<forall>i < N. \<forall>j < N. length (ns i) = length (ns j) \<longrightarrow>
     (\<forall>k < length (ns i). ns i ! k = ns j ! k))"

lemma INV_ConvergenceD:
  "INV_Convergence N ns \<Longrightarrow> i < N \<Longrightarrow> j < N \<Longrightarrow> length (ns i) = length (ns j) \<Longrightarrow> k < length (ns i) \<Longrightarrow>
   ns i ! k = ns j ! k"
  unfolding INV_Convergence_def by blast

section \<open>The code against the specification\<close>

definition nodes_of :: "'e byz_Network \<Rightarrow> nat \<Rightarrow> 'e list" where
  "nodes_of n i = (if i < length (bz_Nodes n) then bn_Events (bz_Nodes n ! i) else [])"

lemma nodes_of_deliver_to:
  "nodes_of (deliver_to R es n) =
     (\<lambda>i. if i \<in> {i. i < length (bz_Nodes n) \<and> R i} then nodes_of n i @ es else nodes_of n i)"
  by (auto simp: nodes_of_def fun_eq_iff)

text \<open>A step of the specification with two receivers does not exist: the two updates of \<open>nodes\<close>
  contradict each other.\<close>

lemma absnet_two_receivers:
  assumes "i \<noteq> j" and "f = g(i := g i @ [e])" and "f = g(j := g j @ [e])"
  shows False
proof -
  have "f i = g i @ [e]" by (subst assms(2)) simp
  moreover have "f i = g i" by (subst assms(3)) (simp add: assms(1))
  ultimately show False by simp
qed

lemma absnet_Broadcast_iff:
  assumes "R \<subseteq> {..<N}" and "R \<noteq> {}"
  shows "absnet_Broadcast D N e \<lparr>an_nodes = f, an_delivered = d\<rparr> \<lparr>an_nodes = (\<lambda>i. if i \<in> R then f i @ [e] else f i),
      an_delivered = (\<lambda>i. i \<in> R)\<rparr> \<longleftrightarrow> (\<exists>i. R = {i} \<and> (\<forall>j < N. j \<noteq> i \<longrightarrow> \<not> D j))"
    (is "?spec \<longleftrightarrow> ?one")
proof
  assume ?spec
  then obtain S where S: "S \<subseteq> {..<N}" "\<forall>n \<in> {..<N} - S. \<not> D n"
      "\<forall>n \<in> S. (\<lambda>i. if i \<in> R then f i @ [e] else f i) = f(n := f n @ [e])"
      "\<forall>n < N. n \<in> R \<longleftrightarrow> n \<in> S"
    by (auto simp: absnet_Broadcast_def Let_def)
  then have "S = R" using assms(1) by blast
  obtain i where i: "i \<in> R" using assms(2) by blast
  have "j = i" if "j \<in> R" for j
  proof (rule ccontr)
    assume "j \<noteq> i"
    moreover have "i \<in> S" "j \<in> S" using that i \<open>S = R\<close> by simp_all
    ultimately show False using absnet_two_receivers [OF _ bspec [OF S(3)] bspec [OF S(3)]] by blast
  qed
  with i have "R = {i}" by blast
  with S(2) \<open>S = R\<close> show ?one by blast
next
  assume ?one
  then obtain i where i: "R = {i}" "\<forall>j < N. j \<noteq> i \<longrightarrow> \<not> D j" by blast
  have "(\<lambda>k. if k \<in> R then f k @ [e] else f k) = f(i := f i @ [e])"
    by (auto simp: i(1) fun_eq_iff)
  then show ?spec
    unfolding absnet_Broadcast_def Let_def using assms(1) i by (intro bexI [of _ R]) auto
qed

lemma nodes_of_new: "nodes_of (byz_network N rate shuffle seed) = (\<lambda>_. [])"
  by (auto simp: nodes_of_def byz_network_def fun_eq_iff)

text \<open>C35: The code against the repository's specification of the network.  Take any run of
  broadcasts on a new network that has not panicked, and a further broadcast.  It appends the event
  at its recipients and nowhere else; this is a step of the specification as it is written exactly
  when there is a single recipient (and \<open>Delivered\<close> is false for the other nodes), because the
  action asks every recipient for a different value of \<open>nodes\<close>; and its result satisfies the
  specification's \<open>INV_Convergence\<close>.\<close>

theorem byz_against_spec:
  fixes es :: "'e list"
  assumes "NewNetwork k rate shuffle seed = Inr net"
    and "broadcasts net es = (None, n)" and "deliverToNodes n e = (Some rs, n')" and "rs \<noteq> []"
  shows "nodes_of n' = (\<lambda>i. if i \<in> set rs then nodes_of n i @ [e] else nodes_of n i) \<and>
    (absnet_Broadcast D (nat (sint k)) e \<lparr>an_nodes = nodes_of n, an_delivered = d\<rparr>
        \<lparr>an_nodes = nodes_of n', an_delivered = (\<lambda>i. i \<in> set rs)\<rparr> \<longleftrightarrow>
      (\<exists>i. rs = [i] \<and> (\<forall>j < nat (sint k). j \<noteq> i \<longrightarrow> \<not> D j))) \<and>
    INV_Convergence (nat (sint k)) (nodes_of n')"
proof -
  let ?N = "nat (sint k)"
  have net: "net = byz_network ?N rate shuffle seed" using assms(1) by (auto simp: NewNetwork_def split: if_splits)
  have k: "sint k * 48 \<le> 2 ^ 48" using assms(1) by (auto simp: NewNetwork_def make_panics_def split: if_splits)
  have len: "length (bz_Nodes net) = ?N" by (simp add: net byz_network_def)
  have small: "length (bz_Nodes net) < 2 ^ 53" using k by (simp add: len)
  have n: "n = deliver_to (receives net) es net"
  proof (cases es)
    case (Cons x xs)
    have "fst (byz_Broadcast net x) = None" using assms(2) Cons by (auto split: prod.splits option.splits)
    then have "receivers net \<noteq> []" using byz_Broadcast_result [OF small, of x] by auto
    then show ?thesis using broadcasts_result [OF small, of es] assms(2) by simp
  qed (use assms(2) in simp)
  then have lenn: "length (bz_Nodes n) = ?N" using len by simp
  then have smalln: "length (bz_Nodes n) < 2 ^ 53" using small len by simp
  from deliverToNodes_result [OF this, of e] assms(3)
  have n': "n' = deliver_to (receives n) [e] n" and rs: "mset rs = mset (receivers n)" by auto
  from rs have set: "set rs = {i. i < ?N \<and> receives n i}" and dist: "distinct rs"
    using mset_eq_setD [OF rs] mset_eq_imp_distinct_iff [OF rs] by (auto simp: receivers_def lenn)
  have nodes: "nodes_of n' = (\<lambda>i. if i \<in> set rs then nodes_of n i @ [e] else nodes_of n i)"
    unfolding n' nodes_of_deliver_to set lenn by simp
  have single: "set rs = {i} \<longleftrightarrow> rs = [i]" for i
    using dist by (cases rs; cases "tl rs") auto
  have "absnet_Broadcast D ?N e \<lparr>an_nodes = nodes_of n, an_delivered = d\<rparr>
      \<lparr>an_nodes = nodes_of n', an_delivered = (\<lambda>i. i \<in> set rs)\<rparr> \<longleftrightarrow>
      (\<exists>i. rs = [i] \<and> (\<forall>j < ?N. j \<noteq> i \<longrightarrow> \<not> D j))"
  proof -
    have "set rs \<subseteq> {..<?N}" "set rs \<noteq> {}" unfolding set_empty using set assms(4) by auto
    from absnet_Broadcast_iff [OF this, of D e "nodes_of n" d] show ?thesis by (simp only: nodes single)
  qed
  moreover have "nodes_of n' i = (if i < ?N \<and> receives net i then es @ [e] else [])" for i
    using len by (auto simp: nodes set n nodes_of_deliver_to) (auto simp: net nodes_of_new)
  then have "INV_Convergence ?N (nodes_of n')" by (auto simp: INV_Convergence_def)
  ultimately show ?thesis using nodes by blast
qed

theorem byz_against_spec_witness:
  "\<exists>net n n'. NewNetwork 1 (Finite 0) False 7 = Inr net \<and> broadcasts net [5] = (None, n) \<and>
     deliverToNodes n (6 :: nat) = (Some [0], n') \<and>
     absnet_Broadcast (\<lambda>_. True) 1 6 \<lparr>an_nodes = nodes_of n, an_delivered = \<lambda>_. False\<rparr>
       \<lparr>an_nodes = nodes_of n', an_delivered = (\<lambda>i. i = 0)\<rparr> \<and> INV_Convergence 1 (nodes_of n')"
proof -
  let ?net = "byz_network 1 (Finite 0) False 7 :: nat byz_Network"
  have net: "NewNetwork 1 (Finite 0) False 7 = Inr ?net" by (simp add: NewNetwork_def make_panics_def)
  have "receives ?net 0"
    by (simp add: receives_def shouldDeliver_def rng_Sample_value f64_ge_def byz_network_def)
  then have r: "receivers ?net = [0]" by (simp add: receivers_def byz_network_def)
  have small: "length (bz_Nodes ?net) < 2 ^ 53" by (simp add: byz_network_def)
  define n where "n = deliver_to (receives ?net) [5] ?net"
  have run: "broadcasts ?net [5] = (None, n)" using broadcasts_result [OF small, of "[5]"] r by (simp add: n_def)
  have "length (bz_Nodes n) < 2 ^ 53" using small by (simp add: n_def)
  from deliverToNodes_result [OF this, of 6] obtain rs n' where
    d: "deliverToNodes n 6 = (Some rs, n')" "mset rs = mset (receivers n)" by blast
  have "receivers n = [0]" unfolding n_def receivers_deliver_to by (rule r)
  with d(2) have "rs = [0]" by simp
  with byz_against_spec [OF net run d(1), of "\<lambda>_. True" "\<lambda>_. False", THEN conjunct2]
  have "absnet_Broadcast (\<lambda>_. True) 1 6 \<lparr>an_nodes = nodes_of n, an_delivered = \<lambda>_. False\<rparr>
      \<lparr>an_nodes = nodes_of n', an_delivered = (\<lambda>i. i = 0)\<rparr> \<and> INV_Convergence 1 (nodes_of n')" by simp
  with net run d(1) \<open>rs = [0]\<close> show ?thesis by blast
qed

text \<open>The specification itself does not keep \<open>INV_Convergence\<close>: it may send one event to one node
  and the next event to another.\<close>

lemma spec_breaks_INV_Convergence:
  "\<exists>t. absnet_run (\<lambda>_. False) 2 absnet_Init [1, 2 :: nat] t \<and> \<not> INV_Convergence 2 (an_nodes t)"
proof -
  let ?t1 = "\<lparr>an_nodes = (\<lambda>_. [])(0 := [1 :: nat]), an_delivered = (\<lambda>i. i = 0)\<rparr>"
  let ?t2 = "\<lparr>an_nodes = (\<lambda>_. [])(0 := [1 :: nat], 1 := [2]), an_delivered = (\<lambda>i. i = 1)\<rparr>"
  have "absnet_Broadcast (\<lambda>_. False) 2 1 absnet_Init ?t1"
    unfolding absnet_Broadcast_def Let_def by (rule bexI [of _ "{0}"]) (auto simp: absnet_Init_def)
  moreover have "absnet_Broadcast (\<lambda>_. False) 2 2 ?t1 ?t2"
    unfolding absnet_Broadcast_def Let_def by (rule bexI [of _ "{1}"]) auto
  ultimately have "absnet_run (\<lambda>_. False) 2 absnet_Init [1, 2] ?t2"
    by (rule absnet_run.step [OF _ absnet_run.step [OF _ absnet_run.start]])
  moreover have "\<not> INV_Convergence 2 (an_nodes ?t2)"
  proof
    assume "INV_Convergence 2 (an_nodes ?t2)"
    then have "an_nodes ?t2 0 ! 0 = an_nodes ?t2 1 ! 0" by (rule INV_ConvergenceD) simp_all
    then show False by simp
  qed
  ultimately show ?thesis by blast
qed

end
