(* ===== verification/Stress.thy ===== *)
theory Stress
  imports Float64 Sha256
begin

text \<open>
  The stress engine (\<open>pkg/stress/stress.go\<close>).  Nodes are pointers in the code and
  \<open>CheckNoSplitBrain\<close> compares them as pointers, so a network is a list of addresses and a
  store.  Rates are doubles; the comparisons round as the machine does.
\<close>

section \<open>Configuration, nodes, network\<close>

record StressConfig =
  sc_Nodes :: i64
  sc_Events :: i64
  sc_CrashRate :: f64
  sc_PartitionRate :: f64
  sc_ByzantineRate :: f64

text \<open>The literals are the doubles nearest to 0.05, 0.02 and 0.1.\<close>

definition stress_DefaultConfig :: StressConfig where
  "stress_DefaultConfig =
     \<lparr>sc_Nodes = 5, sc_Events = 1000, sc_CrashRate = Finite (round64 (5 / 100)),
      sc_PartitionRate = Finite (round64 (2 / 100)), sc_ByzantineRate = Finite (round64 (1 / 10))\<rparr>"

record StressEvent =
  sv_Seq :: u64
  sv_TraceID :: string
  sv_EventHash :: string
  sv_PrevHash :: string
  sv_Byzantine :: bool

record stress_Node =
  sd_ID :: string
  sd_Events :: "StressEvent list"
  sd_Crashed :: bool

type_synonym node_store = "nat \<Rightarrow> stress_Node"

record ByzantineNetwork =
  bw_Nodes :: "nat list"
  bw_store :: node_store
  bw_ByzantineRate :: f64
  bw_PartitionActive :: bool

definition stress_network :: "nat \<Rightarrow> f64 \<Rightarrow> ByzantineNetwork" where
  "stress_network n byzantineRate =
     \<lparr>bw_Nodes = [0..<n],
      bw_store = (\<lambda>i. \<lparr>sd_ID = ''node-'' @ dec_of_nat i, sd_Events = [], sd_Crashed = False\<rparr>),
      bw_ByzantineRate = byzantineRate, bw_PartitionActive = False\<rparr>"

text \<open>The slice holds pointers.\<close>

definition NewByzantineNetwork :: "i64 \<Rightarrow> f64 \<Rightarrow> string + ByzantineNetwork" where
  "NewByzantineNetwork n byzantineRate =
     (if make_panics 8 n then Inl makeslice_panic else Inr (stress_network (nat (sint n)) byzantineRate))"

section \<open>Deterministic coins\<close>

definition coin :: "string \<Rightarrow> f64 \<Rightarrow> u64 \<Rightarrow> bool" where
  "coin prefix rate tick \<longleftrightarrow>
     (let h = sha256 (bytes_of_string (prefix @ fmt_u64 tick));
          v = ucast (h ! 0) OR push_bit 8 (ucast (h ! 1)) :: u64
      in f64_less (f64_divide (f64_of_nat (unat (v mod 1000))) (f64_of_nat 1000)) rate)"

definition ShouldCrash :: "f64 \<Rightarrow> u64 \<Rightarrow> bool" where
  "ShouldCrash crashRate tick = coin ''crash-'' crashRate tick"

definition ShouldPartition :: "f64 \<Rightarrow> u64 \<Rightarrow> bool" where
  "ShouldPartition partitionRate tick = coin ''partition-'' partitionRate tick"

definition ShouldBeByzantine :: "f64 \<Rightarrow> u64 \<Rightarrow> bool" where
  "ShouldBeByzantine byzantineRate tick = coin ''byzantine-'' byzantineRate tick"

section \<open>Operations\<close>

primrec stress_bcast_loop :: "StressEvent \<Rightarrow> nat list \<Rightarrow> node_store \<Rightarrow> node_store" where
  "stress_bcast_loop e [] h = h"
| "stress_bcast_loop e (p # ps) h =
     stress_bcast_loop e ps
       (if \<not> sd_Crashed (h p) then h(p := (h p)\<lparr>sd_Events := sd_Events (h p) @ [e]\<rparr>) else h)"

definition stress_Broadcast :: "ByzantineNetwork \<Rightarrow> StressEvent \<Rightarrow> ByzantineNetwork" where
  "stress_Broadcast bn e = bn\<lparr>bw_store := stress_bcast_loop e (bw_Nodes bn) (bw_store bn)\<rparr>"

primrec restart_loop :: "nat list \<Rightarrow> node_store \<Rightarrow> node_store" where
  "restart_loop [] h = h"
| "restart_loop (p # ps) h =
     (if sd_Crashed (h p) then h(p := (h p)\<lparr>sd_Crashed := False\<rparr>) else restart_loop ps h)"

definition RestartRandomNode :: "ByzantineNetwork \<Rightarrow> ByzantineNetwork" where
  "RestartRandomNode bn = bn\<lparr>bw_store := restart_loop (bw_Nodes bn) (bw_store bn)\<rparr>"

definition stress_Partition :: "ByzantineNetwork \<Rightarrow> ByzantineNetwork" where
  "stress_Partition bn = bn\<lparr>bw_PartitionActive := True\<rparr>"

definition HealPartition :: "ByzantineNetwork \<Rightarrow> ByzantineNetwork" where
  "HealPartition bn = bn\<lparr>bw_PartitionActive := False\<rparr>"

section \<open>Checks\<close>

primrec is_leader :: "node_store \<Rightarrow> nat \<Rightarrow> nat list \<Rightarrow> bool" where
  "is_leader h candidate [] = True"
| "is_leader h candidate (other # ps) =
     (if candidate = other then is_leader h candidate ps
      else if length (sd_Events (h other)) \<ge> length (sd_Events (h candidate)) then False
      else is_leader h candidate ps)"

definition stress_CheckNoSplitBrain :: "node_store \<Rightarrow> nat list \<Rightarrow> bool" where
  "stress_CheckNoSplitBrain h nodes \<longleftrightarrow>
     (if length nodes = 0 then True
      else foldl (\<lambda>leaders c. if is_leader h c nodes then leaders + 1 else leaders) (0 :: nat) nodes \<le> 1)"

definition CheckReplayEquivalence :: "node_store \<Rightarrow> nat list \<Rightarrow> bool" where
  "CheckReplayEquivalence h nodes \<longleftrightarrow>
     (let liveNodes = filter (\<lambda>p. \<not> sd_Crashed (h p) \<and> length (sd_Events (h p)) > 0) nodes
      in if length liveNodes < 2 then True
         else
           let ref = sd_Events (h (liveNodes ! 0))
           in list_all (\<lambda>p.
                let es = sd_Events (h p)
                in if length es \<noteq> length ref then False
                   else list_all (\<lambda>i. sv_EventHash (es ! i) = sv_EventHash (ref ! i)) [0..<length es])
              (tl liveNodes))"

text \<open>The loop over the map of counts only looks for a bad count, so its order plays no part.\<close>

definition count_seqs :: "u64 list \<Rightarrow> (u64 \<Rightarrow> nat)" where
  "count_seqs qs = foldl (\<lambda>m q. m(q := m q + 1)) (\<lambda>_. 0) qs"

definition stress_CheckConvergence :: "node_store \<Rightarrow> nat list \<Rightarrow> bool" where
  "stress_CheckConvergence h nodes \<longleftrightarrow>
     (let seqs = concat (map (\<lambda>p. if \<not> sd_Crashed (h p) then map sv_Seq (sd_Events (h p)) else []) nodes);
          eventCounts = count_seqs seqs;
          liveNodes = foldl (\<lambda>k p. if \<not> sd_Crashed (h p) then k + 1 else k) 0 nodes
      in list_all (\<lambda>q. \<not> (eventCounts q \<noteq> liveNodes \<and> eventCounts q > 0)) (remdups seqs))"

section \<open>The long-term run\<close>

primrec crash_loop :: "nat list \<Rightarrow> node_store \<Rightarrow> node_store" where
  "crash_loop [] h = h"
| "crash_loop (p # ps) h =
     (if \<not> sd_Crashed (h p) then h(p := (h p)\<lparr>sd_Crashed := True\<rparr>) else crash_loop ps h)"

text \<open>The hash text is \<open>fmt.Sprintf("%064d", ...)\<close> of a 64-bit value.\<close>

definition stress_hash :: "int \<Rightarrow> string" where
  "stress_hash i = pad_zero 64 (fmt_u64 (of_int (i * 31337 + 0x9e3779b9)))"

definition stress_event :: "StressConfig \<Rightarrow> nat \<Rightarrow> StressEvent" where
  "stress_event cfg i =
     \<lparr>sv_Seq = of_nat i, sv_TraceID = ''trace-main'', sv_EventHash = stress_hash (int i),
      sv_PrevHash = (if i = 0 then [] else stress_hash (int i - 1)),
      sv_Byzantine = ShouldBeByzantine (sc_ByzantineRate cfg) (of_nat i)\<rparr>"

definition stress_turn :: "StressConfig \<Rightarrow> nat \<Rightarrow> ByzantineNetwork \<Rightarrow> ByzantineNetwork" where
  "stress_turn cfg i net =
     (let tick = of_nat i;
          net1 = (if ShouldCrash (sc_CrashRate cfg) tick
                  then net\<lparr>bw_store := crash_loop (bw_Nodes net) (bw_store net)\<rparr> else net);
          net2 = (if ShouldPartition (sc_PartitionRate cfg) tick then stress_Partition net1
                  else HealPartition net1)
      in if \<not> bw_PartitionActive net2 then stress_Broadcast net2 (stress_event cfg i) else net2)"

fun stress_loop :: "StressConfig \<Rightarrow> nat list \<Rightarrow> ByzantineNetwork \<Rightarrow> string option" where
  "stress_loop cfg [] net = None"
| "stress_loop cfg (i # is) net =
     (let net' = stress_turn cfg i net
      in if \<not> stress_CheckNoSplitBrain (bw_store net') (bw_Nodes net')
         then Some (''INV_NoSplitBrain violated at event '' @ dec_of_nat i)
         else if \<not> CheckReplayEquivalence (bw_store net') (bw_Nodes net')
         then Some (''INV_ReplayEquiv violated at event '' @ dec_of_nat i)
         else if \<not> stress_CheckConvergence (bw_store net') (bw_Nodes net')
         then Some (''INV_Convergence violated at event '' @ dec_of_nat i)
         else stress_loop cfg is net')"

text \<open>A panic, or the error returned, if any.  The loop does not run for a negative number of
  events.\<close>

definition RunLongTerm :: "StressConfig \<Rightarrow> string + string option" where
  "RunLongTerm cfg =
     (case NewByzantineNetwork (sc_Nodes cfg) (sc_ByzantineRate cfg) of
        Inl panic \<Rightarrow> Inl panic
      | Inr net \<Rightarrow> Inr (stress_loop cfg [0..<nat (sint (sc_Events cfg))] net))"

definition GlobalConvergenceAchieved :: bool where
  "GlobalConvergenceAchieved = True"

section \<open>What the checks decide\<close>

lemma is_leader_iff:
  "is_leader h c ps \<longleftrightarrow> (\<forall>p \<in> set ps. p \<noteq> c \<longrightarrow> length (sd_Events (h p)) < length (sd_Events (h c)))"
  by (induction ps) auto

lemma count_leaders: "foldl (\<lambda>k c. if P c then k + 1 else k) (n :: nat) ps = n + length (filter P ps)"
  by (induction ps arbitrary: n) auto

text \<open>On different nodes the split-brain check cannot fail: two strict maxima would exceed each
  other.\<close>

lemma no_split_brain_vacuous:
  assumes "distinct nodes"
  shows "stress_CheckNoSplitBrain h nodes"
proof -
  have "length (filter (\<lambda>c. is_leader h c nodes) nodes) \<le> 1"
  proof (rule ccontr)
    assume "\<not> ?thesis"
    then have len: "1 < length (filter (\<lambda>c. is_leader h c nodes) nodes)" by simp
    let ?l = "filter (\<lambda>c. is_leader h c nodes) nodes"
    have "?l ! 0 \<in> set ?l" by (rule nth_mem) (use len in linarith)
    moreover have "?l ! 1 \<in> set ?l" by (rule nth_mem) (rule len)
    moreover have "?l ! 0 \<noteq> ?l ! 1"
    proof
      assume "?l ! 0 = ?l ! 1"
      then have "(0 :: nat) = 1"
        using nth_eq_iff_index_eq [OF distinct_filter [OF assms], of 0 "\<lambda>c. is_leader h c nodes" 1] len
        by (metis less_trans zero_less_one)
      then show False by simp
    qed
    ultimately have "length (sd_Events (h (?l ! 0))) < length (sd_Events (h (?l ! 1)))"
      "length (sd_Events (h (?l ! 1))) < length (sd_Events (h (?l ! 0)))"
      unfolding set_filter is_leader_iff by auto
    then show False by simp
  qed
  then show ?thesis by (simp add: stress_CheckNoSplitBrain_def count_leaders)
qed

lemma count_seqs: "count_seqs qs q = count_list qs q"
proof -
  have "foldl (\<lambda>m q. m(q := m q + 1)) m qs q = m q + count_list qs q" for m :: "u64 \<Rightarrow> nat"
    by (induction qs arbitrary: m) simp_all
  then show ?thesis by (simp add: count_seqs_def)
qed

text \<open>All live nodes hold the same events, with different sequence numbers.\<close>

definition in_step :: "node_store \<Rightarrow> nat list \<Rightarrow> StressEvent list \<Rightarrow> bool" where
  "in_step h nodes es \<longleftrightarrow> distinct (map sv_Seq es) \<and>
     (\<forall>p \<in> set nodes. \<not> sd_Crashed (h p) \<longrightarrow> sd_Events (h p) = es)"

lemma in_step_replay: "in_step h nodes es \<Longrightarrow> CheckReplayEquivalence h nodes"
proof -
  assume h: "in_step h nodes es"
  let ?live = "filter (\<lambda>p. \<not> sd_Crashed (h p) \<and> length (sd_Events (h p)) > 0) nodes"
  have ev: "sd_Events (h p) = es" if "p \<in> set ?live" for p
    using h that by (auto simp: in_step_def)
  show ?thesis
  proof (cases "length ?live < 2")
    case True
    then show ?thesis by (simp add: CheckReplayEquivalence_def Let_def)
  next
    case False
    then obtain p ps where live: "?live = p # ps" by (cases ?live) auto
    have "sd_Events (h p) = es" by (rule ev) (simp only: live list.set_intros)
    moreover have "sd_Events (h q) = es" if "q \<in> set ps" for q
      by (rule ev) (simp only: live list.set_intros that)
    ultimately show ?thesis
      using False unfolding CheckReplayEquivalence_def Let_def live by (simp add: list_all_iff)
  qed
qed

lemma count_concat_live:
  assumes "distinct qs" and "q \<in> set qs"
  shows "count_list (concat (map (\<lambda>p. if P p then qs else []) ps)) q = length (filter P ps)"
proof -
  have "count_list qs q = 1" using assms by (induction qs) auto
  then show ?thesis by (induction ps) simp_all
qed

lemma count_live: "foldl (\<lambda>k p. if \<not> sd_Crashed (h p) then k + 1 else k) n ps =
   n + length (filter (\<lambda>p. \<not> sd_Crashed (h p)) ps)"
  by (induction ps arbitrary: n) auto

lemma in_step_convergence:
  assumes "in_step h nodes es"
  shows "stress_CheckConvergence h nodes"
proof -
  let ?live = "\<lambda>p. \<not> sd_Crashed (h p)"
  have eq: "concat (map (\<lambda>p. if ?live p then map sv_Seq (sd_Events (h p)) else []) nodes) =
      concat (map (\<lambda>p. if ?live p then map sv_Seq es else []) nodes)"
    using assms by (intro arg_cong [where f = concat] map_cong refl) (auto simp: in_step_def)
  have "count_list (concat (map (\<lambda>p. if ?live p then map sv_Seq es else []) nodes)) q = length (filter ?live nodes)"
    if "q \<in> set (concat (map (\<lambda>p. if ?live p then map sv_Seq es else []) nodes))" for q
    using that assms by (intro count_concat_live) (auto simp: in_step_def split: if_splits)
  then show ?thesis
    unfolding stress_CheckConvergence_def Let_def eq count_seqs count_live by (simp add: list_all_iff)
qed

section \<open>The run keeps the live nodes in step\<close>

lemma bcast_store:
  "distinct ps \<Longrightarrow> stress_bcast_loop e ps h p =
     (if p \<in> set ps \<and> \<not> sd_Crashed (h p) then (h p)\<lparr>sd_Events := sd_Events (h p) @ [e]\<rparr> else h p)"
  by (induction ps arbitrary: h) auto

lemma crash_store:
  "sd_Events (crash_loop ps h p) = sd_Events (h p) \<and> (sd_Crashed (h p) \<longrightarrow> sd_Crashed (crash_loop ps h p))"
  by (induction ps) auto

lemma stress_turn_nodes [simp]: "bw_Nodes (stress_turn cfg i net) = bw_Nodes net"
  by (simp add: stress_turn_def Let_def stress_Broadcast_def stress_Partition_def HealPartition_def)

lemma stress_turn_in_step:
  assumes "distinct (bw_Nodes net)" and "in_step (bw_store net) (bw_Nodes net) es"
    and "\<forall>e \<in> set es. unat (sv_Seq e) < i" and "i < 2 ^ 64"
  shows "\<exists>es'. in_step (bw_store (stress_turn cfg i net)) (bw_Nodes net) es' \<and>
    (\<forall>e \<in> set es'. unat (sv_Seq e) < Suc i)"
proof -
  define h1 where "h1 = (if ShouldCrash (sc_CrashRate cfg) (of_nat i)
      then crash_loop (bw_Nodes net) (bw_store net) else bw_store net)"
  let ?e = "stress_event cfg i"
  have seq: "unat (sv_Seq ?e) = i" by (simp only: stress_event_def StressEvent.select_convs unat_of_nat_u64 [OF assms(4)])
  have h1: "in_step h1 (bw_Nodes net) es"
    using assms(2) crash_store [of "bw_Nodes net" "bw_store net"] unfolding in_step_def h1_def
    by (cases "ShouldCrash (sc_CrashRate cfg) (of_nat i)") auto
  have store: "bw_store (stress_turn cfg i net) =
      (if ShouldPartition (sc_PartitionRate cfg) (of_nat i) then h1
       else stress_bcast_loop ?e (bw_Nodes net) h1)"
    by (simp add: stress_turn_def Let_def stress_Broadcast_def stress_Partition_def HealPartition_def h1_def)
  show ?thesis
  proof (cases "ShouldPartition (sc_PartitionRate cfg) (of_nat i)")
    case True
    with h1 store assms(3) show ?thesis by (intro exI [of _ es]) auto
  next
    case False
    have "in_step (stress_bcast_loop ?e (bw_Nodes net) h1) (bw_Nodes net) (es @ [?e])"
      using h1 assms(3) seq unfolding in_step_def by (auto simp: bcast_store [OF assms(1)])
    with False store assms(3) seq show ?thesis by (intro exI [of _ "es @ [?e]"]) auto
  qed
qed

lemma stress_loop_ok:
  "js = [i..<n] \<Longrightarrow> n \<le> 2 ^ 64 \<Longrightarrow> distinct (bw_Nodes net) \<Longrightarrow>
   in_step (bw_store net) (bw_Nodes net) es \<Longrightarrow> \<forall>e \<in> set es. unat (sv_Seq e) < i \<Longrightarrow>
   stress_loop cfg js net = None"
proof (induction js arbitrary: i net es)
  case (Cons j js)
  from Cons.prems(1) have j: "j = i" "js = [Suc i..<n]" "i < n"
    using upt_eq_Cons_conv [of i n j js] unfolding Suc_eq_plus1 by metis+
  have "i < 2 ^ 64" using j(3) Cons.prems(2) by linarith
  from stress_turn_in_step [OF Cons.prems(3-5) this] obtain es' where
    es': "in_step (bw_store (stress_turn cfg i net)) (bw_Nodes net) es'" "\<forall>e \<in> set es'. unat (sv_Seq e) < Suc i"
    by blast
  have "stress_loop cfg js (stress_turn cfg i net) = None"
    using Cons.IH [OF j(2) Cons.prems(2) _ _ es'(2), of "stress_turn cfg i net"] es'(1) Cons.prems(3) by simp
  then show ?case
    using no_split_brain_vacuous [OF Cons.prems(3)] in_step_replay [OF es'(1)] in_step_convergence [OF es'(1)]
    by (simp add: j(1) Let_def)
qed simp

text \<open>C37: The long-term run panics before the first event if the number of nodes is negative, or
  greater than the 2 to the 45 for which \<open>make\<close> has room, and returns nil for every other
  configuration: whatever the rates (NaN and infinities included) and the numbers of nodes and
  events, no check ever fails.  On a network of different nodes the split-brain check cannot fail
  at all.\<close>

theorem stress_run_always_passes:
  "RunLongTerm cfg =
     (if sint (sc_Nodes cfg) < 0 \<or> 2 ^ 45 < sint (sc_Nodes cfg) then Inl makeslice_panic else Inr None) \<and>
   (distinct nodes \<longrightarrow> stress_CheckNoSplitBrain h nodes)"
proof -
  let ?net = "stress_network (nat (sint (sc_Nodes cfg))) (sc_ByzantineRate cfg)"
  have "nat (sint (sc_Events cfg)) \<le> 2 ^ 64"
    using sint_less [of "sc_Events cfg"] by simp
  then have "stress_loop cfg [0..<nat (sint (sc_Events cfg))] ?net = None"
    by (rule stress_loop_ok [OF refl, of _ _ "[]"]) (simp_all add: stress_network_def in_step_def)
  then show ?thesis
    using no_split_brain_vacuous by (simp add: RunLongTerm_def NewByzantineNetwork_def make_panics_def)
qed

theorem stress_run_witness:
  "RunLongTerm stress_DefaultConfig = Inr None \<and>
   RunLongTerm (stress_DefaultConfig\<lparr>sc_Nodes := - 1\<rparr>) = Inl makeslice_panic \<and>
   stress_CheckNoSplitBrain (\<lambda>_. \<lparr>sd_ID = ''n'', sd_Events = [], sd_Crashed = False\<rparr>) [1, 2]"
  using stress_run_always_passes [of stress_DefaultConfig "[1, 2]"
      "\<lambda>_. \<lparr>sd_ID = ''n'', sd_Events = [], sd_Crashed = False\<rparr>"]
    stress_run_always_passes [of "stress_DefaultConfig\<lparr>sc_Nodes := - 1\<rparr>"]
  by (simp add: stress_DefaultConfig_def)

text \<open>A node that crashes misses the events broadcast meanwhile, and nothing replays them after a
  restart: the replay check then fails.\<close>

lemma restart_does_not_catch_up:
  fixes e1 e2 e3 :: StressEvent
  defines "net \<equiv> stress_Broadcast (stress_network 2 (Finite 0)) e1"
  defines "crashed \<equiv> stress_Broadcast (net\<lparr>bw_store := crash_loop (bw_Nodes net) (bw_store net)\<rparr>) e2"
  defines "restarted \<equiv> stress_Broadcast (RestartRandomNode crashed) e3"
  shows "\<not> CheckReplayEquivalence (bw_store restarted) (bw_Nodes restarted)"
  by (simp add: net_def crashed_def restarted_def stress_network_def stress_Broadcast_def
      RestartRandomNode_def CheckReplayEquivalence_def numeral_2_eq_2 Let_def)

end
