(* ===== verification/Failure.thy ===== *)
theory Failure
  imports WalLog
begin

text \<open>
  Failure injection (\<open>pkg/failure/failure.go\<close>): process kills, the WAL corruptor on a file
  system of bytes, network partitions, the scheduler shuffle, metrics and the runner.
  \<open>math/rand\<close> is a parameter: \<open>intn seed used n\<close> is what \<open>Intn(n)\<close> returns on a generator with
  this seed after calls with the bounds in \<open>used\<close>; the code relies on it lying below \<open>n\<close>.
  An \<open>int64\<close> is a 64-bit word read as signed where the code compares or prints it.
\<close>

definition Seed :: i64 where
  "Seed = 0xdeadbeef"

section \<open>Process kill\<close>

record ProcessKill =
  pk_killed :: "string \<Rightarrow> bool"
  pk_injectAfter :: i64
  pk_count :: i64

definition NewProcessKill :: ProcessKill where
  "NewProcessKill = \<lparr>pk_killed = (\<lambda>_. False), pk_injectAfter = 0, pk_count = 0\<rparr>"

definition ShouldKill :: "ProcessKill \<Rightarrow> string \<Rightarrow> bool \<times> ProcessKill" where
  "ShouldKill pk nodeID =
     (let n = pk_count pk + 1; pk1 = pk\<lparr>pk_count := n\<rparr>
      in if sint n > sint (pk_injectAfter pk1) then (True, pk1\<lparr>pk_killed := (pk_killed pk1)(nodeID := True)\<rparr>)
         else (False, pk1))"

definition IsDead :: "ProcessKill \<Rightarrow> string \<Rightarrow> bool" where
  "IsDead pk nodeID = pk_killed pk nodeID"

definition InjectAfter :: "ProcessKill \<Rightarrow> i64 \<Rightarrow> ProcessKill" where
  "InjectAfter pk calls = pk\<lparr>pk_injectAfter := calls\<rparr>"

definition kill_Reset :: "ProcessKill \<Rightarrow> ProcessKill" where
  "kill_Reset pk = pk\<lparr>pk_count := 0\<rparr>"

section \<open>WAL corruption\<close>

text \<open>\<open>WALCorruptMode\<close> is an \<open>int\<close> with three named values.\<close>

datatype WALCorruptMode = WALCorruptMode (mode_num: i64)

definition CorruptTruncate :: WALCorruptMode where
  "CorruptTruncate = WALCorruptMode 0"

definition CorruptPartialWrite :: WALCorruptMode where
  "CorruptPartialWrite = WALCorruptMode 1"

definition CorruptBitFlip :: WALCorruptMode where
  "CorruptBitFlip = WALCorruptMode 2"

lemma WALCorruptMode_distinct [simp]:
  "CorruptTruncate \<noteq> CorruptPartialWrite" "CorruptTruncate \<noteq> CorruptBitFlip"
  "CorruptPartialWrite \<noteq> CorruptBitFlip" "CorruptPartialWrite \<noteq> CorruptTruncate"
  "CorruptBitFlip \<noteq> CorruptTruncate" "CorruptBitFlip \<noteq> CorruptPartialWrite"
  by (simp_all add: CorruptTruncate_def CorruptPartialWrite_def CorruptBitFlip_def)

record WALCorruptor =
  wc_corruptAt :: i64
  wc_count :: i64
  wc_mode :: WALCorruptMode
  wc_dir :: string

definition NewWALCorruptor :: "WALCorruptMode \<Rightarrow> WALCorruptor" where
  "NewWALCorruptor mode = \<lparr>wc_corruptAt = 0, wc_count = 0, wc_mode = mode, wc_dir = []\<rparr>"

definition CorruptAt :: "WALCorruptor \<Rightarrow> i64 \<Rightarrow> WALCorruptor" where
  "CorruptAt wc callCount = wc\<lparr>wc_corruptAt := callCount\<rparr>"

type_synonym files = "string \<rightharpoonup> byte list"

text \<open>The errors returned; \<open>NilPanic\<close> is the panic of a nil dereference.\<close>

datatype corrupt_error = ErrOpenFile | ErrTooShort | ErrWriteOut | NilPanic

text \<open>What the operating system answers: whether an existing file can be opened or read, whether
  \<open>Stat\<close> and \<open>Truncate\<close> succeed, how many of the bytes of the partial write reach the file, and
  what becomes of the output file of the bit flip.  The errors of \<open>Stat\<close>, \<open>Truncate\<close> and the partial
  write are ignored by the code; without a \<open>Stat\<close> result it dereferences nil.\<close>

datatype out_file = OutWritten | OutNotCreated | OutPartial nat

record corrupt_io =
  co_open :: bool
  co_stat :: bool
  co_truncate :: bool
  co_written :: nat
  co_out :: out_file

definition open_file :: "corrupt_io \<Rightarrow> files \<Rightarrow> string \<Rightarrow> byte list option" where
  "open_file io fs path = (if co_open io then fs path else None)"

definition CorruptFile :: "corrupt_io \<Rightarrow> WALCorruptor \<Rightarrow> files \<Rightarrow> string \<Rightarrow>
    (corrupt_error + string) \<times> WALCorruptor \<times> files" where
  "CorruptFile io wc fs path =
     (let n = wc_count wc + 1; wc1 = wc\<lparr>wc_count := n\<rparr>
      in if sint n \<le> sint (wc_corruptAt wc1) then (Inr path, wc1, fs)
         else if wc_mode wc1 = CorruptTruncate then
           (case open_file io fs path of
              None \<Rightarrow> (Inl ErrOpenFile, wc1, fs)
            | Some data \<Rightarrow>
                if \<not> co_stat io then (Inl NilPanic, wc1, fs)
                else
                  let size = length data
                  in (Inr path, wc1, if co_truncate io then fs(path \<mapsto> take (size div 2) data) else fs))
         else if wc_mode wc1 = CorruptPartialWrite then
           (case open_file io fs path of
              None \<Rightarrow> (Inl ErrOpenFile, wc1, fs)
            | Some data \<Rightarrow>
                let partial = put_u64_le 0xAAAAAAAAAAAAAAAA @ replicate 8 0
                in (Inr path, wc1, fs(path \<mapsto> data @ take (co_written io) (take 8 partial))))
         else if wc_mode wc1 = CorruptBitFlip then
           (case open_file io fs path of
              None \<Rightarrow> (Inl ErrOpenFile, wc1, fs)
            | Some data \<Rightarrow>
                if length data < 64 then (Inl ErrTooShort, wc1, fs)
                else
                  let data' = data[32 := data ! 32 XOR push_bit 5 1]; out = path @ ''.corrupt''
                  in (case co_out io of
                        OutWritten \<Rightarrow> (Inr out, wc1, fs(out \<mapsto> data'))
                      | OutNotCreated \<Rightarrow> (Inl ErrWriteOut, wc1, fs)
                      | OutPartial k \<Rightarrow> (Inl ErrWriteOut, wc1, fs(out \<mapsto> take k data'))))
         else (Inr path, wc1, fs))"

definition corruptor_Reset :: "WALCorruptor \<Rightarrow> WALCorruptor" where
  "corruptor_Reset wc = wc\<lparr>wc_count := 0\<rparr>"

section \<open>Network partition\<close>

record Partition =
  pt_groupA :: "string \<Rightarrow> bool"
  pt_groupB :: "string \<Rightarrow> bool"
  pt_isPartitioned :: bool

definition NewPartition :: Partition where
  "NewPartition = \<lparr>pt_groupA = (\<lambda>_. False), pt_groupB = (\<lambda>_. False), pt_isPartitioned = False\<rparr>"

definition SetGroups :: "Partition \<Rightarrow> string list \<Rightarrow> string list \<Rightarrow> Partition" where
  "SetGroups p nodesA nodesB =
     p\<lparr>pt_groupA := foldl (\<lambda>g n. g(n := True)) (pt_groupA p) nodesA,
       pt_groupB := foldl (\<lambda>g n. g(n := True)) (pt_groupB p) nodesB\<rparr>"

definition IsPartitioned :: "Partition \<Rightarrow> string \<Rightarrow> string \<Rightarrow> bool" where
  "IsPartitioned p a b \<longleftrightarrow>
     (if \<not> pt_isPartitioned p then False
      else if (pt_groupA p a \<and> pt_groupA p b) \<or> (pt_groupB p a \<and> pt_groupB p b) then False
      else True)"

definition partition_Break :: "Partition \<Rightarrow> Partition" where
  "partition_Break p = p\<lparr>pt_isPartitioned := True\<rparr>"

definition partition_Heal :: "Partition \<Rightarrow> Partition" where
  "partition_Heal p = p\<lparr>pt_isPartitioned := False\<rparr>"

section \<open>Scheduler shuffle\<close>

type_synonym rand_intn = "i64 \<Rightarrow> nat list \<Rightarrow> nat \<Rightarrow> nat"

record SchedulerShuffle =
  ss_enabled :: bool
  ss_seed :: i64

definition NewSchedulerShuffle :: "i64 \<Rightarrow> SchedulerShuffle" where
  "NewSchedulerShuffle seed = \<lparr>ss_enabled = False, ss_seed = seed\<rparr>"

text \<open>\<open>None\<close> is the panic of an index outside the slice, and of \<open>make\<close> for more integers than fit
  into memory.\<close>

fun permute_loop :: "rand_intn \<Rightarrow> i64 \<Rightarrow> nat list \<Rightarrow> nat \<Rightarrow> nat list \<Rightarrow> nat list option" where
  "permute_loop intn seed used 0 order = Some order"
| "permute_loop intn seed used (Suc i') order =
     (let i = Suc i'; j = intn seed used (i + 1)
      in if i < length order \<and> j < length order
         then permute_loop intn seed (used @ [i + 1]) i' (list_swap order i j)
         else None)"

definition Permute :: "rand_intn \<Rightarrow> SchedulerShuffle \<Rightarrow> int \<Rightarrow> nat list option" where
  "Permute intn ss n =
     (if n \<le> 1 then Some [0]
      else if 2 ^ 48 < n * 8 then None
      else permute_loop intn (ss_seed ss) [] (nat n - 1) [0..<nat n])"

section \<open>Metrics and runner\<close>

record TestResult =
  tr_Test :: string
  tr_Seed :: i64
  tr_Ticks :: i64
  tr_Result :: string

record Metrics =
  mt_results :: "TestResult list"

definition NewMetrics :: Metrics where
  "NewMetrics = \<lparr>mt_results = []\<rparr>"

definition metrics_Record :: "Metrics \<Rightarrow> string \<Rightarrow> i64 \<Rightarrow> string \<Rightarrow> Metrics" where
  "metrics_Record m test ticks result =
     m\<lparr>mt_results := mt_results m @
        [\<lparr>tr_Test = test, tr_Seed = Seed, tr_Ticks = ticks, tr_Result = result\<rparr>]\<rparr>"

definition metrics_Results :: "Metrics \<Rightarrow> TestResult list" where
  "metrics_Results m = mt_results m"

definition metrics_Summary :: "Metrics \<Rightarrow> (string \<rightharpoonup> nat)" where
  "metrics_Summary m =
     foldl (\<lambda>summary r. summary(tr_Result r \<mapsto> (case summary (tr_Result r) of None \<Rightarrow> 0 | Some k \<Rightarrow> k) + 1))
       Map.empty (mt_results m)"

record Runner =
  rn_metrics :: Metrics
  rn_failFast :: bool

definition NewRunner :: Runner where
  "NewRunner = \<lparr>rn_metrics = NewMetrics, rn_failFast = False\<rparr>"

text \<open>The test function is run for its error text, if any.\<close>

definition runner_Run :: "Runner \<Rightarrow> string \<Rightarrow> string option \<Rightarrow> Runner" where
  "runner_Run r name err =
     (case err of
        Some e \<Rightarrow> r\<lparr>rn_metrics := metrics_Record (rn_metrics r) name 0 (''FAIL: '' @ e)\<rparr>
      | None \<Rightarrow> r\<lparr>rn_metrics := metrics_Record (rn_metrics r) name 0 ''PASS''\<rparr>)"

section \<open>The shuffle is a permutation\<close>

lemma permute_loop_permutes:
  assumes law: "\<And>seed used n. 0 < n \<Longrightarrow> intn seed used n < n"
  shows "i < length xs \<or> i = 0 \<Longrightarrow>
    \<exists>ys. permute_loop intn seed used i xs = Some ys \<and> mset ys = mset xs"
proof (induction i arbitrary: xs used)
  case (Suc i)
  define j where "j = intn seed used (Suc i + 1)"
  have "j < Suc i + 1" unfolding j_def by (rule law) simp
  with Suc.prems have ij: "Suc i < length xs" "j < length xs" by linarith+
  let ?xs = "list_swap xs (Suc i) j"
  have "i < length ?xs \<or> i = 0" using ij by simp
  from Suc.IH [OF this, of "used @ [Suc i + 1]"] obtain ys where
    ys: "permute_loop intn seed (used @ [Suc i + 1]) i ?xs = Some ys" "mset ys = mset ?xs" by blast
  have "permute_loop intn seed used (Suc i) xs = Some ys"
    using ij ys(1) unfolding permute_loop.simps(2) Let_def j_def [symmetric] by simp
  moreover have "mset ys = mset xs" using ys(2) ij by simp
  ultimately show ?case by blast
qed simp

text \<open>With a random source that stays below its bound, \<open>Permute\<close> never leaves its slice and
  returns a permutation of 0 to n - 1 for every positive n up to 2 to the 45; for n = 0 and negative n it returns
  [0], which is not one.\<close>

lemma permute_correct:
  assumes "\<And>seed used n. 0 < n \<Longrightarrow> intn seed used n < n" and "n \<le> 2 ^ 45"
  shows "\<exists>ys. Permute intn ss n = Some ys \<and>
    (if 0 < n then mset ys = mset [0..<nat n] else ys = [0])"
proof (cases "n \<le> 1")
  case True
  then show ?thesis by (cases "n = 1") (simp_all add: Permute_def)
next
  case False
  then have "nat n - 1 < length [0..<nat n] \<or> nat n - 1 = 0" by simp
  from permute_loop_permutes [OF assms(1) this] False assms(2) show ?thesis by (simp add: Permute_def)
qed

section \<open>Corrupted logs and recovery\<close>

lemma flip_changes: "(b :: byte) XOR push_bit 5 1 \<noteq> b"
proof
  assume "b XOR push_bit 5 1 = b"
  then have "b XOR (b XOR push_bit 5 1) = b XOR b" by simp
  then have "push_bit 5 (1 :: byte) = 0" by (simp add: xor.assoc [symmetric])
  then show False by simp
qed

text \<open>A changed byte in front of the length field leaves the record's length alone.\<close>

lemma entry_total_update:
  assumes "event_fits e" "i < 88"
  shows "entry_total ((event_bytes e)[i := b] @ rest) = length (event_bytes e)"
proof -
  have "take 4 (drop 88 ((event_bytes e)[i := b] @ rest)) = take 4 (drop 88 (event_bytes e @ rest))"
    using assms(2) by (simp add: drop_update_cancel length_event_bytes)
  then show ?thesis
    using entry_total_take [OF assms(1), of "length (event_bytes e)" rest]
    by (simp add: entry_total_def length_event_bytes)
qed

lemma recover_flipped:
  assumes "event_fits e" "i < 88" "b \<noteq> event_bytes e ! i"
  shows "recover_bytes ((event_bytes e)[i := b] @ rest) [] = (Some (ErrCorruptEntry ErrWALCorruption), []) \<or>
    (let d = wal_data (entry_of_event e) in d[i := b] \<noteq> d \<and> sha256 (d[i := b]) = sha256 d)"
proof -
  let ?w = "entry_of_event e" and ?bs = "(event_bytes e)[i := b]"
  note tot = entry_total_update [OF assms(1,2), of b rest]
  then have "\<not> waiting (?bs @ rest)" by (simp add: waiting_def length_event_bytes)
  then have "drain (?bs @ rest) [] =
      (case DecodeEntry ?bs of Inl err \<Rightarrow> (Some (ErrCorruptEntry err), rest, [])
       | Inr entry \<Rightarrow> drain rest [event_of_entry entry])"
    by (simp add: drain_decode tot split: sum.split)
  moreover have "i < length (Encode ?w)" using assms(2) by (simp add: length_Encode)
  then have "DecodeEntry ?bs = Inl ErrWALCorruption \<or>
      (let d = wal_data ?w in d[i := b] \<noteq> d \<and> sha256 (d[i := b]) = sha256 d)"
    using DecodeEntry_changed_byte [of ?w i b "[]"] assms
    by (auto simp: event_fits_entry event_bytes_def Let_def)
  ultimately show ?thesis by (auto simp: recover_bytes_def)
qed

definition recovered_from :: "files \<Rightarrow> string \<Rightarrow> wal_error option \<times> canon_Event list" where
  "recovered_from fs path = fst (wal_Recover (opened_WAL path (fs path)))"

lemma recovered_from_bytes [simp]: "fs path = Some bs \<Longrightarrow> recovered_from fs path = recover_bytes bs []"
  by (simp add: recovered_from_def fst_wal_Recover opened_WAL_def)



end
