(* ===== verification/Chaos.thy ===== *)
theory Chaos
  imports Failure Diff
begin

text \<open>
  Controlled chaos (\<open>pkg/chaos/mode.go\<close>): the mode owns the failure injectors and a trace; a
  tick rolls a die seeded with the seed plus the elapsed time and injects at most one failure.
\<close>

section \<open>The mode\<close>

record ChaosMode =
  cm_seed :: i64
  cm_duration :: u64
  cm_elapsed :: u64
  cm_active :: bool
  cm_processKill :: ProcessKill
  cm_partition :: Partition
  cm_corruptor :: WALCorruptor
  cm_scheduler :: SchedulerShuffle
  cm_tracer :: Trace
  cm_EnableProcessKill :: bool
  cm_EnablePartition :: bool
  cm_EnableWALCorrupt :: bool
  cm_EnableScheduler :: bool

record FailureEvent =
  fe_Type :: string
  fe_Tick :: u64
  fe_Details :: string
  fe_NodeID :: string

definition fmt_i64 :: "i64 \<Rightarrow> string" where
  "fmt_i64 w = fmt_int (sint w)"

definition chaos_New :: "i64 \<Rightarrow> ChaosMode" where
  "chaos_New seed =
     \<lparr>cm_seed = seed, cm_duration = 10000, cm_elapsed = 0, cm_active = False,
      cm_processKill = NewProcessKill, cm_partition = NewPartition,
      cm_corruptor = NewWALCorruptor CorruptBitFlip, cm_scheduler = NewSchedulerShuffle seed,
      cm_tracer = trace_New (''chaos-'' @ fmt_i64 seed),
      cm_EnableProcessKill = False, cm_EnablePartition = False, cm_EnableWALCorrupt = False,
      cm_EnableScheduler = False\<rparr>"

definition SetDuration :: "ChaosMode \<Rightarrow> u64 \<Rightarrow> ChaosMode" where
  "SetDuration m ticks = m\<lparr>cm_duration := ticks\<rparr>"

definition chaos_Start :: "ChaosMode \<Rightarrow> ChaosMode" where
  "chaos_Start m = m\<lparr>cm_active := True, cm_elapsed := 0\<rparr>"

definition chaos_Stop :: "ChaosMode \<Rightarrow> ChaosMode" where
  "chaos_Stop m = m\<lparr>cm_active := False\<rparr>"

text \<open>The entry recorded for an event has only its tick and type filled in.\<close>

definition chaos_entry :: "FailureEvent \<Rightarrow> trace_Entry" where
  "chaos_entry evt =
     \<lparr>te_TraceID = [], te_Tick = fe_Tick evt, te_Event = fe_Type evt, te_PrevHash = [],
      te_EventHash = [], te_NodeID = [], te_Seq = 0, te_SchemaID = [], te_Payload = []\<rparr>"

definition chaos_Tick :: "rand_intn \<Rightarrow> ChaosMode \<Rightarrow> FailureEvent option \<times> ChaosMode" where
  "chaos_Tick intn m =
     (if \<not> cm_active m \<or> cm_elapsed m \<ge> cm_duration m then (None, m)
      else
        let m1 = m\<lparr>cm_elapsed := cm_elapsed m + 1\<rparr>;
            t = cm_elapsed m1;
            roll = intn (cm_seed m1 + t) [] 100;
            evt = (\<lambda>ty details. \<lparr>fe_Type = ty, fe_Tick = t, fe_Details = details @ fmt_u64 t, fe_NodeID = []\<rparr>);
            record_evt = (\<lambda>e m'. (Some e, m'\<lparr>cm_tracer := trace_Record (cm_tracer m') (chaos_entry e)\<rparr>))
        in if cm_EnableProcessKill m1 \<and> roll < 10 then
             record_evt (evt ''process_kill'' ''kill at tick '')
               (m1\<lparr>cm_processKill := InjectAfter (cm_processKill m1) t\<rparr>)
           else if cm_EnablePartition m1 \<and> 10 \<le> roll \<and> roll < 25 then
             record_evt (evt ''partition'' ''partition at tick '')
               (m1\<lparr>cm_partition := partition_Break (cm_partition m1)\<rparr>)
           else if cm_EnableWALCorrupt m1 \<and> 25 \<le> roll \<and> roll < 40 then
             record_evt (evt ''wal_corruption'' ''WAL corrupt at tick '')
               (m1\<lparr>cm_corruptor := CorruptAt (cm_corruptor m1) t\<rparr>)
           else if cm_EnableScheduler m1 \<and> 40 \<le> roll \<and> roll < 55 then
             record_evt (evt ''scheduler_shuffle'' ''scheduler reorder at tick '') m1
           else (None, m1))"

definition chaos_Summary :: "ChaosMode \<Rightarrow> string" where
  "chaos_Summary m =
     ''Chaos seed='' @ fmt_i64 (cm_seed m) @ '' duration='' @ fmt_u64 (cm_duration m) @ '' elapsed='' @
     fmt_u64 (cm_elapsed m) @ '' active='' @ (if cm_active m then ''true'' else ''false'')"

definition GetPartition :: "ChaosMode \<Rightarrow> Partition" where
  "GetPartition m = cm_partition m"

definition GetProcessKill :: "ChaosMode \<Rightarrow> ProcessKill" where
  "GetProcessKill m = cm_processKill m"

definition GetWALCorruptor :: "ChaosMode \<Rightarrow> WALCorruptor" where
  "GetWALCorruptor m = cm_corruptor m"

definition GetScheduler :: "ChaosMode \<Rightarrow> SchedulerShuffle" where
  "GetScheduler m = cm_scheduler m"

definition GetTrace :: "ChaosMode \<Rightarrow> Trace" where
  "GetTrace m = cm_tracer m"

section \<open>A run of ticks\<close>

fun chaos_run :: "rand_intn \<Rightarrow> nat \<Rightarrow> ChaosMode \<Rightarrow> FailureEvent list \<times> ChaosMode" where
  "chaos_run intn 0 m = ([], m)"
| "chaos_run intn (Suc k) m =
     (let (e, m1) = chaos_Tick intn m; (es, m2) = chaos_run intn k m1
      in ((case e of None \<Rightarrow> es | Some x \<Rightarrow> x # es), m2))"

definition enabled :: "ChaosMode \<Rightarrow> string \<Rightarrow> bool" where
  "enabled m ty \<longleftrightarrow>
     ty = ''process_kill'' \<and> cm_EnableProcessKill m \<or> ty = ''partition'' \<and> cm_EnablePartition m \<or>
     ty = ''wal_corruption'' \<and> cm_EnableWALCorrupt m \<or> ty = ''scheduler_shuffle'' \<and> cm_EnableScheduler m"

lemma enabled_update [simp]:
  "enabled (m\<lparr>cm_elapsed := a\<rparr>) = enabled m" "enabled (m\<lparr>cm_processKill := k\<rparr>) = enabled m"
  "enabled (m\<lparr>cm_partition := p\<rparr>) = enabled m" "enabled (m\<lparr>cm_corruptor := c\<rparr>) = enabled m"
  "enabled (m\<lparr>cm_tracer := t\<rparr>) = enabled m" "enabled (m\<lparr>cm_active := b\<rparr>) = enabled m"
  unfolding enabled_def by simp_all

lemma enabled_types:
  "cm_EnableProcessKill m \<Longrightarrow> enabled m ''process_kill''" "cm_EnablePartition m \<Longrightarrow> enabled m ''partition''"
  "cm_EnableWALCorrupt m \<Longrightarrow> enabled m ''wal_corruption''"
  "cm_EnableScheduler m \<Longrightarrow> enabled m ''scheduler_shuffle''"
  by (simp_all add: enabled_def)

text \<open>What one tick of an active mode does.\<close>

lemma chaos_Tick_done:
  "\<not> cm_active m \<or> cm_elapsed m \<ge> cm_duration m \<Longrightarrow> chaos_Tick intn m = (None, m)"
  by (auto simp: chaos_Tick_def)

lemma chaos_Tick_step:
  assumes "cm_active m" "cm_elapsed m < cm_duration m" "chaos_Tick intn m = (e, m1)"
  shows "cm_elapsed m1 = cm_elapsed m + 1 \<and> cm_active m1 \<and> cm_duration m1 = cm_duration m \<and>
    enabled m1 = enabled m \<and>
    (case e of
       None \<Rightarrow> trace_Steps (cm_tracer m1) = trace_Steps (cm_tracer m)
     | Some x \<Rightarrow> fe_Tick x = cm_elapsed m + 1 \<and> enabled m (fe_Type x) \<and>
         trace_Steps (cm_tracer m1) = trace_Steps (cm_tracer m) @ [chaos_entry x])"
proof -
  let ?t = "cm_elapsed m + 1" and ?roll = "intn (cm_seed m + (cm_elapsed m + 1)) [] 100"
  note tick = assms(3) [unfolded chaos_Tick_def Let_def]
  have go: "\<not> (\<not> cm_active m \<or> cm_elapsed m \<ge> cm_duration m)" using assms(1,2) by simp
  note steps = trace_Steps_def trace_Record_def
  consider (kill) "cm_EnableProcessKill m" "?roll < 10"
    | (part) "\<not> (cm_EnableProcessKill m \<and> ?roll < 10)" "cm_EnablePartition m" "10 \<le> ?roll" "?roll < 25"
    | (wal) "\<not> (cm_EnableProcessKill m \<and> ?roll < 10)" "\<not> (cm_EnablePartition m \<and> 10 \<le> ?roll \<and> ?roll < 25)"
        "cm_EnableWALCorrupt m" "25 \<le> ?roll" "?roll < 40"
    | (sched) "\<not> (cm_EnableProcessKill m \<and> ?roll < 10)" "\<not> (cm_EnablePartition m \<and> 10 \<le> ?roll \<and> ?roll < 25)"
        "\<not> (cm_EnableWALCorrupt m \<and> 25 \<le> ?roll \<and> ?roll < 40)" "cm_EnableScheduler m" "40 \<le> ?roll" "?roll < 55"
    | (none) "\<not> (cm_EnableProcessKill m \<and> ?roll < 10)" "\<not> (cm_EnablePartition m \<and> 10 \<le> ?roll \<and> ?roll < 25)"
        "\<not> (cm_EnableWALCorrupt m \<and> 25 \<le> ?roll \<and> ?roll < 40)" "\<not> (cm_EnableScheduler m \<and> 40 \<le> ?roll \<and> ?roll < 55)"
    by blast
  then show ?thesis
  proof cases
    case kill
    from tick go kill assms(1) enabled_types(1) [OF kill(1)] show ?thesis by (auto simp: steps)
  next
    case part
    from tick go part assms(1) enabled_types(2) [OF part(2)] show ?thesis by (auto simp: steps)
  next
    case wal
    from tick go wal assms(1) enabled_types(3) [OF wal(3)] show ?thesis by (auto simp: steps)
  next
    case sched
    from tick go sched assms(1) enabled_types(4) [OF sched(4)] show ?thesis by (auto simp: steps)
  next
    case none
    from tick go none assms(1) show ?thesis by (simp split: if_splits) (auto simp: steps)
  qed
qed

lemma chaos_run_from:
  assumes "cm_active m" "unat (cm_elapsed m) \<le> unat (cm_duration m)" "chaos_run intn k m = (es, m')"
  shows "unat (cm_elapsed m') = min (unat (cm_elapsed m) + k) (unat (cm_duration m)) \<and> cm_active m' \<and>
    trace_Steps (cm_tracer m') = trace_Steps (cm_tracer m) @ map chaos_entry es \<and>
    sorted_wrt (<) (map (unat \<circ> fe_Tick) es) \<and>
    (\<forall>x \<in> set es. unat (cm_elapsed m) < unat (fe_Tick x) \<and> unat (fe_Tick x) \<le> unat (cm_elapsed m') \<and>
       enabled m (fe_Type x))"
  using assms
proof (induction k arbitrary: m es m')
  case (Suc k)
  obtain e m1 where t: "chaos_Tick intn m = (e, m1)" by fastforce
  obtain fs m2 where r: "chaos_run intn k m1 = (fs, m2)" by fastforce
  have out: "es = (case e of None \<Rightarrow> fs | Some x \<Rightarrow> x # fs)" "m' = m2"
    using Suc.prems(3) t r by auto
  show ?case
  proof (cases "cm_elapsed m < cm_duration m")
    case True
    note s = chaos_Tick_step [OF Suc.prems(1) True t]
    from True have lt: "unat (cm_elapsed m) < unat (cm_duration m)" by (simp add: word_less_nat_alt)
    then have "cm_elapsed m \<noteq> - 1"
      using True word_n1_ge [of "cm_duration m"] by (metis not_less)
    then have up: "unat (cm_elapsed m1) = unat (cm_elapsed m) + 1" using s unat_u64_plus_1 by simp
    have "cm_active m1" "unat (cm_elapsed m1) \<le> unat (cm_duration m1)" using s up lt by simp_all
    note ih = Suc.IH [OF this r]
    show ?thesis
    proof (cases e)
      case None
      then show ?thesis using ih s up lt out by auto
    next
      case (Some x)
      then have "unat (fe_Tick x) = unat (cm_elapsed m) + 1" using s up by simp
      then show ?thesis using ih s up lt out Some by auto
    qed
  next
    case False
    then have "e = None" "m1 = m" using chaos_Tick_done [of m intn] t by (auto simp: not_less)
    moreover from False have "unat (cm_elapsed m) = unat (cm_duration m)"
      using Suc.prems(2) by (simp add: word_less_nat_alt)
    ultimately show ?thesis using Suc.IH [OF Suc.prems(1,2)] r out by auto
  qed
qed simp

text \<open>C39: Chaos is bounded and recorded: after \<open>Start\<close>, k ticks advance the elapsed time to k or
  the duration, whichever is smaller; the failures injected have increasing ticks within that
  time and only enabled types, and the trace grows by exactly one entry for each of them, in
  order.  A stopped mode injects nothing and does not change.\<close>

theorem chaos_run_bounded:
  "case chaos_run intn k (chaos_Start m) of (es, m') \<Rightarrow>
     unat (cm_elapsed m') = min k (unat (cm_duration m)) \<and>
     trace_Steps (cm_tracer m') = trace_Steps (cm_tracer m) @ map chaos_entry es \<and>
     sorted_wrt (<) (map (unat \<circ> fe_Tick) es) \<and>
     (\<forall>x \<in> set es. 0 < unat (fe_Tick x) \<and> unat (fe_Tick x) \<le> min k (unat (cm_duration m)) \<and>
        enabled m (fe_Type x)) \<and>
     chaos_Tick intn (chaos_Stop m) = (None, chaos_Stop m)"
proof -
  obtain es m' where r: "chaos_run intn k (chaos_Start m) = (es, m')" by fastforce
  have start: "cm_active (chaos_Start m)" "unat (cm_elapsed (chaos_Start m)) \<le> unat (cm_duration (chaos_Start m))"
    "cm_elapsed (chaos_Start m) = 0" "cm_duration (chaos_Start m) = cm_duration m"
    "cm_tracer (chaos_Start m) = cm_tracer m" "enabled (chaos_Start m) = enabled m"
    by (simp_all add: chaos_Start_def enabled_def fun_eq_iff)
  from chaos_run_from [OF start(1,2) r] show ?thesis
    by (auto simp: r start(3-6) chaos_Stop_def chaos_Tick_done)
qed

theorem chaos_run_witness:
  "let m = (chaos_New 1)\<lparr>cm_duration := 2, cm_EnablePartition := True\<rparr>
   in map fe_Type (fst (chaos_run (\<lambda>_ _ _. 10) 3 (chaos_Start m))) = [''partition'', ''partition''] \<and>
      unat (cm_elapsed (snd (chaos_run (\<lambda>_ _ _. 10) 3 (chaos_Start m)))) = 2"
proof -
  let ?m = "(chaos_New 1)\<lparr>cm_duration := 2, cm_EnablePartition := True\<rparr>"
  have "map fe_Type (fst (chaos_run (\<lambda>_ _ _. 10) 3 (chaos_Start ?m))) = [''partition'', ''partition'']"
    by (simp add: chaos_Start_def chaos_Tick_def chaos_New_def numeral_3_eq_3 Let_def word_le_nat_alt)
  with chaos_run_bounded [where intn = "\<lambda>_ _ _. 10" and k = 3 and m = ?m] show ?thesis
    by (auto simp: Let_def split: prod.splits)
qed

end
