(* ===== verification/Schema.thy ===== *)
theory Schema
  imports Prelude
begin

text \<open>
  The schema registry (\<open>pkg/schema/schema.go\<close>).  The process-wide registry is passed as state;
  payload values are abstract, since the code never looks at them.  \<open>quote\<close> is the text \<open>%q\<close>
  prints for a string.
\<close>

record schema_Field =
  sf_Name :: string
  sf_Type :: string
  sf_Required :: bool

record Schema =
  sm_ID :: string
  sm_Version :: string
  sm_Fields :: "schema_Field list"

record Registry =
  rg_schemas :: "string \<rightharpoonup> Schema"

definition GlobalRegistry :: Registry where
  "GlobalRegistry = \<lparr>rg_schemas = Map.empty\<rparr>"

definition schema_Register :: "Registry \<Rightarrow> Schema \<Rightarrow> Registry" where
  "schema_Register reg schema = reg\<lparr>rg_schemas := (rg_schemas reg)(sm_ID schema \<mapsto> schema)\<rparr>"

primrec fields_loop :: "(string \<Rightarrow> string) \<Rightarrow> Schema \<Rightarrow> (string \<rightharpoonup> 'v) \<Rightarrow> schema_Field list \<Rightarrow> string option" where
  "fields_loop quote schema payload [] = None"
| "fields_loop quote schema payload (f # fs) =
     (if sf_Required f then
        (if payload (sf_Name f) = None then
           Some (''missing required field '' @ quote (sf_Name f) @ '' in schema '' @ sm_ID schema)
         else fields_loop quote schema payload fs)
      else fields_loop quote schema payload fs)"

definition validateObject :: "(string \<Rightarrow> string) \<Rightarrow> Schema \<Rightarrow> (string \<rightharpoonup> 'v) \<Rightarrow> string option" where
  "validateObject quote schema payload = fields_loop quote schema payload (sm_Fields schema)"

definition schema_Validate :: "(string \<Rightarrow> string) \<Rightarrow> Registry \<Rightarrow> string \<Rightarrow> (string \<rightharpoonup> 'v) \<Rightarrow> string option" where
  "schema_Validate quote reg schemaID payload =
     (case rg_schemas reg schemaID of
        None \<Rightarrow> Some (''schema '' @ quote schemaID @ '' not found'')
      | Some s \<Rightarrow> validateObject quote s payload)"

definition MustRegister :: "Registry \<Rightarrow> string \<Rightarrow> string \<Rightarrow> schema_Field list \<Rightarrow> Schema \<times> Registry" where
  "MustRegister reg ident version flds =
     (let s = \<lparr>sm_ID = ident, sm_Version = version, sm_Fields = flds\<rparr> in (s, schema_Register reg s))"

definition SchemaExists :: "Registry \<Rightarrow> string \<Rightarrow> bool" where
  "SchemaExists reg ident \<longleftrightarrow> rg_schemas reg ident \<noteq> None"

text \<open>A payload is valid exactly when its schema is registered and it has every required field;
  neither the declared types nor the version are looked at, and registering an id again replaces
  its schema.\<close>

lemma fields_loop_None:
  "fields_loop quote s payload fs = None \<longleftrightarrow> (\<forall>f \<in> set fs. sf_Required f \<longrightarrow> sf_Name f \<in> dom payload)"
  by (induction fs) (auto simp: dom_def)

lemma schema_Validate_None:
  "schema_Validate quote reg i payload = None \<longleftrightarrow>
     (\<exists>s. rg_schemas reg i = Some s \<and> (\<forall>f \<in> set (sm_Fields s). sf_Required f \<longrightarrow> sf_Name f \<in> dom payload))"
  by (auto simp: schema_Validate_def validateObject_def fields_loop_None split: option.split)

lemma MustRegister_exists:
  "MustRegister reg i v fs = (s, reg') \<Longrightarrow> SchemaExists reg' j \<longleftrightarrow> j = i \<or> SchemaExists reg j"
  by (auto simp: MustRegister_def schema_Register_def SchemaExists_def Let_def)

lemma validate_types_ignored:
  "schema_Validate quote reg i payload = None \<longleftrightarrow> schema_Validate quote reg i (map_option f \<circ> payload) = None"
  by (auto simp: schema_Validate_None)

end
