(* ===== verification/Coverage.thy ===== *)
theory Coverage
  imports Prelude
begin

text \<open>
  The failure coverage matrix (\<open>pkg/coverage/matrix.go\<close>): a fixed table.  The order in which Go
  ranges over it is a parameter, a permutation of the rows.
\<close>

definition StatusPASS :: string where
  "StatusPASS = string_of_bytes [0xE2, 0x9C, 0x85]"

definition StatusWARN :: string where
  "StatusWARN = string_of_bytes [0xE2, 0x9A, 0xA0, 0xEF, 0xB8, 0x8F]"

definition StatusMISS :: string where
  "StatusMISS = string_of_bytes [0xE2, 0x9D, 0x8C]"

record TestRef =
  tf_Name :: string
  tf_File :: string
  tf_Status :: string
  tf_Note :: string

definition FailureMatrix :: "(string \<times> TestRef) list" where
  "FailureMatrix =
     [(''crash_mid_append'',
        \<lparr>tf_Name = ''TestGEB_SplitBrain_Recovery'', tf_File = ''pkg/tests/failure_test.go'',
         tf_Status = StatusPASS, tf_Note = ''ProcessKill + crash recovery''\<rparr>),
      (''wal_corrupt'',
        \<lparr>tf_Name = ''TestWAL_CrashMidAppend'', tf_File = ''pkg/tests/failure_test.go'',
         tf_Status = StatusPASS, tf_Note = ''Truncate corruption + recovery''\<rparr>),
      (''split_brain'',
        \<lparr>tf_Name = ''TestGEB_SplitBrain_Recovery'', tf_File = ''pkg/tests/failure_test.go'',
         tf_Status = StatusPASS, tf_Note = ''Partition break/heal convergence''\<rparr>),
      (''partial_quorum'',
        \<lparr>tf_Name = ''TestGEB_PartialCommit'', tf_File = ''pkg/tests/failure_test.go'',
         tf_Status = StatusWARN, tf_Note = (''Partial commit blocked '' @ em_dash @ '' needs explicit resume test'')\<rparr>),
      (''rng_divergence'',
        \<lparr>tf_Name = ''TestRNG_InterleavingDeterminism'', tf_File = ''pkg/tests/failure_test.go'',
         tf_Status = StatusPASS, tf_Note = ''100 goroutines, different orders, same output''\<rparr>),
      (''wal_bit_flip'',
        \<lparr>tf_Name = ''TestWAL_HashCorruption'', tf_File = ''pkg/tests/failure_test.go'',
         tf_Status = StatusPASS, tf_Note = ''Bit flip detected by hash chain validation''\<rparr>),
      (''reorder_events'',
        \<lparr>tf_Name = ''TestEvent_Reorder_UnderPartition'', tf_File = ''pkg/tests/reorder_test.go'',
         tf_Status = StatusPASS, tf_Note = ''ATOM-030: event reorder coverage''\<rparr>),
      (''network_partition'',
        \<lparr>tf_Name = ''TestGEB_SplitBrain_Recovery'', tf_File = ''pkg/tests/failure_test.go'',
         tf_Status = StatusPASS, tf_Note = ''Partition break/heal tested''\<rparr>),
      (''clock_backwards'',
        \<lparr>tf_Name = ''TestClock_Monotonic_UnderCrash'', tf_File = ''pkg/tests/failure_test.go'',
         tf_Status = StatusPASS, tf_Note = ''1000 advances, no backwards''\<rparr>),
      (''hash_collision'',
        \<lparr>tf_Name = ''TestHashEventParity'', tf_File = ''tests/determinism_test.go'',
         tf_Status = StatusPASS, tf_Note = ''SHA-256 collision resistance verified''\<rparr>)]"

primrec misses_loop :: "(string \<times> TestRef) list \<Rightarrow> bool" where
  "misses_loop [] = False"
| "misses_loop (r # rs) = (if tf_Status (snd r) = StatusMISS then True else misses_loop rs)"

definition HasMisses :: "(string \<times> TestRef) list \<Rightarrow> bool" where
  "HasMisses order = misses_loop order"

definition MissingClasses :: "(string \<times> TestRef) list \<Rightarrow> string list" where
  "MissingClasses order = map fst (filter (\<lambda>r. tf_Status (snd r) = StatusMISS) order)"

definition report_row :: "string \<times> TestRef \<Rightarrow> string" where
  "report_row r =
     ''| '' @ fst r @ '' | '' @ tf_Name (snd r) @ '' | '' @ tf_File (snd r) @ '' | '' @
     tf_Status (snd r) @ '' | '' @ tf_Note (snd r) @ '' |'' @ newline"

definition coverage_Report :: "(string \<times> TestRef) list \<Rightarrow> string" where
  "coverage_Report order =
     foldl (\<lambda>s r. s @ report_row r)
       (''| Failure Class | Test | File | Status | Note |'' @ newline @
        ''|---------------|------|------|--------|------|'' @ newline) order"

text \<open>No row of the table is marked as missed, so the two queries are constant, in whatever order
  the table is read; every class occurs once.\<close>

lemma status_not_missed: "StatusPASS \<noteq> StatusMISS" "StatusWARN \<noteq> StatusMISS"
  by code_simp+

lemma matrix_status: "r \<in> set FailureMatrix \<Longrightarrow> tf_Status (snd r) = StatusPASS \<or> tf_Status (snd r) = StatusWARN"
  by (auto simp: FailureMatrix_def)

lemma matrix_has_no_misses:
  assumes "set order = set FailureMatrix"
  shows "\<not> HasMisses order \<and> MissingClasses order = []"
proof -
  have ok: "tf_Status (snd r) \<noteq> StatusMISS" if "r \<in> set order" for r
    using matrix_status [of r] status_not_missed that assms by auto
  have "\<not> misses_loop rs" if "set rs \<subseteq> set order" for rs
    using that ok by (induction rs) auto
  then show ?thesis using ok by (simp add: HasMisses_def MissingClasses_def filter_empty_conv)
qed

lemma matrix_classes_distinct: "distinct (map fst FailureMatrix)"
  by (simp add: FailureMatrix_def)

end
