(* ===== verification/Recovery.thy ===== *)
theory Recovery
  imports WalLog Snapshot Guard
begin

text \<open>
  The composition the packages are made for: events accepted by the event store
  (\<open>pkg/consensus\<close>) and written to the write-ahead log (\<open>pkg/wal\<close>) are recovered after a crash
  and replayed into a snapshot (\<open>pkg/snapshot\<close>) or into a new event store.
\<close>

text \<open>The fields of a canonical event that the event store keeps.\<close>

definition store_event :: "canon_Event \<Rightarrow> cons_Event" where
  "store_event e =
     \<lparr>ce_TraceID = ev_TraceID e, ce_Seq = ev_Seq e, ce_PrevHash = ev_PrevHash e,
      ce_EventHash = ev_EventHash e\<rparr>"

text \<open>The trace id and the event hash survive the record format.\<close>

definition names_exact :: "canon_Event \<Rightarrow> bool" where
  "names_exact e \<longleftrightarrow> event_fits e \<and> norm_trace (ev_TraceID e) = ev_TraceID e \<and>
     norm_hash (ev_EventHash e) = ev_EventHash e"

lemma names_exact_fits: "list_all names_exact es \<Longrightarrow> list_all event_fits es"
  by (auto simp: names_exact_def list_all_iff)

lemma reduce_recovered:
  "list_all names_exact es \<Longrightarrow>
   map (reduce_event \<circ> store_event \<circ> recovered_event) es = map (reduce_event \<circ> store_event) es"
  by (auto simp: list_all_iff names_exact_def reduce_event_def store_event_def recovered_event_def)

lemma recover_from_file:
  "fst (wal_Recover (opened_WAL path (Some bs))) = recover_bytes bs []"
  by (simp add: fst_wal_Recover opened_WAL_def)

text \<open>The survivors are the longest list of leading records that fits into what is left of the
  file.\<close>

lemma complete_records_fit:
  "complete_records event_bytes k es \<le> length es \<and>
   length (log_bytes (take (complete_records event_bytes k es) es)) \<le> k \<and>
   (complete_records event_bytes k es < length es \<longrightarrow>
      k < length (log_bytes (take (Suc (complete_records event_bytes k es)) es)))"
proof (induction es arbitrary: k)
  case (Cons e es)
  show ?case
  proof (cases "length (event_bytes e) \<le> k")
    case True
    with Cons.IH [of "k - length (event_bytes e)"] show ?thesis by auto
  qed simp
qed simp

lemma complete_records_all:
  assumes "length (log_bytes es) \<le> k"
  shows "complete_records event_bytes k es = length es"
proof (rule ccontr)
  let ?n = "complete_records event_bytes k es"
  assume "?n \<noteq> length es"
  then have "k < length (log_bytes (take (Suc ?n) es))" using complete_records_fit [of k es] by auto
  also have "\<dots> \<le> length (log_bytes (take (Suc ?n) es @ drop (Suc ?n) es))"
    unfolding log_bytes_append length_append by linarith
  finally show False using assms by simp
qed

text \<open>C1: Crash recovery restores the state.  Take events the event store accepted and the log
  holds, whose trace ids and hashes fit the record format, and let a crash leave the first \<open>k\<close>
  bytes of the file.  Let \<open>n\<close> be the number of leading events whose records lie completely in
  these bytes: \<open>n\<close> records fit and the next one does not.  Then recovery reports no error and
  returns exactly those \<open>n\<close> events (hashes and trace ids in the normal form of the format); fast
  replay of them gives exactly the snapshot of the state the store had after its first \<open>n\<close>
  events; and from that state the store accepts the remaining events and reaches its final
  state.\<close>

theorem crash_recovery_restores_snapshot:
  assumes "run_steps store_Append NewEventStore (map store_event es) = Inr final"
    and "list_all names_exact es"
  shows "let n = complete_records event_bytes k es in
    n \<le> length es \<and> length (log_bytes (take n es)) \<le> k \<and>
    (n < length es \<longrightarrow> k < length (log_bytes (take (Suc n) es))) \<and>
    fst (wal_Recover (opened_WAL path (Some (take k (log_bytes es))))) =
      (None, map recovered_event (take n es)) \<and>
    (\<exists>mid. run_steps store_Append NewEventStore (map store_event (take n es)) = Inr mid \<and>
       run_steps store_Append mid (map store_event (drop n es)) = Inr final \<and>
       FastReplay (snap_New\<lparr>sn_Timestamp := tick\<rparr>)
         (map (reduce_event \<circ> store_event) (map recovered_event (take n es))) =
         Inr (CreateSnapshot (es_lastSeq mid) (es_lastHash mid) tick))"
proof -
  define n where "n = complete_records event_bytes k es"
  have rec: "fst (wal_Recover (opened_WAL path (Some (take k (log_bytes es))))) =
      (None, map recovered_event (take n es))"
    unfolding recover_from_file recover_prefix [OF names_exact_fits [OF assms(2)]] n_def ..
  have split: "map store_event es = map store_event (take n es) @ map store_event (drop n es)"
    by (simp flip: map_append)
  from assms(1) obtain mid where mid: "run_steps store_Append NewEventStore (map store_event (take n es)) = Inr mid"
      "run_steps store_Append mid (map store_event (drop n es)) = Inr final"
    unfolding split by (auto simp: run_steps_append split: sum.splits)
  have "list_all names_exact (take n es)" using assms(2) by (auto simp: list_all_iff dest: in_set_takeD)
  from reduce_recovered [OF this]
  have "map (reduce_event \<circ> store_event) (map recovered_event (take n es)) =
      map reduce_event (map store_event (take n es))" by (simp only: map_map comp_assoc)
  moreover have "snap_New\<lparr>sn_Timestamp := tick\<rparr> = snapshot_of NewEventStore tick"
    by (simp add: snap_New_def snapshot_of_def CreateSnapshot_def NewEventStore_def)
  ultimately have "FastReplay (snap_New\<lparr>sn_Timestamp := tick\<rparr>)
      (map (reduce_event \<circ> store_event) (map recovered_event (take n es))) = Inr (snapshot_of mid tick)"
    using replay_from_snapshot [OF mid(1), of tick] by (simp only:)
  then show ?thesis
    using mid rec complete_records_fit [of k es] unfolding Let_def n_def [symmetric] snapshot_of_def by blast
qed

definition first_event :: canon_Event where
  "first_event = (sample_event 1)\<lparr>ev_PrevHash := []\<rparr>"

lemma first_event_exact: "names_exact first_event"
  using sample_event_exact [of 1]
  by (simp add: event_exact_def wal_exact_def names_exact_def first_event_def event_fits_def entry_of_event_def)

lemma first_event_accepted: "\<exists>s. run_steps store_Append NewEventStore (map store_event [first_event]) = Inr s"
  by (simp add: store_event_def first_event_def sample_event_def store_defs NewEventStore_def)

text \<open>The first record and ten bytes of the second survive.\<close>

definition second_event :: canon_Event where
  "second_event = (sample_event 2)\<lparr>ev_PrevHash := replicate 64 (CHR ''a'')\<rparr>"

lemma second_event_exact: "names_exact second_event"
  using sample_event_exact [of 2]
  by (simp add: event_exact_def wal_exact_def names_exact_def second_event_def event_fits_def entry_of_event_def)

lemma two_events_accepted:
  "\<exists>s. run_steps store_Append NewEventStore (map store_event [first_event, second_event]) = Inr s"
  by (simp add: store_event_def first_event_def second_event_def sample_event_def store_defs NewEventStore_def)

theorem crash_recovery_restores_snapshot_witness:
  "\<exists>mid. run_steps store_Append NewEventStore (map store_event [first_event]) = Inr mid \<and>
     fst (wal_Recover (opened_WAL ''p'' (Some (take 135 (log_bytes [first_event, second_event]))))) =
       (None, [recovered_event first_event]) \<and>
     FastReplay (snap_New\<lparr>sn_Timestamp := 3\<rparr>)
       [reduce_event (store_event (recovered_event first_event))] =
       Inr (CreateSnapshot (es_lastSeq mid) (es_lastHash mid) 3)"
proof -
  obtain final where f: "run_steps store_Append NewEventStore (map store_event [first_event, second_event]) = Inr final"
    using two_events_accepted by blast
  have x: "list_all names_exact [first_event, second_event]" using first_event_exact second_event_exact by simp
  have n: "complete_records event_bytes 135 [first_event, second_event] = 1"
    by (simp add: length_event_bytes first_event_def second_event_def)
  from crash_recovery_restores_snapshot [OF f x, where path = "''p''" and k = 135 and tick = 3]
  show ?thesis unfolding n Let_def by auto
qed

section \<open>The guard after recovery\<close>

definition guard_view :: "canon_Event \<Rightarrow> inv_Event" where
  "guard_view e = guard_event (ev_Tick e) (store_event e)"

lemma guard_view_recovered:
  "ie_PrevHash (guard_view (recovered_event e)) = norm_hash (ev_PrevHash e)"
  "ie_EventHash (guard_view (recovered_event e)) = norm_hash (ev_EventHash e)"
  by (simp_all add: guard_view_def guard_event_def store_event_def recovered_event_def)

lemma of_trace_recovered:
  "list_all names_exact es \<Longrightarrow>
   map ie_Seq (of_trace t (map (guard_view \<circ> recovered_event) es)) =
     map ce_Seq (trace_events t (map store_event es))"
  by (induction es)
    (auto simp: of_trace_def trace_events_def guard_view_def guard_event_def store_event_def
      recovered_event_def names_exact_def)

lemma numbers_increase:
  assumes "chained 0 [] es" and "length es < 2 ^ 64"
  shows "sorted_wrt (<) (map ce_Seq es)"
  unfolding sorted_wrt_iff_nth_less
proof (intro allI impI)
  fix i j assume ij: "i < j" "j < length (map ce_Seq es)"
  then have "Suc i < 2 ^ 64" "Suc j < 2 ^ 64" using assms(2) by simp_all
  moreover from ij have "ce_Seq (es ! i) = of_nat (Suc i)" "ce_Seq (es ! j) = of_nat (Suc j)"
    using chained_nth [OF assms(1)] by simp_all
  ultimately show "map ce_Seq es ! i < map ce_Seq es ! j"
    using ij unat_of_nat_u64 [of "Suc i"] unat_of_nat_u64 [of "Suc j"]
    by (simp only: word_less_nat_alt nth_map length_map less_trans [OF ij(1)])
qed

lemma chained_prefix: "chained n h (xs @ ys) \<Longrightarrow> chained n h xs"
  by (induction xs arbitrary: n h) auto

lemma chained_prev:
  "chained n h es \<Longrightarrow> 0 < i \<Longrightarrow> i < length es \<Longrightarrow> ce_PrevHash (es ! i) = ce_EventHash (es ! (i - 1))"
proof (induction es arbitrary: n h i)
  case (Cons e es)
  show ?case
  proof (cases "i = 1")
    case True
    with Cons.prems show ?thesis by (cases es) auto
  next
    case False
    with Cons.prems obtain j where "i = Suc j" "0 < j" by (cases i) auto
    with Cons.IH [of "ce_Seq e" "ce_EventHash e" j] Cons.prems show ?thesis by (cases j) auto
  qed
qed simp

lemma of_trace_view:
  "list_all names_exact xs \<Longrightarrow> of_trace t (map guard_view (map recovered_event xs)) =
     map guard_view (map recovered_event (filter (\<lambda>e. ev_TraceID e = t) xs))"
  by (induction xs)
    (auto simp: of_trace_def guard_view_def guard_event_def store_event_def recovered_event_def names_exact_def)

lemma trace_events_store:
  "trace_events t (map store_event xs) = map store_event (filter (\<lambda>e. ev_TraceID e = t) xs)"
  by (induction xs) (auto simp: trace_events_def store_event_def)

lemma chain_check_passes:
  assumes "chained 0 [] (map store_event xs)"
  shows "CheckHashChain (map guard_view (map recovered_event xs)) = None"
  unfolding CheckHashChain_iff
proof (intro allI impI)
  fix i assume i: "0 < i" "i < length (map guard_view (map recovered_event xs))"
  then have "ev_PrevHash (xs ! i) = ev_EventHash (xs ! (i - 1))"
    using chained_prev [OF assms, of i] by (simp add: store_event_def)
  with i show "ie_PrevHash (map guard_view (map recovered_event xs) ! i) =
      ie_EventHash (map guard_view (map recovered_event xs) ! (i - 1))"
    by (simp add: guard_view_recovered)
qed

text \<open>Where a second trace begins, the previous hash comes back as 64 zeros.\<close>

lemma norm_hash_Nil: "norm_hash [] = replicate 64 (CHR ''0'')"
  by (simp add: norm_hash_def hash_field_def hexToBytes_def) code_simp

lemma chain_check_fails:
  assumes ch: "\<And>t. chained 0 [] (trace_events t (map store_event xs))"
    and exact: "list_all names_exact xs"
    and nonzero: "\<forall>e \<in> set xs. ev_EventHash e \<noteq> replicate 64 (CHR ''0'')"
    and two: "e \<in> set xs" "e' \<in> set xs" "ev_TraceID e \<noteq> ev_TraceID e'"
  shows "CheckHashChain (map guard_view (map recovered_event xs)) \<noteq> None"
proof -
  let ?P = "\<lambda>x. ev_TraceID x \<noteq> ev_TraceID (hd xs)"
  from two have "\<exists>x \<in> set xs. ?P x" by metis
  then obtain ys x zs where xs: "xs = ys @ x # zs" "?P x" "\<forall>y \<in> set ys. \<not> ?P y"
    using split_list_first_prop [of xs ?P] by blast
  then have ne: "ys \<noteq> []" by (cases ys) auto
  have "filter (\<lambda>e. ev_TraceID e = ev_TraceID x) ys = []"
    using xs(2,3) by (auto simp: filter_empty_conv)
  then have "ev_PrevHash x = []"
    using ch [of "ev_TraceID x"] unfolding trace_events_store by (simp add: xs(1) store_event_def)
  moreover have "last ys \<in> set xs" using ne by (simp add: xs(1))
  then have "norm_hash (ev_EventHash (last ys)) \<noteq> norm_hash []"
    using nonzero exact by (auto simp: norm_hash_Nil list_all_iff names_exact_def)
  moreover have "xs ! (length ys - 1) = last ys" using ne by (simp add: xs(1) nth_append last_conv_nth)
  ultimately have "ie_PrevHash (map guard_view (map recovered_event xs) ! length ys) \<noteq>
      ie_EventHash (map guard_view (map recovered_event xs) ! (length ys - 1))"
    using ne by (simp add: guard_view_recovered xs(1) nth_append)
  then show ?thesis
    unfolding CheckHashChain_iff using ne by (auto simp: xs(1))
qed



section \<open>Rebuilding a store\<close>

text \<open>C10: But a new event store cannot be rebuilt from the log.  The format has no empty
  previous hash: it comes back as 64 zeros.  So whatever log the event store has accepted,
  recovery of the complete file returns events that a fresh store refuses at the very first
  one, because the first event of a trace must have an empty previous hash.\<close>

theorem recovered_log_rejected_by_store:
  assumes "run_steps store_Append NewEventStore (map store_event es) = Inr final"
    and "list_all event_fits es" and "es \<noteq> []"
  shows "\<exists>w. run_steps wal_append_step (opened_WAL path None) es = Inr w \<and>
    fst (fst (wal_Recover w)) = None \<and>
    run_steps store_Append NewEventStore (map store_event (snd (fst (wal_Recover w)))) =
      Inl \<lparr>ae_TraceID = norm_trace (ev_TraceID (hd es)), ae_Kind = first_prevhash_not_empty,
            ae_Have = 0, ae_Want = 0\<rparr>"
proof -
  obtain w where w: "run_steps wal_append_step (opened_WAL path None) es = Inr w"
      "fst (wal_Recover w) = (None, map recovered_event es)"
    using recover_appended [OF assms(2)] by blast
  obtain e es' where es: "es = e # es'" using assms(3) by (cases es) auto
  obtain s where "store_Append NewEventStore (store_event e) = Inr s"
    using assms(1) by (auto simp only: es list.map run_steps.simps split: sum.splits)
  then have first: "ev_Seq e = 1" "ev_PrevHash e = []"
    by (simp_all add: store_event_def store_defs NewEventStore_def split: if_splits)
  have "length (norm_hash []) = 64" by (simp add: norm_hash_def length_hash_field)
  then have "norm_hash [] \<noteq> []" by auto
  then have "store_Append NewEventStore (store_event (recovered_event e)) =
      Inl \<lparr>ae_TraceID = norm_trace (ev_TraceID e), ae_Kind = first_prevhash_not_empty, ae_Have = 0, ae_Want = 0\<rparr>"
    using first by (simp add: store_defs NewEventStore_def store_event_def recovered_event_def)
  then show ?thesis using w by (auto simp only: es list.map run_steps.simps list.sel fst_conv snd_conv sum.case)
qed

theorem recovered_log_rejected_witness:
  "\<exists>w. run_steps wal_append_step (opened_WAL ''p'' None) [first_event] = Inr w \<and>
     (\<exists>err. run_steps store_Append NewEventStore (map store_event (snd (fst (wal_Recover w)))) = Inl err \<and>
        ae_Kind err = first_prevhash_not_empty)"
proof -
  obtain final where f: "run_steps store_Append NewEventStore (map store_event [first_event]) = Inr final"
    using first_event_accepted by blast
  have "list_all event_fits [first_event]" using names_exact_fits [of "[first_event]"] first_event_exact by simp
  from recovered_log_rejected_by_store [OF f this, of "''p''"] show ?thesis by auto
qed

end
