(* ===== verification/Spec2Isabelle.thy ===== *)
theory Spec2Isabelle
  imports Clock Canon WalLog ConsensusSpec Snapshot Guard ModelChecker ContractUnique Diff JsonRead Rng ByzantineSpec
    Stress Failure Chaos Schema Coverage Formal Ci Recovery
begin

text \<open>
  A model of the ATOM runtime (the Go packages under \<open>src/pkg\<close> and \<open>src/cmd\<close>), a deterministic
  distributed event log, and the theorems that make it correct.

  \<^bold>\<open>The program.\<close>  Events belong to traces; each trace is numbered from 1 and chained by hashes.
  The event store (\<open>consensus\<close>) accepts events, the write-ahead log (\<open>wal\<close>) keeps them on disk,
  snapshots (\<open>snapshot\<close>) summarise a store and are brought forward by replay, the guard
  (\<open>invariant\<close>) and the model checker (\<open>modelchecker\<close>) check the numbering and the chain, the
  clock and the barrier (\<open>clock\<close>, \<open>geb\<close>) hand out ticks.  Around this core stand tools that
  inject faults and compare results (\<open>failure\<close>, \<open>chaos\<close>, \<open>byzantine\<close>, \<open>stress\<close>, \<open>diff\<close>,
  \<open>trace\<close>), canonical encoding and random numbers (\<open>contract\<close>, \<open>rng\<close>), a schema registry, a
  coverage table, and a generator of TLA+ specifications with its CI gate (\<open>formal\<close>, \<open>ci\<close>,
  \<open>cmd/formalgen\<close>).

  \<^bold>\<open>Conventions.\<close>  A struct is a record, \<open>uint64\<close> and \<open>int64\<close> are 64-bit words whose arithmetic
  wraps (\<open>int\<close> is kept unbounded where the code only counts), strings are lists of bytes as
  characters, enumerations over \<open>int\<close> are a number with named values, maps are partial functions
  or, where the iteration order can be seen, lists of entries in that order.  A method that
  changes its receiver returns the new state; an error is an \<open>Inl\<close> or a \<open>Some\<close>; a panic is an
  \<open>Inl\<close> with its message or \<open>None\<close>.  A mutex makes a method one step, so concurrency is the order
  of steps.  Definitions carry the Go names, with the package as a prefix where names clash
  (\<open>wal_Append\<close>, \<open>store_Append\<close>); the loop of a function has its own definition.

  \<^bold>\<open>Shared theories.\<close>  \<open>Prelude\<close>: machine types, byte order, decimal and hexadecimal text.
  \<open>Interfaces\<close>: the contracts between components as locales, each interpreted on the code's
  definitions: \<open>ticking_clock\<close> (clock and barrier), \<open>append_log\<close> (event store, log file and
  trace recorder), \<open>fallible_sim\<close> and \<open>fallible_refinement\<close> (store against specification and
  snapshot), \<open>framing\<close> (records in a file), \<open>majority\<close> (quorums).  \<open>Sha256\<close>, \<open>Decimal\<close>,
  \<open>Float64\<close>, \<open>Json\<close>: the parts of Go's library the program computes with: SHA-256 and FNV-1a,
  the hand-written decimal conversion, IEEE double arithmetic on exact rationals, the text of
  \<open>json.MarshalIndent\<close>.

  \<^bold>\<open>Components and what is shown of them.\<close>
  \<^item> \<open>Clock\<close> (\<open>clock.go\<close>, \<open>geb.go\<close>): ticks are consecutive and different as long as the counter
    does not wrap; \<open>AdvanceTo\<close> of the last tick wraps to 0.
  \<^item> \<open>Canon\<close> (\<open>canon.go\<close>): the event record and the event generator.
  \<^item> \<open>Wal\<close> and \<open>WalLog\<close> (\<open>wal.go\<close>): the record format round trips in both directions, a changed
    byte outside the length field is noticed or is a SHA-256 collision; the file under any
    outcome of writes and any sizes and failures of reads: recovery after a crash returns exactly
    the complete records of the surviving prefix.  Three ways to lose data are theorems too.
  \<^item> \<open>Consensus\<close> (\<open>engine.go\<close>, event store): exactly the valid logs are accepted; the store
    refines the transition system that \<open>formal/spec.go\<close> states for it (\<open>spec_Append\<close>, over the
    integers, below 2 to the 64 events in a trace), and breaks its INV1.
  \<^item> \<open>ConsensusNode\<close>, \<open>Cluster\<close>, \<open>Election\<close> (\<open>engine.go\<close>, nodes): leader choice, commit, and the
    message handler, alone and in a cluster as a step relation over arbitrary schedules
    (\<open>cluster_run\<close>): terms and logs only grow, at most one candidate gathers a quorum in a term,
    a quorum can always be gathered from willing voters, no node becomes leader, and only traces
    of one hash replicate.
  \<^item> \<open>Snapshot\<close> (\<open>store.go\<close>): fast replay is characterised completely; replay of the rest from a
    snapshot equals replay of the whole log.
  \<^item> \<open>Recovery\<close>: store, log and snapshot composed: after any crash, recovery and fast replay restore
    exactly the state after the events whose records are complete; on these events the guard's
    check of the numbering passes, its check of the chain passes for each trace, and for all
    together only if there is one trace; a fresh event store refuses the recovered events.
  \<^item> \<open>Guard\<close> (\<open>guard.go\<close>): each check decides its invariant, and a trace checked event by event
    passes the checks of whole logs.
  \<^item> \<open>ModelChecker\<close> (\<open>model.go\<close>): the search terminates (the number of keys that can still be
    visited falls) in at most one turn more than there are transitions, and decides whether a
    bad transition is reachable.
  \<^item> \<open>Contract\<close>, \<open>ContractUnique\<close> (\<open>contract.go\<close>): the encoding does not depend on iteration order,
    and different plain values have different encodings; what the event hash binds, and where it
    is ambiguous.
  \<^item> \<open>Diff\<close>, \<open>TraceJson\<close> (\<open>recorder.go\<close>, \<open>diff/engine.go\<close>): when the comparisons are silent.
  \<^item> \<open>Json\<close>, \<open>JsonGrammar\<close>, \<open>JsonRead\<close>: the printer of \<open>encoding/json\<close> as far as it is used, a
    grammar of JSON that the form of every trace and every report belongs to, and a reader of JSON
    that gives back the entries of a trace from its JSON form.
  \<^item> \<open>Rng\<close>, \<open>Byzantine\<close> (\<open>rng.go\<close>, \<open>network.go\<close>): a sample is exactly the fraction of the low 52
    bits of a hash, and the clamps never act; the shuffle is a permutation; a node receives all
    events of a run or none.
  \<^item> \<open>ByzantineSpec\<close>, \<open>ConsensusSpec\<close> (two of the specifications in \<open>spec.go\<close>): the network
    specification is read literally: a broadcast of the code is a step of it only when it reaches
    a single node, since two recipients make the action unsatisfiable; every run satisfies its
    \<open>INV_Convergence\<close>, which the specification alone does not keep; of the node invariants
    \<open>INV_NoSplitBrain\<close> is what \<open>CheckNoSplitBrain\<close> decides (\<open>Cluster\<close> proves it for every
    reachable cluster), while \<open>INV_Consistency\<close> and the action \<open>MonotonicTerm\<close> do not describe the
    code.
  \<^item> \<open>Stress\<close> (\<open>stress.go\<close>): the run never reports a violation, for any configuration; it panics
    for a negative number of nodes, or one that \<open>make\<close> has no room for.
  \<^item> \<open>Failure\<close>, \<open>Chaos\<close> (\<open>failure.go\<close>, \<open>mode.go\<close>): each kind of file corruption against recovery,
    whatever the operating system answers; a chaos run injects only enabled failures, within its
    duration, and records each.
  \<^item> \<open>Schema\<close>, \<open>Coverage\<close> (\<open>schema.go\<close>, \<open>matrix.go\<close>): what validation looks at; the table's queries.
  \<^item> \<open>Formal\<close>, \<open>Ci\<close> (\<open>spec.go\<close>, \<open>ci.go\<close>, \<open>formalgen/main.go\<close>): the layout of a generated module;
    the gate's outcome does not depend on the model checker's verdict.

  \<^bold>\<open>Bounds.\<close>  No definition runs on fuel: every loop of the program is structural or has a measure
  (the bytes left in the log, the keys left in the search, the digits left in the conversion); the
  reader of JSON, which is not part of the program, is a partial function, and what it returns is
  proved.  Bounds in theorems are those of the machine: fewer than 2 to the 32 bytes of payload,
  2 to the 53 nodes for exact conversion to a double, 2 to the 63 nodes for the quorum, 2 to the
  64 events, and the 2 to the 48 bytes above which \<open>make\<close> panics on a 64-bit machine
  (\<open>make_panics\<close>).

  \<^bold>\<open>Parameters.\<close>  \<open>math/rand\<close> is a function that stays below its argument, as documented.  The
  operating system is data: bytes, the result of each open, read, write and close, the environment
  record of the CI gate.  The order of map iteration is an argument.  Values of type \<open>interface{}\<close>
  are abstract with their printed text, or trees whose other leaves have their JSON text as a
  parameter.

  \<^bold>\<open>Not modelled.\<close>  The tests, the Python mirrors of the Go packages and the workflow files, which
  are not Go or not part of the program; the race of two goroutines inside one method beyond the
  order of its channel operations; running out of memory, which ends a Go program; the text of
  errors the operating system returns.
\<close>

end
